(* ===== verification/Prelude.thy ===== *)
theory Prelude
  imports Main "HOL-Library.Word"
begin

text \<open>
  Shared vocabulary of the development: the fixed-width integer types of the C code, the faults
  a kernel module can run into (the value an operation has where the C code would have undefined
  behaviour or stop the kernel), the sequencing of operations that may fault, and generic lemmas
  on words, lists and folds that the component theories share.
\<close>

unbundle bit_operations_syntax

type_synonym u8 = "8 word"
type_synonym u16 = "16 word"
type_synonym u32 = "32 word"
type_synonym u64 = "64 word"

text \<open>
  \<open>OutOfBounds i\<close>: an array or buffer access at an index that is not in it;
  \<open>NullDeref\<close>: a dereference of the null pointer (or of a pointer to nothing);
  \<open>UseAfterFree a\<close>: a read of a large buffer that is not allocated, or of the slab object at \<open>a\<close>
  after it has been freed;
  \<open>KernelBug\<close>: a failing \<open>BUG_ON\<close> or \<open>BUG()\<close>;
  \<open>SkbUnderPanic\<close>: \<open>skb_push\<close> past the head of the socket buffer.
\<close>

datatype fault = OutOfBounds nat | NullDeref | UseAfterFree u64 | KernelBug | SkbUnderPanic

text \<open>
  An operation that may fault returns \<open>Inl\<close> the fault or \<open>Inr\<close> its result and the new state.
  \<open>rbind\<close> runs the next operation only where the first did not fault.
\<close>

definition rbind :: "fault + 'a \<Rightarrow> ('a \<Rightarrow> fault + 'b) \<Rightarrow> fault + 'b" where
  "rbind r f = (case r of Inl e \<Rightarrow> Inl e | Inr x \<Rightarrow> f x)"

lemma rbind_Inr [simp]: "rbind (Inr x) f = f x"
  by (simp add: rbind_def)

lemma rbind_Inl [simp]: "rbind (Inl e) f = Inl e"
  by (simp add: rbind_def)

lemma rbind_eq_Inr: "rbind r f = Inr y \<longleftrightarrow> (\<exists>x. r = Inr x \<and> f x = Inr y)"
  by (cases r) auto

lemma rbind_eq_Inl: "rbind r f = Inl e \<longleftrightarrow> r = Inl e \<or> (\<exists>x. r = Inr x \<and> f x = Inl e)"
  by (cases r) auto

lemma rbind_split: "P (rbind r f) \<longleftrightarrow> (\<forall>e. r = Inl e \<longrightarrow> P (Inl e)) \<and> (\<forall>x. r = Inr x \<longrightarrow> P (f x))"
  by (cases r) auto

lemma rbind_cong [fundef_cong]:
  "r = r' \<Longrightarrow> (\<And>x. r' = Inr x \<Longrightarrow> f x = f' x) \<Longrightarrow> rbind r f = rbind r' f'"
  by (cases r') auto

text \<open>The error numbers the code returns (negated) through \<open>int\<close>.\<close>

definition ENOENT :: int where "ENOENT = 2"
definition EIO :: int where "EIO = 5"
definition EAGAIN :: int where "EAGAIN = 11"
definition ENOMEM :: int where "ENOMEM = 12"
definition EFAULT :: int where "EFAULT = 14"
definition ENODEV :: int where "ENODEV = 19"
definition EINVAL :: int where "EINVAL = 22"
definition EOPNOTSUPP :: int where "EOPNOTSUPP = 95"

lemmas errno_defs = ENOENT_def EIO_def EAGAIN_def ENOMEM_def EFAULT_def ENODEV_def EINVAL_def
  EOPNOTSUPP_def

section \<open>Words\<close>

text \<open>Facts that move a sum of words to the natural numbers when it does not wrap.\<close>

lemma unat_add_no_wrap:
  fixes a b :: "'a::len word"
  assumes "unat a + unat b < 2 ^ LENGTH('a)"
  shows "unat (a + b) = unat a + unat b"
  using assms by (simp add: unat_word_ariths)

lemma unat_drop_bit_div: "unat (drop_bit n w) = unat w div 2 ^ n"
  for w :: "'a::len word"
  by (subst unat_drop_bit_eq) (rule drop_bit_eq_div)

lemma unat_lt_pow: "unat (w :: u32) < 4294967296"
  using unsigned_less [of w, where ?'a = nat] by simp

text \<open>Clearing the low bits of a word is rounding down to a multiple of a power of two.\<close>

lemma and_not_mask_shift:
  fixes w :: "'a::len word"
  shows "w AND NOT (mask n) = push_bit n (drop_bit n w)"
  by (rule bit_word_eqI) (auto simp: bit_simps)

lemma unat_and_not_mask:
  fixes w :: "'a::len word"
  shows "unat (w AND NOT (mask n)) = unat w div 2 ^ n * 2 ^ n"
proof -
  have lt: "unat w div 2 ^ n * 2 ^ n < 2 ^ LENGTH('a)"
    using unsigned_less [of w, where ?'a = nat] div_times_less_eq_dividend [of "unat w" "2 ^ n"]
    by linarith
  have "unat (w AND NOT (mask n)) = take_bit LENGTH('a) (unat w div 2 ^ n * 2 ^ n)"
    by (subst and_not_mask_shift, subst unsigned_push_bit_eq, subst unat_drop_bit_div)
      (simp only: push_bit_eq_mult)
  with lt show ?thesis by (simp add: take_bit_eq_mod)
qed

lemma unat_and_mask:
  fixes w :: "'a::len word"
  shows "unat (w AND mask n) = unat w mod 2 ^ n"
  by (subst take_bit_eq_mask [symmetric], subst unsigned_take_bit_eq) (rule take_bit_eq_mod)

text \<open>Signed and unsigned comparison agree below half the range.\<close>

lemma sint_less_iff_unat:
  fixes a b :: u32
  assumes "unat a < 2 ^ 31" "unat b < 2 ^ 31"
  shows "sint a < sint b \<longleftrightarrow> unat a < unat b"
proof -
  have e: "sint (x :: u32) = int (unat x)" if "unat x < 2 ^ 31" for x
  proof -
    have "int (unat x) < int (2 ^ 31)" using that by (simp only: of_nat_less_iff)
    then have "uint x < 2 ^ 31" unfolding uint_nat by (simp only: of_nat_power of_nat_numeral)
    then have "signed_take_bit 31 (uint x) = uint x"
      by (intro signed_take_bit_int_eq_self) (simp_all add: order.trans [OF _ uint_ge_0])
    then have "sint x = uint x" by (simp add: sint_uint)
    then show ?thesis by (simp only: uint_nat)
  qed
  show ?thesis unfolding e [OF assms(1)] e [OF assms(2)] by (rule of_nat_less_iff)
qed

section \<open>Maps\<close>

lemma restrict_UNIV [simp]: "m |` UNIV = m"
  by (simp add: restrict_map_def)

lemma restrict_complement_singleton: "m(x := None) = m |` (- {x})"
  by (auto simp: restrict_map_def)

lemma upd_None_restrict_complement: "(m(x := None)) |` (- A) = m |` (- insert x A)"
  by (auto simp: restrict_map_def)

end
