(* ===== verification/Lbuf_Format.thy ===== *)
theory Lbuf_Format
  imports Prelude
begin

text \<open>
  The large-buffer format of \<open>sw/driver/nf10_lbuf_api.h\<close>: a buffer of \<open>LBUF_SIZE\<close> bytes is
  read as 32-bit dwords; dword 0 holds the number of qwords the card wrote, dwords 1 to 31 are
  reserved, and packets follow from dword 32, each a header qword (timestamp, length in bytes) and
  its payload padded to a qword. The theory models the header's macros, the two other parsers'
  step (\<open>sw/apps/lbuf_rx.c\<close>, \<open>sw/my_driver/my_driver.c\<close>), the contract the three steps share
  (locale \<open>pkt_stepper\<close>) and, as the specification of the format, an encoder of packet lists.
\<close>

section \<open>The macros of the format\<close>

definition PAGE_SHIFT :: nat where "PAGE_SHIFT = 12"
definition LBUF_ORDER :: nat where "LBUF_ORDER = 9"
definition LBUF_SIZE :: nat where "LBUF_SIZE = 2 ^ (PAGE_SHIFT + LBUF_ORDER)"
definition NR_RESERVED_DWORDS :: u32 where "NR_RESERVED_DWORDS = 32"

text \<open>The content of a large buffer, dword by dword; a read past its end is a fault.\<close>

type_synonym lbuf = "nat \<Rightarrow> u32"

definition lbuf_read :: "lbuf \<Rightarrow> nat \<Rightarrow> fault + u32" where
  "lbuf_read b i = (if i < LBUF_SIZE div 4 then Inr (b i) else Inl (OutOfBounds i))"

definition LBUF_NR_DWORDS :: "lbuf \<Rightarrow> u32" where
  "LBUF_NR_DWORDS b = push_bit 1 (b 0) + NR_RESERVED_DWORDS"

definition LBUF_FIRST_DWORD_IDX :: u32 where
  "LBUF_FIRST_DWORD_IDX = NR_RESERVED_DWORDS"

definition LBUF_TIMESTAMP :: "lbuf \<Rightarrow> u32 \<Rightarrow> fault + u32" where
  "LBUF_TIMESTAMP b dword_idx = lbuf_read b (unat dword_idx)"

definition LBUF_PKT_LEN :: "lbuf \<Rightarrow> u32 \<Rightarrow> fault + u32" where
  "LBUF_PKT_LEN b dword_idx = lbuf_read b (unat (dword_idx + 1))"

text \<open>The address of the payload, as a byte offset into the buffer.\<close>

definition LBUF_PKT_ADDR :: "u32 \<Rightarrow> nat" where
  "LBUF_PKT_ADDR dword_idx = 4 * unat (dword_idx + 2)"

definition LBUF_NEXT_DWORD_IDX :: "u32 \<Rightarrow> u32 \<Rightarrow> u32" where
  "LBUF_NEXT_DWORD_IDX dword_idx pkt_len =
     dword_idx + 2 + drop_bit 2 ((pkt_len + 7) AND NOT 7)"

definition LBUF_IS_VALID :: "u32 \<Rightarrow> bool" where
  "LBUF_IS_VALID nr_dwords \<longleftrightarrow>
     NR_RESERVED_DWORDS < nr_dwords \<and> unat nr_dwords \<le> LBUF_SIZE div 4"

lemmas lbuf_consts = PAGE_SHIFT_def LBUF_ORDER_def LBUF_SIZE_def NR_RESERVED_DWORDS_def
  LBUF_FIRST_DWORD_IDX_def

lemma LBUF_SIZE_value [simp]: "LBUF_SIZE = 2097152"
  by (simp add: lbuf_consts)

lemma LBUF_IS_VALID_iff: "LBUF_IS_VALID n \<longleftrightarrow> 32 < unat n \<and> unat n \<le> 524288"
  by (simp add: LBUF_IS_VALID_def lbuf_consts word_less_nat_alt)

text \<open>
  Bytes of a buffer, in the little-endian order of the machines the driver runs on, and the
  \<open>memcpy\<close> of \<open>n\<close> of them.
\<close>

definition lbuf_byte :: "lbuf \<Rightarrow> nat \<Rightarrow> u8" where
  "lbuf_byte b i = ucast (drop_bit (8 * (i mod 4)) (b (i div 4)))"

definition lbuf_copy :: "lbuf \<Rightarrow> nat \<Rightarrow> nat \<Rightarrow> fault + u8 list" where
  "lbuf_copy b off n =
     (if off + n \<le> LBUF_SIZE then Inr (map (lbuf_byte b) [off..<off + n])
      else Inl (OutOfBounds (LBUF_SIZE div 4)))"

section \<open>The step of the other two parsers\<close>

text \<open>
  \<open>lbuf_rx.c\<close> and \<open>my_driver.c\<close> advance the index in pieces: past the timestamp, past the
  length, by the whole dwords of the payload, and by one or two dwords more for the padding.
\<close>

definition app_next_dword_idx :: "u32 \<Rightarrow> u32 \<Rightarrow> u32" where
  "app_next_dword_idx dword_idx pkt_len =
     (let i = dword_idx + 1;
          i = i + 1;
          i = i + drop_bit 2 pkt_len;
          bytes_remainder = (ucast (pkt_len AND 7) :: u8)
      in if 4 \<le> bytes_remainder then i + 1
         else if 0 < bytes_remainder then i + 2 else i)"

definition my_next_dw_index :: "u32 \<Rightarrow> u32 \<Rightarrow> u32" where
  "my_next_dw_index dw_index pkt_len =
     (let i = dw_index + 1;
          i = i + 1;
          i = i + drop_bit 2 pkt_len;
          bytes_remainder = (ucast (pkt_len AND 7) :: u8)
      in if 4 \<le> bytes_remainder then i + 1
         else if 0 < bytes_remainder then i + 2 else i)"

section \<open>What the steps promise\<close>

text \<open>Dwords a packet of \<open>n\<close> bytes occupies: the header qword and the padded payload.\<close>

definition pkt_dwords :: "nat \<Rightarrow> nat" where
  "pkt_dwords n = 2 + 2 * ((n + 7) div 8)"

text \<open>
  A packet stepper moves forward from every index inside a buffer, whatever the length field
  says, and by exactly the packet's dwords where the length cannot wrap.
\<close>

locale pkt_stepper =
  fixes step :: "u32 \<Rightarrow> u32 \<Rightarrow> u32"
  assumes step_forward: "unat i < LBUF_SIZE div 4 \<Longrightarrow> unat i + 2 \<le> unat (step i n)"
    and step_exact: "unat i < LBUF_SIZE div 4 \<Longrightarrow> unat n \<le> 4294967288 \<Longrightarrow>
      unat (step i n) = unat i + pkt_dwords (unat n)"
begin

lemma step_progress: "unat i < LBUF_SIZE div 4 \<Longrightarrow> i < step i n"
  using step_forward [of i n] by (simp add: word_less_nat_alt)

lemma step_even:
  assumes "unat i < LBUF_SIZE div 4" "unat n \<le> 4294967288" "even (unat i)"
  shows "even (unat (step i n))"
  using assms by (simp add: step_exact pkt_dwords_def)

text \<open>Two steppers agree wherever both are exact.\<close>

lemma step_agree:
  assumes "pkt_stepper step'" "unat i < LBUF_SIZE div 4" "unat n \<le> 4294967288"
  shows "step i n = step' i n"
  using assms step_exact [of i n] pkt_stepper.step_exact [of step' i n]
  by (simp add: word_unat_eq_iff)

end

section \<open>The three steps are packet steppers\<close>

lemma seven_mask: "(7::'a::len word) = mask 3" by (simp add: mask_eq_exp_minus_1)

lemma unat_add_dwords:
  fixes i k :: u32
  assumes "unat i < 524288" "unat k \<le> 1073741824"
  shows "unat (i + 2 + k) = unat i + 2 + unat k"
  using assms by (simp add: unat_word_ariths)

lemma unat_padded_dwords: "unat n \<le> 4294967288 \<Longrightarrow> unat (drop_bit 2 ((n + 7 :: u32) AND NOT 7)) = 2 * ((unat n + 7) div 8)"
proof -
  assume a: "unat n \<le> 4294967288"
  have "unat (n + 7) = unat n + 7" using a by (subst unat_add_no_wrap) auto
  then show ?thesis
    by (simp only: seven_mask unat_drop_bit_div unat_and_not_mask) simp
qed
lemma padded_dwords_le: "unat (drop_bit 2 (x::u32)) \<le> 1073741823"
  using unat_lt_pow [of x] by (simp add: unat_drop_bit_div)

interpretation lbuf_step: pkt_stepper LBUF_NEXT_DWORD_IDX
proof
  fix i n :: u32 assume i: "unat i < LBUF_SIZE div 4"
  have "unat (LBUF_NEXT_DWORD_IDX i n) = unat i + 2 + unat (drop_bit 2 ((n + 7) AND NOT 7))"
    unfolding LBUF_NEXT_DWORD_IDX_def
    by (rule unat_add_dwords) (use i padded_dwords_le [of "(n + 7) AND NOT 7"] in auto)
  note e = this
  show "unat i + 2 \<le> unat (LBUF_NEXT_DWORD_IDX i n)" by (simp only: e)
  assume "unat n \<le> 4294967288" 
  then show "unat (LBUF_NEXT_DWORD_IDX i n) = unat i + pkt_dwords (unat n)"
    by (simp only: e unat_padded_dwords pkt_dwords_def)
qed
lemma unat_and_seven: "unat ((n::u32) AND 7) = unat n mod 8"
  using unat_and_mask [of n 3] by (simp add: seven_mask)

lemma app_next_alt:
  "app_next_dword_idx i n = i + 2 + (drop_bit 2 n + (if 4 \<le> unat n mod 8 then 1 else if 0 < unat n mod 8 then 2 else 0))"
proof -
  have u: "unat (ucast (n AND 7) :: u8) = unat n mod 8"
    by (simp add: unsigned_ucast_eq unat_and_seven take_bit_eq_mod)
  show ?thesis unfolding app_next_dword_idx_def Let_def
    by (simp add: word_le_nat_alt word_less_nat_alt u)
qed

lemma padding_cases:
  "n div 4 + (if 4 \<le> n mod 8 then 1 else if 0 < n mod 8 then 2 else 0) = 2 * ((n + 7) div 8)"
  for n :: nat
proof -
  define q r where "q = n div 8" and "r = n mod 8"
  have n: "n = 8 * q + r" and r: "r < 8" by (auto simp: q_def r_def)
  have "(8 * q + r) div 4 = 2 * q + r div 4"
    using div_mult_self1 [of 4 r "2 * q"] by (simp add: add.commute)
  moreover have "(8 * q + r + 7) div 8 = q + (r + 7) div 8" by (simp add: add.assoc)
  moreover have "(8 * q + r) mod 8 = r" using r by simp
  moreover have "r \<in> {0, 1, 2, 3, 4, 5, 6, 7}" using r by auto
  ultimately show ?thesis by (auto simp: n)
qed

lemma app_padded_dwords: "unat (drop_bit 2 n + (if 4 \<le> unat n mod 8 then 1 else if 0 < unat n mod 8 then 2 else 0 :: u32)) =
  2 * ((unat (n::u32) + 7) div 8)"
proof -
  have d: "unat (drop_bit 2 n) = unat n div 4" by (simp add: unat_drop_bit_div)
  have "unat n div 4 \<le> 1073741823" using unat_lt_pow [of n] by linarith
  then have e: "unat (drop_bit 2 n + k) = unat n div 4 + unat k" if "unat k \<le> 2" for k
    using that by (simp add: unat_add_no_wrap d)
  show ?thesis using padding_cases [of "unat n"] by (auto simp: e split: if_splits)
qed
lemma app_step_stepper: "pkt_stepper app_next_dword_idx"
proof
  fix i n :: u32 assume i: "unat i < LBUF_SIZE div 4"
  let ?p = "drop_bit 2 n + (if 4 \<le> unat n mod 8 then 1 else if 0 < unat n mod 8 then 2 else 0)"
  have p: "unat ?p = 2 * ((unat n + 7) div 8)" by (rule app_padded_dwords)
  also have "\<dots> \<le> 1073741824" using div_le_mono [of "unat n + 7" 4294967302 8] unat_lt_pow [of n] by simp
  finally have "unat (app_next_dword_idx i n) = unat i + 2 + unat ?p"
    unfolding app_next_alt using i by (intro unat_add_dwords) auto
  then have e: "unat (app_next_dword_idx i n) = unat i + pkt_dwords (unat n)"
    by (simp only: p pkt_dwords_def)
  show "unat i + 2 \<le> unat (app_next_dword_idx i n)" by (simp only: e pkt_dwords_def)
  show "unat (app_next_dword_idx i n) = unat i + pkt_dwords (unat n)" by (rule e)
qed
interpretation app_step: pkt_stepper app_next_dword_idx by (rule app_step_stepper)

interpretation my_step: pkt_stepper my_next_dw_index 
proof -
  have "my_next_dw_index = app_next_dword_idx" by (intro ext) (simp only: my_next_dw_index_def app_next_dword_idx_def)
  then show "pkt_stepper my_next_dw_index" by (simp add: app_step_stepper)
qed

text \<open>The driver's walk reads the length dword of the next packet further on at every step.\<close>

lemma LBUF_PKT_LEN_Inr: "LBUF_PKT_LEN b i = Inr n \<longleftrightarrow> unat (i + 1) < 524288 \<and> n = b (unat (i + 1))"
  by (auto simp: LBUF_PKT_LEN_def lbuf_read_def)

lemma next_dword_idx_measure:
  assumes "unat (i + 1) < 524288"
  shows "unat (i + 1) < unat (LBUF_NEXT_DWORD_IDX i n + 1)"
proof -
  let ?x = "drop_bit 2 ((n + 7) AND NOT 7) :: u32"
  have e: "LBUF_NEXT_DWORD_IDX i n + 1 = (i + 1) + (?x + 2)" by (simp add: LBUF_NEXT_DWORD_IDX_def)
  have x: "unat (?x + 2) = unat ?x + 2"
    using padded_dwords_le [of "(n + 7) AND NOT 7"] by (subst unat_add_no_wrap) auto
  show ?thesis unfolding e
    using assms x padded_dwords_le [of "(n + 7) AND NOT 7"] by (subst unat_add_no_wrap) auto
qed

section \<open>The format as an encoder of packet lists\<close>

text \<open>
  What the header's comment describes, written as a function: a packet is its timestamp and its
  bytes, and a buffer is the encodings of its packets after 32 dwords of header. Both the driver's
  and the other parsers' walks are proved against it.
\<close>

definition le32 :: "u8 \<Rightarrow> u8 \<Rightarrow> u8 \<Rightarrow> u8 \<Rightarrow> u32" where
  "le32 a b c d = ucast a OR push_bit 8 (ucast b) OR push_bit 16 (ucast c) OR push_bit 24 (ucast d)"

fun dwords_of :: "u8 list \<Rightarrow> u32 list" where
  "dwords_of (a # b # c # d # bs) = le32 a b c d # dwords_of bs"
| "dwords_of _ = []"

definition pad8 :: "u8 list \<Rightarrow> u8 list" where
  "pad8 bs = bs @ replicate ((8 - length bs mod 8) mod 8) 0"

type_synonym pkt = "u32 \<times> u8 list"

definition enc_pkt :: "pkt \<Rightarrow> u32 list" where
  "enc_pkt p = fst p # of_nat (length (snd p)) # dwords_of (pad8 (snd p))"

definition enc_body :: "pkt list \<Rightarrow> u32 list" where
  "enc_body ps = concat (map enc_pkt ps)"

definition enc_lbuf :: "pkt list \<Rightarrow> lbuf" where
  "enc_lbuf ps = (let body = enc_body ps;
                      ds = of_nat (length body div 2) # replicate 31 0 @ body
                  in (\<lambda>i. if i < length ds then ds ! i else 0))"

text \<open>\<open>holds_at b i ds\<close>: the buffer holds the dwords \<open>ds\<close> from index \<open>i\<close> on.\<close>

definition holds_at :: "lbuf \<Rightarrow> nat \<Rightarrow> u32 list \<Rightarrow> bool" where
  "holds_at b i ds \<longleftrightarrow> (\<forall>j < length ds. b (i + j) = ds ! j)"

lemma holds_at_Nil [simp]: "holds_at b i []"
  by (simp add: holds_at_def)

lemma holds_at_Cons [simp]: "holds_at b i (d # ds) \<longleftrightarrow> b i = d \<and> holds_at b (Suc i) ds"
  by (auto simp: holds_at_def nth_Cons split: nat.splits)

lemma holds_at_append [simp]: "holds_at b i (ds @ es) \<longleftrightarrow> holds_at b i ds \<and> holds_at b (i + length ds) es"
  by (induction ds arbitrary: i) auto

lemma length_dwords_of: "length (dwords_of bs) = length bs div 4"
  by (induction bs rule: dwords_of.induct) auto

lemma round_up8: "n + (8 - n mod 8) mod 8 = 8 * ((n + 7) div 8)" for n :: nat
proof -
  define q r where "q = n div 8" and "r = n mod 8"
  have n: "n = 8 * q + r" and r: "r < 8" by (auto simp: q_def r_def)
  have "(8 * q + r + 7) div 8 = q + (r + 7) div 8" by (simp add: add.assoc)
  moreover have "r + (8 - r) mod 8 = 8 * ((r + 7) div 8)" using r by (cases "r = 0") auto
  moreover have "(8 * q + r) mod 8 = r" using r by simp
  ultimately show ?thesis by (simp add: n)
qed

lemma length_pad8: "length (pad8 bs) = 8 * ((length bs + 7) div 8)"
  by (simp add: pad8_def round_up8)

lemma length_enc_pkt: "length (enc_pkt p) = pkt_dwords (length (snd p))"
  by (simp add: enc_pkt_def length_dwords_of length_pad8 pkt_dwords_def)

lemma le32_byte: "ucast (drop_bit 0 (le32 a b c d)) = a" "ucast (drop_bit 8 (le32 a b c d)) = b"
 "ucast (drop_bit 16 (le32 a b c d)) = c" "ucast (drop_bit 24 (le32 a b c d)) = d"
  by (rule bit_word_eqI; auto simp: le32_def bit_simps dest: bit_imp_le_length)+

lemma lbuf_byte_in_dword: "k < 4 \<Longrightarrow> lbuf_byte b (4 * i + k) = ucast (drop_bit (8 * k) (b i))"
  by (simp add: lbuf_byte_def)

lemma lbuf_byte_dwords:
  assumes "holds_at b i (dwords_of bs)" "4 dvd length bs" "k < length bs"
  shows "lbuf_byte b (4 * i + k) = bs ! k"
  using assms
proof (induction bs arbitrary: i k rule: dwords_of.induct)
  case (1 a0 b0 c d bs)
  show ?case
  proof (cases "k < 4")
    case True
    then have "k = 0 \<or> k = 1 \<or> k = 2 \<or> k = 3" by auto
    then show ?thesis using "1.prems"(1) lbuf_byte_in_dword [OF True, of b i]
      by (elim disjE) (simp_all add: le32_byte [simplified])
  next
    case False
    then obtain m where m: "k = m + 4" by (metis add.commute le_Suc_ex not_less)
    have "length (a0 # b0 # c # d # bs) = length bs + 4" by simp
    with "1.prems"(2) have "4 dvd length bs" by (simp only: dvd_add_triv_right_iff)
    then have "lbuf_byte b (4 * Suc i + m) = bs ! m"
      using "1.prems" m by (intro "1.IH") auto
    then show ?thesis using m by (simp add: ac_simps)
  qed
qed (auto dest: dvd_imp_le)

lemma dwords_of_pad8_dvd: "4 dvd length (pad8 bs)"
  by (simp add: length_pad8)

lemma pad8_nth: "k < length bs \<Longrightarrow> pad8 bs ! k = bs ! k"
  by (simp add: pad8_def nth_append)

text \<open>Copying the payload of an encoded packet gives the packet's bytes back.\<close>

lemma lbuf_copy_enc_pkt:
  assumes b: "holds_at b i (enc_pkt p)" and n: "n \<le> length (snd p)"
    and fits: "4 * (i + 2) + n \<le> LBUF_SIZE"
  shows "lbuf_copy b (4 * (i + 2)) n = Inr (take n (snd p))"
proof -
  have d: "holds_at b (i + 2) (dwords_of (pad8 (snd p)))"
    using b by (simp add: enc_pkt_def numeral_2_eq_2)
  have "map (lbuf_byte b) [4 * (i + 2)..<4 * (i + 2) + n] = take n (snd p)"
  proof (rule nth_equalityI)
    fix k assume "k < length (map (lbuf_byte b) [4 * (i + 2)..<4 * (i + 2) + n])"
    then have k: "k < n" by simp
    then have "k < length (pad8 (snd p))" using n by (simp add: pad8_def)
    then have "lbuf_byte b (4 * (i + 2) + k) = pad8 (snd p) ! k"
      by (rule lbuf_byte_dwords [OF d dwords_of_pad8_dvd])
    then show "map (lbuf_byte b) [4 * (i + 2)..<4 * (i + 2) + n] ! k = take n (snd p) ! k"
      using k n by (simp add: pad8_nth)
  qed (use n in simp)
  then show ?thesis using fits by (simp add: lbuf_copy_def)
qed

lemma length_enc_body_Cons: "length (enc_body (p # ps)) = pkt_dwords (length (snd p)) + length (enc_body ps)"
  by (simp add: enc_body_def length_enc_pkt)

lemma even_length_enc_body: "even (length (enc_body ps))"
  by (induction ps) (auto simp: enc_body_def length_enc_pkt pkt_dwords_def)

lemma enc_lbuf_body: "holds_at (enc_lbuf ps) 32 (enc_body ps)"
  unfolding holds_at_def
proof (intro allI impI)
  fix j assume j: "j < length (enc_body ps)"
  define hdr :: "u32 list" where "hdr = of_nat (length (enc_body ps) div 2) # replicate 31 0"
  have l: "length hdr = 32" by (simp add: hdr_def)
  have "enc_lbuf ps (32 + j) = (hdr @ enc_body ps) ! (32 + j)"
    using j by (simp add: enc_lbuf_def Let_def hdr_def)
  also have "\<dots> = enc_body ps ! j" unfolding l [symmetric] by (rule nth_append_length_plus)
  finally show "enc_lbuf ps (32 + j) = enc_body ps ! j" .
qed

lemma enc_lbuf_nr_dwords:
  assumes le: "32 + length (enc_body ps) \<le> LBUF_SIZE div 4"
  shows "unat (LBUF_NR_DWORDS (enc_lbuf ps)) = 32 + length (enc_body ps)"
proof -
  obtain n where n: "length (enc_body ps) = 2 * n" using even_length_enc_body [of ps] by (elim evenE)
  then have small: "n \<le> 262128" using le by simp
  have "enc_lbuf ps 0 = of_nat n" by (simp add: enc_lbuf_def Let_def n)
  then have "LBUF_NR_DWORDS (enc_lbuf ps) = of_nat (2 * n + 32)"
    by (simp add: LBUF_NR_DWORDS_def push_bit_eq_mult NR_RESERVED_DWORDS_def)
  then have "unat (LBUF_NR_DWORDS (enc_lbuf ps)) = 2 * n + 32"
    using small by (simp only: unat_of_nat) simp
  then show ?thesis by (simp add: n)
qed

lemma enc_body_Cons: "enc_body (p # ps) = enc_pkt p @ enc_body ps"
  by (simp add: enc_body_def)

lemma enc_body_Nil: "enc_body [] = []"
  by (simp add: enc_body_def)

lemma enc_body_pos: "ps \<noteq> [] \<Longrightarrow> 0 < length (enc_body ps)"
  by (cases ps) (simp_all add: length_enc_body_Cons pkt_dwords_def)

text \<open>
  What a walk with a packet stepper finds at the start of an encoded body that ends at \<open>nr\<close>: the
  length of the first packet, and behind its step the rest of the body. Whether it goes on can be
  asked of the indices as signed or as unsigned numbers.
\<close>

context pkt_stepper
begin

lemma enc_first:
  assumes b: "holds_at b (unat i) (enc_body (p # ps))"
    and nr: "unat i + length (enc_body (p # ps)) = unat nr" "unat nr \<le> 524288"
  shows "unat (i + 1) < 524288" "b (unat (i + 1)) = of_nat (length (snd p))"
    "unat i + pkt_dwords (length (snd p)) \<le> 524288" "holds_at b (unat i) (enc_pkt p)"
    "unat (step i (of_nat (length (snd p)))) + length (enc_body ps) = unat nr"
    "holds_at b (unat (step i (of_nat (length (snd p))))) (enc_body ps)"
    "step i (of_nat (length (snd p))) < nr \<longleftrightarrow> ps \<noteq> []"
    "sint (step i (of_nat (length (snd p)))) < sint nr \<longleftrightarrow> ps \<noteq> []"
proof -
  let ?l = "length (snd p)" and ?j = "step i (of_nat (length (snd p)))"
  have fits: "unat i + pkt_dwords ?l + length (enc_body ps) = unat nr"
    using nr(1) by (simp add: length_enc_body_Cons)
  then show fit1: "unat i + pkt_dwords ?l \<le> 524288" using nr(2) by simp
  then have lsmall: "?l < 4294967288" by (simp add: pkt_dwords_def)
  then have u: "unat (of_nat ?l :: u32) = ?l" by (simp add: unat_of_nat)
  have i1: "unat (i + 1) = unat i + 1" using fit1 by (subst unat_add_no_wrap) (simp_all add: pkt_dwords_def)
  show "unat (i + 1) < 524288" using fit1 i1 by (simp add: pkt_dwords_def)
  show bp: "holds_at b (unat i) (enc_pkt p)" using b by (simp add: enc_body_Cons)
  then show "b (unat (i + 1)) = of_nat ?l" using i1 by (simp add: enc_pkt_def)
  have j: "unat ?j = unat i + pkt_dwords ?l"
    using step_exact [of i "of_nat ?l"] u lsmall fit1 by (simp add: pkt_dwords_def)
  show "unat ?j + length (enc_body ps) = unat nr" using j fits by simp
  show "holds_at b (unat ?j) (enc_body ps)" using b j by (simp add: enc_body_Cons length_enc_pkt)
  have "?j < nr \<longleftrightarrow> 0 < length (enc_body ps)" unfolding word_less_nat_alt j fits [symmetric] by simp
  also have "\<dots> \<longleftrightarrow> ps \<noteq> []" using enc_body_pos [of ps] enc_body_Nil by auto
  finally show lt: "?j < nr \<longleftrightarrow> ps \<noteq> []" .
  have "sint ?j < sint nr \<longleftrightarrow> unat ?j < unat nr"
    using j fit1 nr(2) by (intro sint_less_iff_unat) simp_all
  then show "sint ?j < sint nr \<longleftrightarrow> ps \<noteq> []" using lt by (simp add: word_less_nat_alt)
qed

end

end
