(* ===== verification/Kernel.thy ===== *)
theory Kernel
  imports Lbuf_Format
begin

text \<open>
  The Linux kernel as the driver sees it. Kernel services are not part of the repository: every
  definition of the driver takes them as an argument \<open>k\<close> (record \<open>kapi\<close>), one function per
  service, whose answer may depend on the whole history of calls made so far. Each call and each
  register write is appended to that history (\<open>kev list\<close>), so a history is what the kernel and
  the card observed of the driver, in order. The second half of the theory reads a history back:
  which memory is allocated, which DMA addresses are mapped, whether every release was of a live
  resource, what was last written to a card register, and what was delivered to the network stack.
\<close>

section \<open>Calls and their history\<close>

text \<open>The direction argument \<open>int rx\<close> of the code (0 = TX, 1 = RX).\<close>

datatype dir = TX | RX

text \<open>The two slab caches of \<open>nf10_lbuf.c\<close>: \<open>desc_cache\<close> and \<open>pending_gc_cache\<close>.\<close>

datatype cache = DescCache | PendingGcCache

datatype kev =
    AllocPages u64
  | FreePages u64
  | AllocCoherent nat u64 u64
  | FreeCoherent nat u64 u64
  | MapSingle u64 nat dir u64
  | UnmapSingle u64 nat dir
  | SyncForDevice u64
  | SyncForCpu u64
  | KmemAlloc cache u64
  | KmemFree cache u64
  | Writel nat u32
  | Writeq nat u64
  | AllocSkb nat bool
  | GroReceive "u8 list"
  | FreeSkb u64
  | ExpandHead u64 nat u64
  | CacheCreate cache bool
  | CacheDestroy cache
  | WakeUser
  | RemapPfn u64 u64
  | XenKick

type_synonym history = "kev list"

text \<open>
  \<open>k_alloc_pages\<close> gives the kernel address of the new pages and \<open>k_alloc_coherent\<close> the kernel and
  DMA address of a consistent buffer (0, the null pointer, when the allocation fails);
  \<open>k_map_single\<close> gives the DMA address of a mapping and \<open>k_mapping_error\<close> is
  \<open>pci_dma_mapping_error\<close>; \<open>k_kmem_alloc\<close> gives a slab object or 0; \<open>k_alloc_skb\<close> says whether
  \<open>netdev_alloc_skb\<close> succeeds; \<open>k_expand_head\<close> gives the address of the new head of
  \<open>pskb_expand_head\<close>, or 0 when it fails; \<open>k_cache_create\<close> says whether \<open>kmem_cache_create\<close>
  succeeds. \<open>k_freed_gc h p v\<close> is what a read of the \<open>dma_addr\<close> field of the object at \<open>p\<close> gives after
  the object, which held \<open>v\<close> there, has been given back to its slab cache: the C language does not
  define it, the allocator decides. \<open>None\<close> is an allocator that traps the read (KASAN, or a page
  already unmapped); a debugging allocator poisons the object; others leave the value there until
  the object is handed out again.
\<close>

record kapi =
  k_alloc_pages :: "history \<Rightarrow> u64"
  k_alloc_coherent :: "history \<Rightarrow> u64 \<times> u64"
  k_map_single :: "history \<Rightarrow> u64 \<Rightarrow> u64"
  k_mapping_error :: "u64 \<Rightarrow> bool"
  k_kmem_alloc :: "history \<Rightarrow> u64"
  k_freed_gc :: "history \<Rightarrow> u64 \<Rightarrow> u64 \<Rightarrow> u64 option"
  k_alloc_skb :: "history \<Rightarrow> bool"
  k_expand_head :: "history \<Rightarrow> u64"
  k_cache_create :: "cache \<Rightarrow> bool"

section \<open>Reading a history\<close>

text \<open>
  Memory: the set of kernel addresses allocated and not yet freed, with a flag that is false once
  something that was not allocated has been freed.
\<close>

fun mem_step :: "kev \<Rightarrow> u64 set \<times> bool \<Rightarrow> u64 set \<times> bool" where
  "mem_step (AllocPages a) (S, ok) = (if a = 0 then S else insert a S, ok)"
| "mem_step (FreePages a) (S, ok) = (S - {a}, ok \<and> a \<in> S)"
| "mem_step (AllocCoherent n a d) (S, ok) = (if a = 0 then S else insert a S, ok)"
| "mem_step (FreeCoherent n a d) (S, ok) = (S - {a}, ok \<and> a \<in> S)"
| "mem_step _ (S, ok) = (S, ok)"

definition mem_state :: "history \<Rightarrow> u64 set \<times> bool" where
  "mem_state h = fold mem_step h ({}, True)"

definition live_mem :: "history \<Rightarrow> u64 set" where
  "live_mem h = fst (mem_state h)"

definition frees_ok :: "history \<Rightarrow> bool" where
  "frees_ok h = snd (mem_state h)"

text \<open>DMA: the addresses the card may use, in the same way.\<close>

fun dma_step :: "kapi \<Rightarrow> kev \<Rightarrow> u64 set \<times> bool \<Rightarrow> u64 set \<times> bool" where
  "dma_step k (MapSingle a n r d) (S, ok) = (if k_mapping_error k d then S else insert d S, ok)"
| "dma_step k (UnmapSingle d n r) (S, ok) = (S - {d}, ok \<and> d \<in> S)"
| "dma_step k (AllocCoherent n a d) (S, ok) = (if a = 0 then S else insert d S, ok)"
| "dma_step k (FreeCoherent n a d) (S, ok) = (S - {d}, ok \<and> d \<in> S)"
| "dma_step k _ (S, ok) = (S, ok)"

definition dma_state :: "kapi \<Rightarrow> history \<Rightarrow> u64 set \<times> bool" where
  "dma_state k h = fold (dma_step k) h ({}, True)"

definition live_dma :: "kapi \<Rightarrow> history \<Rightarrow> u64 set" where
  "live_dma k h = fst (dma_state k h)"

definition unmaps_ok :: "kapi \<Rightarrow> history \<Rightarrow> bool" where
  "unmaps_ok k h = snd (dma_state k h)"

text \<open>The last quadword written to a register of BAR 2, and the frames given to the stack.\<close>

fun reg_step :: "nat \<Rightarrow> kev \<Rightarrow> u64 option \<Rightarrow> u64 option" where
  "reg_step off (Writeq o' v) r = (if o' = off then Some v else r)"
| "reg_step off _ r = r"

definition last_writeq :: "nat \<Rightarrow> history \<Rightarrow> u64 option" where
  "last_writeq off h = fold (reg_step off) h None"

fun frame_of :: "kev \<Rightarrow> u8 list list" where
  "frame_of (GroReceive f) = [f]"
| "frame_of _ = []"

definition delivered :: "history \<Rightarrow> u8 list list" where
  "delivered h = concat (map frame_of h)"

fun freed_skb_of :: "kev \<Rightarrow> u64 list" where
  "freed_skb_of (FreeSkb p) = [p]"
| "freed_skb_of _ = []"

text \<open>The frames \<open>remap_pfn_range\<close> has put into a process, in order.\<close>

fun remapped_of :: "kev \<Rightarrow> u64 list" where
  "remapped_of (RemapPfn pfn n) = [pfn]"
| "remapped_of _ = []"

definition remapped :: "history \<Rightarrow> u64 list" where
  "remapped h = concat (map remapped_of h)"

lemma remapped_snoc: "remapped (h @ [e]) = remapped h @ remapped_of e"
  by (simp add: remapped_def)

definition freed_skbs :: "history \<Rightarrow> u64 list" where
  "freed_skbs h = concat (map freed_skb_of h)"

text \<open>What the allocators promise: memory and DMA addresses that are not in use.\<close>

definition kernel_ok :: "kapi \<Rightarrow> bool" where
  "kernel_ok k \<longleftrightarrow>
     (\<forall>h. k_alloc_pages k h \<notin> live_mem h) \<and>
     (\<forall>h. fst (k_alloc_coherent k h) \<notin> live_mem h) \<and>
     (\<forall>h. fst (k_alloc_coherent k h) \<noteq> 0 \<longrightarrow> snd (k_alloc_coherent k h) \<notin> live_dma k h) \<and>
     (\<forall>h a. \<not> k_mapping_error k (k_map_single k h a) \<longrightarrow> k_map_single k h a \<notin> live_dma k h)"

text \<open>An allocator that leaves the \<open>dma_addr\<close> field of a freed object alone, and does not trap its read.\<close>

definition slab_keeps :: "kapi \<Rightarrow> bool" where
  "slab_keeps k \<longleftrightarrow> (\<forall>h p v. k_freed_gc k h p v = Some v)"

section \<open>One more call\<close>

named_theorems hist_simps

text \<open>
  The readings of a history extended by some events, in terms of the readings before: for a
  concrete list of events the simplifier computes the rest.
\<close>

lemma live_mem_append [hist_simps]:
  "live_mem (h @ es) = fst (fold mem_step es (live_mem h, frees_ok h))"
  by (simp add: live_mem_def frees_ok_def mem_state_def)

lemma frees_ok_append [hist_simps]:
  "frees_ok (h @ es) = snd (fold mem_step es (live_mem h, frees_ok h))"
  by (simp add: live_mem_def frees_ok_def mem_state_def)

lemma live_dma_append [hist_simps]:
  "live_dma k (h @ es) = fst (fold (dma_step k) es (live_dma k h, unmaps_ok k h))"
  by (simp add: live_dma_def unmaps_ok_def dma_state_def)

lemma unmaps_ok_append [hist_simps]:
  "unmaps_ok k (h @ es) = snd (fold (dma_step k) es (live_dma k h, unmaps_ok k h))"
  by (simp add: live_dma_def unmaps_ok_def dma_state_def)

lemma last_writeq_append [hist_simps]:
  "last_writeq off (h @ es) = fold (reg_step off) es (last_writeq off h)"
  by (simp add: last_writeq_def)

lemma live_mem_Nil [hist_simps]: "live_mem [] = {}"
  by (simp add: live_mem_def mem_state_def)

text \<open>The same for a concrete history.\<close>

lemma live_Cons [hist_simps]:
  "live_mem (e # es) = fst (fold mem_step es (mem_step e ({}, True)))"
  "frees_ok (e # es) = snd (fold mem_step es (mem_step e ({}, True)))"
  "live_dma k (e # es) = fst (fold (dma_step k) es (dma_step k e ({}, True)))"
  "unmaps_ok k (e # es) = snd (fold (dma_step k) es (dma_step k e ({}, True)))"
  by (simp_all add: live_mem_def frees_ok_def mem_state_def live_dma_def unmaps_ok_def dma_state_def)

lemma frees_ok_Nil [hist_simps]: "frees_ok []"
  by (simp add: frees_ok_def mem_state_def)

lemma live_dma_Nil [hist_simps]: "live_dma k [] = {}"
  by (simp add: live_dma_def dma_state_def)

lemma unmaps_ok_Nil [hist_simps]: "unmaps_ok k []"
  by (simp add: unmaps_ok_def dma_state_def)

lemma delivered_append [hist_simps]: "delivered (h @ g) = delivered h @ delivered g"
  by (simp add: delivered_def)

lemma delivered_Cons [hist_simps]: "delivered (e # h) = frame_of e @ delivered h"
  by (simp add: delivered_def)

lemma delivered_Nil [hist_simps]: "delivered [] = []"
  by (simp add: delivered_def)

lemma freed_skbs_append [hist_simps]: "freed_skbs (h @ g) = freed_skbs h @ freed_skbs g"
  by (simp add: freed_skbs_def)

lemma freed_skbs_Cons [hist_simps]: "freed_skbs (e # h) = freed_skb_of e @ freed_skbs h"
  by (simp add: freed_skbs_def)

lemma freed_skbs_Nil [hist_simps]: "freed_skbs [] = []"
  by (simp add: freed_skbs_def)

text \<open>The null pointer is never live, so a free of it shows in \<open>frees_ok\<close>.\<close>

lemma zero_not_live [simp]: "0 \<notin> live_mem h"
proof (induction h rule: rev_induct)
  case Nil
  show ?case by (simp add: live_mem_Nil)
next
  case (snoc e h)
  then show ?case by (cases e) (simp_all add: live_mem_append)
qed

section \<open>A kernel that keeps the contract\<close>

text \<open>
  Five large buffers' worth of memory and five DMA addresses, each handed out while it is free;
  used where a theorem about every kernel is applied to one.
\<close>

fun pick :: "u64 list \<Rightarrow> u64 set \<Rightarrow> u64" where
  "pick [] S = 0"
| "pick (x # xs) S = (if x \<in> S then pick xs S else x)"

lemma pick_fresh: "0 \<notin> S \<Longrightarrow> pick xs S \<notin> S"
  by (induction xs) auto

lemma pick_fresh_nonzero: "pick xs S \<noteq> 0 \<Longrightarrow> pick xs S \<notin> S"
  by (induction xs) (auto split: if_splits)

definition pool :: "u64 list" where
  "pool = [0x200000, 0x400000, 0x600000, 0x800000, 0xA00000]"

definition demo_errors :: kapi where
  "demo_errors = \<lparr>k_alloc_pages = (\<lambda>h. 0), k_alloc_coherent = (\<lambda>h. (0, 0)),
     k_map_single = (\<lambda>h a. 0), k_mapping_error = (\<lambda>d. d = 0), k_kmem_alloc = (\<lambda>h. 0),
     k_freed_gc = (\<lambda>h p v. Some v), k_alloc_skb = (\<lambda>h. False), k_expand_head = (\<lambda>h. 0),
     k_cache_create = (\<lambda>c. True)\<rparr>"

definition demo_coherent :: "history \<Rightarrow> u64 \<times> u64" where
  "demo_coherent h =
     (let a = pick pool (live_mem h); d = pick pool (live_dma demo_errors h)
      in if d = 0 then (0, 0) else (a, d))"

definition demo_kapi :: kapi where
  "demo_kapi = \<lparr>k_alloc_pages = (\<lambda>h. pick pool (live_mem h)), k_alloc_coherent = demo_coherent,
     k_map_single = (\<lambda>h a. pick pool (live_dma demo_errors h)), k_mapping_error = (\<lambda>d. d = 0),
     k_kmem_alloc = (\<lambda>h. 0xF000), k_freed_gc = (\<lambda>h p v. Some v), k_alloc_skb = (\<lambda>h. True),
     k_expand_head = (\<lambda>h. 0xE000), k_cache_create = (\<lambda>c. True)\<rparr>"

lemma demo_slab_keeps: "slab_keeps demo_kapi"
  by (simp add: slab_keeps_def demo_kapi_def)

lemma live_dma_cong:
  assumes "k_mapping_error k = k_mapping_error k'"
  shows "live_dma k h = live_dma k' h"
proof -
  have "dma_step k e S = dma_step k' e S" for e S
    using assms by (cases e; cases S) simp_all
  then have "dma_step k = dma_step k'" by (intro ext)
  then show ?thesis by (simp add: live_dma_def dma_state_def)
qed

lemma demo_live_dma: "live_dma demo_kapi h = live_dma demo_errors h"
  by (rule live_dma_cong) (simp add: demo_kapi_def demo_errors_def)

lemma demo_kernel_ok: "kernel_ok demo_kapi"
proof -
  have "k_alloc_pages demo_kapi h \<notin> live_mem h" for h
    by (simp add: demo_kapi_def pick_fresh)
  moreover have "fst (k_alloc_coherent demo_kapi h) \<notin> live_mem h" for h
    by (simp add: demo_kapi_def demo_coherent_def Let_def pick_fresh)
  moreover have "snd (k_alloc_coherent demo_kapi h) \<notin> live_dma demo_kapi h"
    if "fst (k_alloc_coherent demo_kapi h) \<noteq> 0" for h
    using that unfolding demo_live_dma
    by (auto simp: demo_kapi_def demo_coherent_def Let_def split: if_splits dest: pick_fresh_nonzero)
  moreover have "k_map_single demo_kapi h a \<notin> live_dma demo_kapi h"
    if "\<not> k_mapping_error demo_kapi (k_map_single demo_kapi h a)" for h a
    using that unfolding demo_live_dma by (simp add: demo_kapi_def pick_fresh_nonzero)
  ultimately show ?thesis by (simp add: kernel_ok_def)
qed

end
