(* ===== verification/Fifo.thy ===== *)
theory Fifo
  imports Prelude
begin

text \<open>
  The interface of a first-in first-out queue, as its clients use it, and a bounded variant that
  knows when it is full. The descriptor rings of the driver (bounded) and the queue of buffers
  handed to the Xen back end (unbounded) both provide it. The second part is the arithmetic of a
  ring of \<open>n\<close> slots addressed by a producer and a consumer pointer, where an empty and a full ring
  have equal pointers and are told apart by whether the consumer's slot is in use.
\<close>

section \<open>The interface\<close>

locale fifo =
  fixes elems :: "'s \<Rightarrow> 'a list"
    and inv :: "'s \<Rightarrow> bool"
    and is_empty :: "'s \<Rightarrow> bool"
    and can_enq :: "'s \<Rightarrow> bool"
    and storable :: "'a \<Rightarrow> bool"
    and enq :: "'a \<Rightarrow> 's \<Rightarrow> 's"
    and front :: "'s \<Rightarrow> 'a"
    and deq :: "'s \<Rightarrow> 's"
  assumes is_empty_iff: "inv s \<Longrightarrow> is_empty s \<longleftrightarrow> elems s = []"
    and enq_inv: "inv s \<Longrightarrow> can_enq s \<Longrightarrow> storable x \<Longrightarrow> inv (enq x s)"
    and enq_elems: "inv s \<Longrightarrow> can_enq s \<Longrightarrow> storable x \<Longrightarrow> elems (enq x s) = elems s @ [x]"
    and deq_inv: "inv s \<Longrightarrow> elems s \<noteq> [] \<Longrightarrow> inv (deq s)"
    and deq_elems: "inv s \<Longrightarrow> elems s \<noteq> [] \<Longrightarrow> elems s = front s # elems (deq s)"
begin

lemma front_eq_hd: "inv s \<Longrightarrow> \<not> is_empty s \<Longrightarrow> front s = hd (elems s)"
  using deq_elems [of s] is_empty_iff [of s] by (metis list.sel(1))

lemma deq_eq_tl: "inv s \<Longrightarrow> \<not> is_empty s \<Longrightarrow> elems (deq s) = tl (elems s)"
  using deq_elems [of s] is_empty_iff [of s] by (metis list.sel(3))

text \<open>Dequeuing as often as there are elements gives them back in order.\<close>

lemma deq_all:
  assumes "inv s" "elems s = xs @ ys"
  shows "inv ((deq ^^ length xs) s) \<and> elems ((deq ^^ length xs) s) = ys"
  using assms
proof (induction xs arbitrary: s)
  case Nil
  then show ?case by simp
next
  case (Cons x xs)
  then have "inv (deq s)" and "elems (deq s) = xs @ ys"
    using deq_inv [of s] deq_elems [of s] by auto
  then have "inv ((deq ^^ length xs) (deq s)) \<and> elems ((deq ^^ length xs) (deq s)) = ys"
    by (rule Cons.IH)
  then show ?case by (simp add: funpow_swap1)
qed

text \<open>An element put in while others wait comes out after exactly those.\<close>

lemma enq_then_front:
  assumes s: "inv s" "can_enq s" "storable x"
  shows "front ((deq ^^ length (elems s)) (enq x s)) = x"
proof -
  let ?t = "(deq ^^ length (elems s)) (enq x s)"
  have t: "inv ?t" "elems ?t = [x]"
    using deq_all [of "enq x s" "elems s" "[x]"] enq_inv [OF s] enq_elems [OF s] by auto
  then show ?thesis using deq_elems [of ?t] by simp
qed

end

locale bounded_fifo = fifo elems inv is_empty can_enq storable enq front deq
  for elems :: "'s \<Rightarrow> 'a list" and inv is_empty can_enq storable enq front deq +
  fixes capacity :: nat
  assumes can_enq_iff: "inv s \<Longrightarrow> can_enq s \<longleftrightarrow> length (elems s) < capacity"
    and within_capacity: "inv s \<Longrightarrow> length (elems s) \<le> capacity"
    and capacity_pos: "0 < capacity"
begin

lemma empty_can_enq: "inv s \<Longrightarrow> is_empty s \<Longrightarrow> can_enq s"
  using can_enq_iff [of s] is_empty_iff [of s] capacity_pos by simp

lemma deq_makes_room: "inv s \<Longrightarrow> \<not> is_empty s \<Longrightarrow> can_enq (deq s)"
  using can_enq_iff [of "deq s"] is_empty_iff [of s] deq_inv [of s] deq_elems [of s]
    within_capacity [of s] by auto

end

section \<open>Ring arithmetic\<close>

text \<open>
  \<open>ring_next\<close> is \<open>inc_pointer\<close> with the ring's size as an argument; \<open>ring_occ\<close> counts the slots in
  use; \<open>ring_list\<close> lists them from the consumer pointer on; \<open>ring_ok\<close> says that exactly those are
  in use.
\<close>

definition ring_next :: "nat \<Rightarrow> nat \<Rightarrow> nat" where
  "ring_next n p = (if p = n - 1 then 0 else p + 1)"

definition ring_occ :: "('a \<Rightarrow> bool) \<Rightarrow> 'a list \<Rightarrow> nat \<Rightarrow> nat \<Rightarrow> nat" where
  "ring_occ used xs p c =
     (if p = c then (if used (xs ! c) then length xs else 0)
      else if c < p then p - c else p + length xs - c)"

definition ring_list :: "('a \<Rightarrow> bool) \<Rightarrow> 'a list \<Rightarrow> nat \<Rightarrow> nat \<Rightarrow> 'a list" where
  "ring_list used xs p c = map (\<lambda>j. xs ! ((c + j) mod length xs)) [0..<ring_occ used xs p c]"

definition ring_ok :: "('a \<Rightarrow> bool) \<Rightarrow> 'a list \<Rightarrow> nat \<Rightarrow> nat \<Rightarrow> bool" where
  "ring_ok used xs p c \<longleftrightarrow>
     p < length xs \<and> c < length xs \<and>
     (\<forall>j < length xs. used (xs ! ((c + j) mod length xs)) \<longleftrightarrow> j < ring_occ used xs p c)"

lemma ring_next_mod: "p < n \<Longrightarrow> ring_next n p = Suc p mod n"
  by (auto simp: ring_next_def mod_Suc)

lemma ring_next_less: "p < n \<Longrightarrow> ring_next n p < n"
  by (auto simp: ring_next_def)

lemma ring_occ_le: "p < length xs \<Longrightarrow> c < length xs \<Longrightarrow> ring_occ used xs p c \<le> length xs"
  by (auto simp: ring_occ_def)

lemma ring_offset: "c < n \<Longrightarrow> j < n \<Longrightarrow> (c + j) mod n = (if c + j < n then c + j else c + j - n)"
  for c j n :: nat
  by (simp add: mod_if)

lemma ring_occ_prod:
  assumes "p < length xs" "c < length xs"
  shows "(c + ring_occ used xs p c) mod length xs = p"
  using assms by (auto simp: ring_occ_def ring_offset mod_if)

lemma ring_offset_inj:
  "c < n \<Longrightarrow> i < n \<Longrightarrow> j < n \<Longrightarrow> (c + i) mod n = (c + j) mod n \<longleftrightarrow> i = j"
  for c i j n :: nat
  by (auto simp: ring_offset split: if_splits)

lemma ring_offset_neq: "c < n \<Longrightarrow> 0 < j \<Longrightarrow> j < n \<Longrightarrow> (c + j) mod n \<noteq> c" for c j n :: nat
  by (auto simp: ring_offset)

lemma ring_okD:
  assumes "ring_ok used xs p c"
  shows "p < length xs" "c < length xs"
    "j < length xs \<Longrightarrow> used (xs ! ((c + j) mod length xs)) \<longleftrightarrow> j < ring_occ used xs p c"
  using assms by (auto simp: ring_ok_def)

lemma ring_ok_occ_le: "ring_ok used xs p c \<Longrightarrow> ring_occ used xs p c \<le> length xs"
  by (rule ring_occ_le) (auto dest: ring_okD(1,2))

lemma ring_front_used: "ring_ok used xs p c \<Longrightarrow> 0 < ring_occ used xs p c \<longleftrightarrow> used (xs ! c)"
  using ring_okD(2) [of used xs p c] ring_okD(3) [of used xs p c 0] by fastforce

lemma length_ring_list [simp]: "length (ring_list used xs p c) = ring_occ used xs p c"
  by (simp add: ring_list_def)

text \<open>Storing in the producer's slot and moving the producer appends to the list.\<close>

lemma ring_enq_occ:
  assumes ok: "ring_ok used xs p c" and room: "ring_occ used xs p c < length xs" and x: "used x"
  shows "ring_occ used (xs[p := x]) (ring_next (length xs) p) c = Suc (ring_occ used xs p c)"
proof -
  note b = ring_okD(1,2) [OF ok]
  have "0 < ring_occ used xs p c" if "p \<noteq> c" using b that by (auto simp: ring_occ_def)
  then have c: "used (xs ! c)" if "p \<noteq> c" using ring_front_used [OF ok] that by simp
  show ?thesis
  proof (cases "p = c")
    case True
    then have "\<not> used (xs ! c)" using room by (auto simp: ring_occ_def)
    then show ?thesis using True b x by (auto simp: ring_occ_def ring_next_def)
  next
    case False
    then show ?thesis using b c by (auto simp: ring_occ_def ring_next_def)
  qed
qed

lemma ring_enq_ok:
  assumes ok: "ring_ok used xs p c" and room: "ring_occ used xs p c < length xs" and x: "used x"
  shows "ring_ok used (xs[p := x]) (ring_next (length xs) p) c"
proof -
  note b = ring_okD(1,2) [OF ok]
  have p: "(c + ring_occ used xs p c) mod length xs = p" by (rule ring_occ_prod [OF b])
  have "used (xs[p := x] ! ((c + j) mod length xs)) \<longleftrightarrow> j < Suc (ring_occ used xs p c)"
    if j: "j < length xs" for j
  proof (cases "j = ring_occ used xs p c")
    case True
    then show ?thesis using p x b by simp
  next
    case False
    then have "(c + j) mod length xs \<noteq> p" using ring_offset_inj [OF b(2) j room] p by simp
    then show ?thesis using ring_okD(3) [OF ok j] False by (simp add: less_Suc_eq)
  qed
  then show ?thesis
    using b ring_enq_occ [OF ok room x] by (simp add: ring_ok_def ring_next_less)
qed

lemma ring_enq_list:
  assumes ok: "ring_ok used xs p c" and room: "ring_occ used xs p c < length xs" and x: "used x"
  shows "ring_list used (xs[p := x]) (ring_next (length xs) p) c = ring_list used xs p c @ [x]"
proof -
  note b = ring_okD(1,2) [OF ok]
  have p: "(c + ring_occ used xs p c) mod length xs = p" by (rule ring_occ_prod [OF b])
  have "p \<noteq> (c + j) mod length xs" if "j < ring_occ used xs p c" for j
    using ring_offset_inj [OF b(2) _ room, of j] that room p by auto
  then show ?thesis using p b(1)
    by (simp add: ring_list_def ring_enq_occ [OF assms])
qed

text \<open>Clearing the consumer's slot and moving the consumer drops the first element.\<close>

lemma ring_deq_occ:
  assumes ok: "ring_ok used xs p c" and some: "0 < ring_occ used xs p c" and y: "\<not> used y"
  shows "Suc (ring_occ used (xs[c := y]) p (ring_next (length xs) c)) = ring_occ used xs p c"
proof -
  note b = ring_okD(1,2) [OF ok]
  let ?c = "ring_next (length xs) c"
  have nu: "\<not> used (xs[c := y] ! p)" if "p = ?c"
  proof (cases "length xs = 1")
    case True
    then show ?thesis using b y by auto
  next
    case False
    then have n1: "1 < length xs" using b by linarith
    then have pc: "p \<noteq> c" using that by (auto simp: ring_next_def split: if_splits)
    then have "ring_occ used xs p c = 1" using that b n1
      by (auto simp: ring_occ_def ring_next_def split: if_splits)
    moreover have "(c + 1) mod length xs = p" using that ring_next_mod [OF b(2)] by simp
    ultimately show ?thesis using ring_okD(3) [OF ok n1] pc by simp
  qed
  show ?thesis
  proof (cases "p = ?c")
    case True
    then have "ring_occ used xs p c = 1" using some b nu
      by (auto simp: ring_occ_def ring_next_def split: if_splits)
    then show ?thesis using nu True by (simp add: ring_occ_def)
  next
    case False
    then show ?thesis using some b by (auto simp: ring_occ_def ring_next_def split: if_splits)
  qed
qed

lemma ring_deq_offset:
  assumes "c < n"
  shows "(ring_next n c + j) mod n = (c + Suc j) mod n"
  using assms by (simp add: ring_next_mod mod_add_left_eq)

lemma ring_deq_ok:
  assumes ok: "ring_ok used xs p c" and some: "0 < ring_occ used xs p c" and y: "\<not> used y"
  shows "ring_ok used (xs[c := y]) p (ring_next (length xs) c)"
proof -
  note b = ring_okD(1,2) [OF ok]
  let ?o = "ring_occ used (xs[c := y]) p (ring_next (length xs) c)"
  have o: "ring_occ used xs p c = Suc ?o" using ring_deq_occ [OF assms] by simp
  have o_le: "Suc ?o \<le> length xs" using ring_occ_le [OF b, of used] o by simp
  have "used (xs[c := y] ! ((ring_next (length xs) c + j) mod length xs)) \<longleftrightarrow> j < ?o"
    if j: "j < length xs" for j
  proof (cases "Suc j = length xs")
    case True
    then have "(c + Suc j) mod length xs = c" using b by simp
    then show ?thesis using True y b o_le by (simp add: ring_deq_offset del: add_Suc_right)
  next
    case False
    then have sj: "Suc j < length xs" using j by simp
    then have "(c + Suc j) mod length xs \<noteq> c"
      by (intro ring_offset_neq) (use b(2) in auto)
    then show ?thesis using ring_okD(3) [OF ok sj] o b
      by (simp add: ring_deq_offset del: add_Suc_right)
  qed
  then show ?thesis using b by (simp add: ring_ok_def ring_next_less)
qed

lemma ring_deq_list:
  assumes ok: "ring_ok used xs p c" and some: "0 < ring_occ used xs p c" and y: "\<not> used y"
  shows "ring_list used xs p c = xs ! c # ring_list used (xs[c := y]) p (ring_next (length xs) c)"
proof -
  note b = ring_okD(1,2) [OF ok]
  let ?o = "ring_occ used (xs[c := y]) p (ring_next (length xs) c)"
  have o: "ring_occ used xs p c = Suc ?o" using ring_deq_occ [OF assms] by simp
  have o_le: "Suc ?o \<le> length xs" using ring_occ_le [OF b, of used] o by simp
  have "c \<noteq> (c + Suc j) mod length xs" if "j < ?o" for j
    by (rule ring_offset_neq [symmetric]) (use that o_le b(2) in auto)
  then have "map (\<lambda>j. xs ! ((c + Suc j) mod length xs)) [0..<?o] =
      ring_list used (xs[c := y]) p (ring_next (length xs) c)"
    using b by (auto simp: ring_list_def ring_deq_offset simp del: add_Suc_right)
  moreover have "ring_list used xs p c =
      xs ! c # map (\<lambda>j. xs ! ((c + Suc j) mod length xs)) [0..<?o]"
    unfolding ring_list_def o using b
    by (simp add: upt_conv_Cons map_Suc_upt [symmetric] comp_def del: upt_Suc add_Suc_right)
  ultimately show ?thesis by simp
qed

text \<open>Storing something unused in the producer's slot of a ring with room changes nothing.\<close>

lemma ring_store_unused:
  assumes ok: "ring_ok used xs p c" and room: "ring_occ used xs p c < length xs" and y: "\<not> used y"
  shows "ring_ok used (xs[p := y]) p c \<and> ring_list used (xs[p := y]) p c = ring_list used xs p c"
proof -
  note b = ring_okD(1,2) [OF ok]
  have p: "(c + ring_occ used xs p c) mod length xs = p" by (rule ring_occ_prod [OF b])
  then have np: "\<not> used (xs ! p)" using ring_okD(3) [OF ok room] by simp
  have occ: "ring_occ used (xs[p := y]) p c = ring_occ used xs p c"
    using np y b by (auto simp: ring_occ_def)
  have "used (xs[p := y] ! ((c + j) mod length xs)) = used (xs ! ((c + j) mod length xs))" for j
    using np y b by (auto simp: nth_list_update)
  moreover have "p \<noteq> (c + j) mod length xs" if "j < ring_occ used xs p c" for j
    using ring_offset_inj [OF b(2) _ room, of j] that room p by auto
  ultimately show ?thesis using ok by (simp add: ring_ok_def ring_list_def occ)
qed

end
