(* ===== verification/Lbuf_Ring.thy ===== *)
theory Lbuf_Ring
  imports Kernel Fifo
begin

text \<open>
  The state of \<open>sw/driver/nf10_lbuf.c\<close> (\<open>struct large_buffer\<close> and the statics beside it, with the
  fields of \<open>struct nf10_adapter\<close> it uses) and its two descriptor rings: pointers, full and empty
  tests, storing and clearing a descriptor. The rings are shown to be bounded queues.
\<close>

section \<open>State\<close>

text \<open>\<open>struct desc\<close>; its list head is the position in the queue or ring that holds it.\<close>

record desc =
  kern_addr :: u64
  dma_addr :: u64
  skb :: u64
  desc_size :: u32
  desc_offset :: u32

text \<open>
  A descriptor in a slab object of its own (\<open>struct pending_gc_desc\<close>, and the copies made by
  \<open>alloc_desc\<close>): the object's address and the descriptor.
\<close>

type_synonym pdesc = "u64 \<times> desc"

text \<open>
  The fields of \<open>struct sk_buff\<close> the driver reads: the address of the data, its length, the
  bytes before it (\<open>skb_headroom\<close>), whether the buffer is shared, and the dwords the driver has
  pushed in front of the frame.
\<close>

record sk_buff =
  skb_data :: u64
  skb_len :: u32
  skb_headroom :: nat
  skb_shared :: bool
  skb_hdr :: "u32 list"

text \<open>Build options: \<open>CONFIG_LBUF_COHERENT\<close> and \<open>CONFIG_XEN_NF_BACKEND\<close>.\<close>

record config =
  coherent :: bool
  xen :: bool

text \<open>
  \<open>completion\<close> and \<open>last_gc\<close> are the content of the completion buffer, which the card writes;
  \<open>lbuf_mem\<close> is the content of the large buffers by kernel address; \<open>skbs\<close> the socket buffers the
  driver holds a pointer to; \<open>pending_gc\<close> is the list at \<open>pending_gc_head\<close>; \<open>rx_buf_head\<close> and
  \<open>xenvif_up\<close> are the Xen back end's queue and whether \<open>xenvif_connected\<close>; \<open>user_waiting\<close> is
  \<open>waitqueue_active\<close>; \<open>hist\<close> is the history of kernel calls and register writes.
\<close>

record nic =
  descs :: "dir \<Rightarrow> desc list"
  prod_ptr :: "dir \<Rightarrow> nat"
  cons_ptr :: "dir \<Rightarrow> nat"
  tx_completion_kern_addr :: u64
  tx_completion_dma_addr :: u64
  completion :: "u32 list"
  last_gc :: u64
  pending_gc :: "pdesc list"
  debug_count :: u64
  lbuf_mem :: "u64 \<Rightarrow> lbuf"
  skbs :: "u64 \<rightharpoonup> sk_buff"
  rx_packets :: u64
  tx_packets :: u64
  nr_user_mmap :: u32
  user_waiting :: bool
  rx_buf_head :: "pdesc list"
  xenvif_up :: bool
  hist :: history

definition emit :: "kev \<Rightarrow> nic \<Rightarrow> nic" where
  "emit e s = s\<lparr>hist := hist s @ [e]\<rparr>"

lemma emit_fields [simp]:
  "descs (emit e s) = descs s" "prod_ptr (emit e s) = prod_ptr s" "cons_ptr (emit e s) = cons_ptr s"
  "tx_completion_kern_addr (emit e s) = tx_completion_kern_addr s"
  "tx_completion_dma_addr (emit e s) = tx_completion_dma_addr s"
  "completion (emit e s) = completion s" "last_gc (emit e s) = last_gc s"
  "pending_gc (emit e s) = pending_gc s" "debug_count (emit e s) = debug_count s"
  "lbuf_mem (emit e s) = lbuf_mem s" "skbs (emit e s) = skbs s"
  "rx_packets (emit e s) = rx_packets s" "tx_packets (emit e s) = tx_packets s"
  "nr_user_mmap (emit e s) = nr_user_mmap s" "user_waiting (emit e s) = user_waiting s"
  "rx_buf_head (emit e s) = rx_buf_head s" "xenvif_up (emit e s) = xenvif_up s"
  "hist (emit e s) = hist s @ [e]"
  by (simp_all add: emit_def)

section \<open>Pointers and descriptors\<close>

definition NR_LBUF :: nat where "NR_LBUF = 2"

lemma NR_LBUF_pos [simp]: "0 < NR_LBUF"
  by (simp add: NR_LBUF_def)

text \<open>The module's state when it is loaded: static storage, all zero.\<close>

definition desc_zero :: desc where
  "desc_zero = \<lparr>kern_addr = 0, dma_addr = 0, skb = 0, desc_size = 0, desc_offset = 0\<rparr>"

definition nic_init :: nic where
  "nic_init = \<lparr>descs = (\<lambda>_. replicate NR_LBUF desc_zero), prod_ptr = (\<lambda>_. 0), cons_ptr = (\<lambda>_. 0),
     tx_completion_kern_addr = 0, tx_completion_dma_addr = 0, completion = replicate NR_LBUF 0,
     last_gc = 0, pending_gc = [], debug_count = 0, lbuf_mem = (\<lambda>_ _. 0), skbs = Map.empty,
     rx_packets = 0, tx_packets = 0, nr_user_mmap = 0, user_waiting = False, rx_buf_head = [],
     xenvif_up = False, hist = []\<rparr>"

lemma nic_init_fields [simp]:
  "descs nic_init rx = replicate NR_LBUF desc_zero" "prod_ptr nic_init rx = 0"
  "cons_ptr nic_init rx = 0" "hist nic_init = []" "pending_gc nic_init = []"
  "last_gc nic_init = 0" "completion nic_init = replicate NR_LBUF 0" "nr_user_mmap nic_init = 0"
  "debug_count nic_init = 0" "skbs nic_init = Map.empty" "rx_packets nic_init = 0"
  "xenvif_up nic_init = False" "rx_buf_head nic_init = []" "tx_packets nic_init = 0"
  by (simp_all add: nic_init_def)

definition inc_pointer :: "nat \<Rightarrow> nat" where
  "inc_pointer p = (if p = NR_LBUF - 1 then 0 else p + 1)"

definition inc_prod :: "dir \<Rightarrow> nic \<Rightarrow> nic" where
  "inc_prod rx s = s\<lparr>prod_ptr := (prod_ptr s)(rx := inc_pointer (prod_ptr s rx))\<rparr>"

definition inc_cons :: "dir \<Rightarrow> nic \<Rightarrow> nic" where
  "inc_cons rx s = s\<lparr>cons_ptr := (cons_ptr s)(rx := inc_pointer (cons_ptr s rx))\<rparr>"

definition get_desc :: "dir \<Rightarrow> nat \<Rightarrow> nic \<Rightarrow> fault + desc" where
  "get_desc rx pointer s =
     (if pointer < length (descs s rx) then Inr (descs s rx ! pointer) else Inl (OutOfBounds pointer))"

definition set_desc :: "dir \<Rightarrow> nat \<Rightarrow> desc \<Rightarrow> nic \<Rightarrow> nic" where
  "set_desc rx pointer d s = s\<lparr>descs := (descs s)(rx := (descs s rx)[pointer := d])\<rparr>"

definition prod_desc :: "dir \<Rightarrow> nic \<Rightarrow> desc" where
  "prod_desc rx s = descs s rx ! prod_ptr s rx"

definition cons_desc :: "dir \<Rightarrow> nic \<Rightarrow> desc" where
  "cons_desc rx s = descs s rx ! cons_ptr s rx"

definition clean_desc :: "desc \<Rightarrow> desc" where
  "clean_desc d = d\<lparr>kern_addr := 0\<rparr>"

definition desc_full :: "dir \<Rightarrow> nic \<Rightarrow> bool" where
  "desc_full rx s \<longleftrightarrow> prod_ptr s rx = cons_ptr s rx \<and> kern_addr (cons_desc rx s) \<noteq> 0"

definition desc_empty :: "dir \<Rightarrow> nic \<Rightarrow> bool" where
  "desc_empty rx s \<longleftrightarrow> prod_ptr s rx = cons_ptr s rx \<and> kern_addr (cons_desc rx s) = 0"

definition nf10_writel :: "nat \<Rightarrow> u32 \<Rightarrow> nic \<Rightarrow> nic" where
  "nf10_writel off val = emit (Writel off val)"

definition nf10_writeq :: "nat \<Rightarrow> u64 \<Rightarrow> nic \<Rightarrow> nic" where
  "nf10_writeq off val = emit (Writeq off val)"

section \<open>The rings as bounded queues\<close>

text \<open>
  A descriptor is in use when its kernel address is not null, as the comment in \<open>desc_full\<close> says.
  \<open>ring_descs\<close> is the abstract queue: the descriptors in use from the consumer's on.
\<close>

definition in_use :: "desc \<Rightarrow> bool" where
  "in_use d \<longleftrightarrow> kern_addr d \<noteq> 0"

definition ring_descs :: "dir \<Rightarrow> nic \<Rightarrow> desc list" where
  "ring_descs rx s = ring_list in_use (descs s rx) (prod_ptr s rx) (cons_ptr s rx)"

definition ring_wf :: "dir \<Rightarrow> nic \<Rightarrow> bool" where
  "ring_wf rx s \<longleftrightarrow>
     length (descs s rx) = NR_LBUF \<and> ring_ok in_use (descs s rx) (prod_ptr s rx) (cons_ptr s rx)"

text \<open>
  The two updates the code makes of a ring: fill the producer's descriptor and move the producer
  (\<open>lbuf_xmit\<close>, the refill of \<open>process_rx_irq\<close>), and clear the consumer's descriptor and move the
  consumer (\<open>check_tx_completion\<close>, \<open>consume_rx_desc\<close>).
\<close>

definition ring_fill :: "dir \<Rightarrow> desc \<Rightarrow> nic \<Rightarrow> nic" where
  "ring_fill rx d s = inc_prod rx (set_desc rx (prod_ptr s rx) d s)"

definition ring_clear :: "dir \<Rightarrow> nic \<Rightarrow> nic" where
  "ring_clear rx s = inc_cons rx (set_desc rx (cons_ptr s rx) (clean_desc (cons_desc rx s)) s)"

lemma inc_pointer_ring: "inc_pointer p = ring_next NR_LBUF p"
  by (simp add: inc_pointer_def ring_next_def)

lemma not_in_use_clean [simp]: "\<not> in_use (clean_desc d)"
  by (simp add: in_use_def clean_desc_def)

lemma length_ring_descs: "length (ring_descs rx s) = ring_occ in_use (descs s rx) (prod_ptr s rx) (cons_ptr s rx)"
  by (simp add: ring_descs_def)

lemma desc_full_iff: "ring_wf rx s \<Longrightarrow> desc_full rx s \<longleftrightarrow> length (ring_descs rx s) = NR_LBUF"
  by (auto simp: ring_wf_def desc_full_def cons_desc_def length_ring_descs ring_occ_def in_use_def
      dest: ring_okD(1,2))

lemma desc_empty_iff: "ring_wf rx s \<Longrightarrow> desc_empty rx s \<longleftrightarrow> ring_descs rx s = []"
  unfolding length_0_conv [symmetric] length_ring_descs
  by (auto simp: ring_wf_def desc_empty_def cons_desc_def ring_occ_def in_use_def
      dest: ring_okD(1,2))

lemma ring_descs_le: "ring_wf rx s \<Longrightarrow> length (ring_descs rx s) \<le> NR_LBUF"
  using ring_ok_occ_le [of in_use "descs s rx" "prod_ptr s rx" "cons_ptr s rx"]
  by (auto simp: ring_wf_def length_ring_descs)

interpretation ring: bounded_fifo "ring_descs rx" "ring_wf rx" "desc_empty rx"
  "\<lambda>s. \<not> desc_full rx s" in_use "ring_fill rx" "cons_desc rx" "ring_clear rx" NR_LBUF for rx
proof
  fix s d
  assume wf: "ring_wf rx s"
  then have len: "length (descs s rx) = NR_LBUF"
    and ok: "ring_ok in_use (descs s rx) (prod_ptr s rx) (cons_ptr s rx)"
    by (auto simp: ring_wf_def)
  show "desc_empty rx s = (ring_descs rx s = [])" by (rule desc_empty_iff [OF wf])
  show "(\<not> desc_full rx s) = (length (ring_descs rx s) < NR_LBUF)"
    using desc_full_iff [OF wf] ring_descs_le [OF wf] by auto
  show "length (ring_descs rx s) \<le> NR_LBUF" by (rule ring_descs_le [OF wf])
  {
    assume room: "\<not> desc_full rx s" and d: "in_use d"
    have occ: "ring_occ in_use (descs s rx) (prod_ptr s rx) (cons_ptr s rx) < length (descs s rx)"
      using room desc_full_iff [OF wf] ring_descs_le [OF wf] by (simp add: length_ring_descs len)
    show "ring_wf rx (ring_fill rx d s)"
      using ring_enq_ok [OF ok occ d] len
      by (simp add: ring_wf_def ring_fill_def inc_prod_def set_desc_def inc_pointer_ring)
    show "ring_descs rx (ring_fill rx d s) = ring_descs rx s @ [d]"
      using ring_enq_list [OF ok occ d] len
      by (simp add: ring_descs_def ring_fill_def inc_prod_def set_desc_def inc_pointer_ring)
  }
  assume "ring_descs rx s \<noteq> []"
  then have occ: "0 < ring_occ in_use (descs s rx) (prod_ptr s rx) (cons_ptr s rx)"
    by (simp add: length_ring_descs [symmetric])
  note y = not_in_use_clean [of "cons_desc rx s"]
  show "ring_wf rx (ring_clear rx s)"
    using ring_deq_ok [OF ok occ y] len
    by (simp add: ring_wf_def ring_clear_def inc_cons_def set_desc_def inc_pointer_ring)
  show "ring_descs rx s = cons_desc rx s # ring_descs rx (ring_clear rx s)"
    using ring_deq_list [OF ok occ y] len
    by (simp add: ring_descs_def ring_clear_def inc_cons_def set_desc_def inc_pointer_ring
        cons_desc_def)
qed simp

text \<open>Consequences the clients of the rings share.\<close>

lemma ring_wf_bounds:
  assumes "ring_wf rx s"
  shows "prod_ptr s rx < NR_LBUF" "cons_ptr s rx < NR_LBUF" "length (descs s rx) = NR_LBUF"
  using assms by (auto simp: ring_wf_def dest: ring_okD(1,2))

lemma ring_fields_cong:
  assumes "descs s' rx = descs s rx" "prod_ptr s' rx = prod_ptr s rx" "cons_ptr s' rx = cons_ptr s rx"
  shows "ring_descs rx s' = ring_descs rx s" "ring_wf rx s' = ring_wf rx s"
    "desc_empty rx s' = desc_empty rx s" "desc_full rx s' = desc_full rx s"
  using assms
  by (simp_all add: ring_descs_def ring_wf_def desc_empty_def desc_full_def cons_desc_def)

lemma not_full_room:
  assumes "ring_wf rx s" "\<not> desc_full rx s"
  shows "ring_ok in_use (descs s rx) (prod_ptr s rx) (cons_ptr s rx)"
    "ring_occ in_use (descs s rx) (prod_ptr s rx) (cons_ptr s rx) < length (descs s rx)"
    "\<not> in_use (prod_desc rx s)"
proof -
  show ok: "ring_ok in_use (descs s rx) (prod_ptr s rx) (cons_ptr s rx)"
    using assms(1) by (simp add: ring_wf_def)
  show room: "ring_occ in_use (descs s rx) (prod_ptr s rx) (cons_ptr s rx) < length (descs s rx)"
    using assms desc_full_iff [OF assms(1)] ring_descs_le [OF assms(1)]
    by (simp add: length_ring_descs ring_wf_def)
  show "\<not> in_use (prod_desc rx s)"
    using ring_okD(3) [OF ok room] ring_occ_prod [OF ring_okD(1,2) [OF ok], of in_use]
    by (simp add: prod_desc_def)
qed

end
