(* ===== verification/Lbuf_Buffers.thy ===== *)
theory Lbuf_Buffers
  imports Lbuf_Ring "HOL-Library.Multiset"
begin

text \<open>
  Allocation, mapping and release of the large buffers and of the TX completion buffer, handing a
  buffer to the card (\<open>nf10_lbuf_prepare_rx\<close>), and the \<open>init_buffers\<close> and \<open>free_buffers\<close>
  operations of \<open>sw/driver/nf10_lbuf.c\<close>. The lemmas account for memory and DMA mappings:
  \<open>bufs_owned\<close> says that a list of descriptors holds distinct live buffers beside given others.
\<close>

section \<open>Registers and sizes\<close>

definition RX_LBUF_ADDR_BASE :: nat where "RX_LBUF_ADDR_BASE = 0x40"
definition RX_LBUF_STAT_BASE :: nat where "RX_LBUF_STAT_BASE = 0x60"
definition RX_READY :: u32 where "RX_READY = 1"
definition TX_COMPLETION_ADDR :: nat where "TX_COMPLETION_ADDR = 0xB0"
definition TX_COMPLETION_SIZE :: nat where "TX_COMPLETION_SIZE = push_bit 2 NR_LBUF + 8"

definition rx_addr_off :: "nat \<Rightarrow> nat" where
  "rx_addr_off i = RX_LBUF_ADDR_BASE + push_bit 3 i"

definition rx_stat_off :: "nat \<Rightarrow> nat" where
  "rx_stat_off i = RX_LBUF_STAT_BASE + push_bit 2 i"

lemma rx_addr_off_inj [simp]: "rx_addr_off i = rx_addr_off j \<longleftrightarrow> i = j"
  by (simp add: rx_addr_off_def push_bit_eq_mult)

section \<open>One buffer\<close>

text \<open>\<open>alloc_lbuf\<close> returns the address it stored, the descriptor and the state.\<close>

definition alloc_lbuf :: "config \<Rightarrow> kapi \<Rightarrow> desc \<Rightarrow> nic \<Rightarrow> u64 \<times> desc \<times> nic" where
  "alloc_lbuf cfg k d s =
     (let (d1, s1) =
        (if \<not> coherent cfg then
           (let page = k_alloc_pages k (hist s)
            in (d\<lparr>kern_addr := page\<rparr>, emit (AllocPages page) s))
         else
           (let (a, dma) = k_alloc_coherent k (hist s)
            in (d\<lparr>kern_addr := a, dma_addr := dma\<rparr>, emit (AllocCoherent LBUF_SIZE a dma) s)));
        d2 = d1\<lparr>desc_size := of_nat LBUF_SIZE, desc_offset := 0, skb := 0\<rparr>
      in (kern_addr d2, d2, s1))"

definition free_lbuf :: "config \<Rightarrow> desc \<Rightarrow> nic \<Rightarrow> nic" where
  "free_lbuf cfg d s =
     (if \<not> coherent cfg then emit (FreePages (kern_addr d)) s
      else emit (FreeCoherent LBUF_SIZE (kern_addr d) (dma_addr d)) s)"

definition unmap_and_free_lbuf :: "config \<Rightarrow> dir \<Rightarrow> desc \<Rightarrow> nic \<Rightarrow> nic" where
  "unmap_and_free_lbuf cfg rx d s =
     (if kern_addr d = 0 then s
      else let s1 = (if \<not> coherent cfg then emit (UnmapSingle (dma_addr d) LBUF_SIZE rx) s else s)
           in free_lbuf cfg d s1)"

definition alloc_and_map_lbuf ::
  "config \<Rightarrow> kapi \<Rightarrow> dir \<Rightarrow> desc \<Rightarrow> nic \<Rightarrow> int \<times> desc \<times> nic" where
  "alloc_and_map_lbuf cfg k rx d s =
     (let (a, d1, s1) = alloc_lbuf cfg k d s
      in if a = 0 then (- ENOMEM, d1, s1)
         else if \<not> coherent cfg then
           (let dma = k_map_single k (hist s1) (kern_addr d1);
                s2 = emit (MapSingle (kern_addr d1) LBUF_SIZE rx dma) s1;
                d2 = d1\<lparr>dma_addr := dma\<rparr>
            in if k_mapping_error k dma then (- EIO, d2, free_lbuf cfg d2 s2)
               else (0, d2, s2))
         else (0, d1, s1))"

section \<open>Handing a buffer to the card\<close>

text \<open>
  The index is an \<open>unsigned long\<close> that also comes from user space through \<open>ioctl\<close>; the code does
  not check it, and an index past the ring reads outside the descriptor array.
\<close>

definition nf10_lbuf_prepare_rx :: "config \<Rightarrow> u64 \<Rightarrow> nic \<Rightarrow> fault + nic" where
  "nf10_lbuf_prepare_rx cfg idx s =
     rbind (get_desc RX (unat idx) s) (\<lambda>d.
       let s1 = (if \<not> coherent cfg then emit (SyncForDevice (dma_addr d)) s else s);
           s2 = nf10_writeq (rx_addr_off (unat idx)) (dma_addr d) s1;
           s3 = nf10_writel (rx_stat_off (unat idx)) RX_READY s2
       in Inr (inc_prod RX s3))"

fun prepare_rx_from :: "config \<Rightarrow> nat \<Rightarrow> nat \<Rightarrow> nic \<Rightarrow> fault + nic" where
  "prepare_rx_from cfg i 0 s = Inr s"
| "prepare_rx_from cfg i (Suc n) s =
     rbind (nf10_lbuf_prepare_rx cfg (of_nat i) s) (prepare_rx_from cfg (i + 1) n)"

definition nf10_lbuf_prepare_rx_all :: "config \<Rightarrow> nic \<Rightarrow> fault + nic" where
  "nf10_lbuf_prepare_rx_all cfg = prepare_rx_from cfg 0 NR_LBUF"

section \<open>All buffers of a ring\<close>

text \<open>The two loops of \<open>__nf10_lbuf_init_buffers\<close>: allocate upwards, release downwards.\<close>

function init_alloc_from ::
  "config \<Rightarrow> kapi \<Rightarrow> dir \<Rightarrow> nat \<Rightarrow> nic \<Rightarrow> int \<times> nat \<times> nic" where
  "init_alloc_from cfg k rx i s =
     (if i < NR_LBUF then
        (let (err, d, s1) = alloc_and_map_lbuf cfg k rx (descs s rx ! i) s;
             s2 = set_desc rx i d s1
         in if err \<noteq> 0 then (err, i, s2) else init_alloc_from cfg k rx (i + 1) s2)
      else (0, i, s))"
  by pat_completeness auto
termination
  by (relation "measure (\<lambda>(cfg, k, rx, i, s). NR_LBUF - i)") auto

declare init_alloc_from.simps [simp del]

fun unmap_below :: "config \<Rightarrow> dir \<Rightarrow> nat \<Rightarrow> nic \<Rightarrow> nic" where
  "unmap_below cfg rx 0 s = s"
| "unmap_below cfg rx (Suc j) s =
     unmap_below cfg rx j (unmap_and_free_lbuf cfg rx (descs s rx ! j) s)"

definition init_buffers_ring :: "config \<Rightarrow> kapi \<Rightarrow> dir \<Rightarrow> nic \<Rightarrow> fault + int \<times> nic" where
  "init_buffers_ring cfg k rx s =
     (let (err, i, s1) = init_alloc_from cfg k rx 0 s
      in if err \<noteq> 0 then Inr (err, unmap_below cfg rx i s1)
         else if rx = RX then
           rbind (nf10_lbuf_prepare_rx_all cfg s1) (\<lambda>s2. Inr (err, s2))
         else Inr (err, s1))"

fun free_buffers_from :: "config \<Rightarrow> dir \<Rightarrow> nat \<Rightarrow> nat \<Rightarrow> nic \<Rightarrow> nic" where
  "free_buffers_from cfg rx i 0 s = s"
| "free_buffers_from cfg rx i (Suc n) s =
     free_buffers_from cfg rx (i + 1) n (unmap_and_free_lbuf cfg rx (descs s rx ! i) s)"

definition free_buffers_ring :: "config \<Rightarrow> dir \<Rightarrow> nic \<Rightarrow> nic" where
  "free_buffers_ring cfg rx = free_buffers_from cfg rx 0 NR_LBUF"

section \<open>The TX completion buffer, and the two operations\<close>

text \<open>\<open>pci_alloc_consistent\<close> returns zeroed memory, as the comment in \<open>alloc_lbuf\<close> notes.\<close>

definition init_tx_completion_buffer :: "kapi \<Rightarrow> nic \<Rightarrow> int \<times> nic" where
  "init_tx_completion_buffer k s =
     (let (a, dma) = k_alloc_coherent k (hist s);
          s1 = emit (AllocCoherent TX_COMPLETION_SIZE a dma)
                 (s\<lparr>tx_completion_kern_addr := a, tx_completion_dma_addr := dma\<rparr>)
      in if a = 0 then (- ENOMEM, s1)
         else (0, nf10_writeq TX_COMPLETION_ADDR dma
                    (s1\<lparr>completion := replicate NR_LBUF 0, last_gc := 0\<rparr>)))"

definition free_tx_completion_buffer :: "nic \<Rightarrow> nic" where
  "free_tx_completion_buffer s =
     emit (FreeCoherent TX_COMPLETION_SIZE (tx_completion_kern_addr s) (tx_completion_dma_addr s)) s"

definition nf10_lbuf_init_buffers :: "config \<Rightarrow> kapi \<Rightarrow> nic \<Rightarrow> fault + int \<times> nic" where
  "nf10_lbuf_init_buffers cfg k s =
     (let s0 = s\<lparr>prod_ptr := (\<lambda>_. 0), cons_ptr := (\<lambda>_. 0)\<rparr>;
          (err, s1) = init_tx_completion_buffer k s0
      in if err \<noteq> 0 then Inr (err, s1)
         else rbind (init_buffers_ring cfg k RX s1) (\<lambda>(err, s2).
           if err \<noteq> 0 then Inr (err, free_tx_completion_buffer s2) else Inr (err, s2)))"

definition nf10_lbuf_free_buffers :: "config \<Rightarrow> nic \<Rightarrow> nic" where
  "nf10_lbuf_free_buffers cfg s = free_buffers_ring cfg RX (free_tx_completion_buffer s)"


section \<open>Ownership of buffers\<close>

text \<open>
  The descriptors \<open>ds\<close> hold distinct live buffers with distinct live DMA addresses, besides them
  exactly the memory \<open>M\<close> and the DMA addresses \<open>D\<close> are live, and every release so far was of
  something live.
\<close>

definition bufs_owned :: "kapi \<Rightarrow> u64 set \<Rightarrow> u64 set \<Rightarrow> history \<Rightarrow> desc list \<Rightarrow> bool" where
  "bufs_owned k M D h ds \<longleftrightarrow>
     distinct (map kern_addr ds) \<and> distinct (map dma_addr ds) \<and>
     live_mem h = M \<union> kern_addr ` set ds \<and> M \<inter> kern_addr ` set ds = {} \<and>
     live_dma k h = D \<union> dma_addr ` set ds \<and> D \<inter> dma_addr ` set ds = {} \<and>
     frees_ok h \<and> unmaps_ok k h"

text \<open>Operations that touch nothing but the history.\<close>

definition hist_only :: "nic \<Rightarrow> nic \<Rightarrow> bool" where
  "hist_only s s' \<longleftrightarrow> (\<exists>h. s' = s\<lparr>hist := h\<rparr>)"

lemma hist_only_fields:
  "hist_only s s' \<Longrightarrow> descs s' = descs s" "hist_only s s' \<Longrightarrow> prod_ptr s' = prod_ptr s"
  "hist_only s s' \<Longrightarrow> cons_ptr s' = cons_ptr s" "hist_only s s' \<Longrightarrow> lbuf_mem s' = lbuf_mem s"
  "hist_only s s' \<Longrightarrow> completion s' = completion s" "hist_only s s' \<Longrightarrow> last_gc s' = last_gc s"
  "hist_only s s' \<Longrightarrow> pending_gc s' = pending_gc s" "hist_only s s' \<Longrightarrow> skbs s' = skbs s"
  "hist_only s s' \<Longrightarrow> rx_packets s' = rx_packets s"
  "hist_only s s' \<Longrightarrow> nr_user_mmap s' = nr_user_mmap s"
  "hist_only s s' \<Longrightarrow> xenvif_up s' = xenvif_up s" "hist_only s s' \<Longrightarrow> rx_buf_head s' = rx_buf_head s"
  "hist_only s s' \<Longrightarrow> user_waiting s' = user_waiting s"
  "hist_only s s' \<Longrightarrow> tx_completion_kern_addr s' = tx_completion_kern_addr s"
  "hist_only s s' \<Longrightarrow> tx_completion_dma_addr s' = tx_completion_dma_addr s"
  by (auto simp: hist_only_def)

lemma hist_only_refl [simp]: "hist_only s s"
  unfolding hist_only_def by (rule exI [of _ "hist s"]) simp

lemma hist_only_emit [simp]: "hist_only s t \<Longrightarrow> hist_only s (emit e t)"
  by (auto simp: hist_only_def emit_def)

lemma hist_only_trans: "hist_only s t \<Longrightarrow> hist_only t u \<Longrightarrow> hist_only s u"
  by (auto simp: hist_only_def)

lemma alloc_and_map_hist_only: "alloc_and_map_lbuf cfg k rx d s = (err, d', s') \<Longrightarrow> hist_only s s'"
  by (auto simp: alloc_and_map_lbuf_def alloc_lbuf_def free_lbuf_def Let_def
      split: if_splits prod.splits)

lemma unmap_and_free_hist_only [simp]: "hist_only s (unmap_and_free_lbuf cfg rx d s)"
  by (auto simp: unmap_and_free_lbuf_def free_lbuf_def Let_def)

text \<open>A successful allocation adds one owned buffer; a failed one leaves memory as it was.\<close>

lemma bufs_owned_add:
  assumes "bufs_owned k M D h ds" "kern_addr d \<notin> live_mem h" "dma_addr d \<notin> live_dma k h"
    and "live_mem h' = insert (kern_addr d) (live_mem h)"
    and "live_dma k h' = insert (dma_addr d) (live_dma k h)" "frees_ok h'" "unmaps_ok k h'"
  shows "bufs_owned k M D h' (ds @ [d])"
  using assms by (simp add: bufs_owned_def)

lemma alloc_and_map_pages_0:
  assumes "alloc_and_map_lbuf cfg k rx d s = (0, d', s')" "\<not> coherent cfg"
  shows "kern_addr d' = k_alloc_pages k (hist s) \<and> kern_addr d' \<noteq> 0 \<and>
    dma_addr d' = k_map_single k (hist s @ [AllocPages (kern_addr d')]) (kern_addr d') \<and>
    \<not> k_mapping_error k (dma_addr d') \<and>
    hist s' = hist s @ [AllocPages (kern_addr d'), MapSingle (kern_addr d') LBUF_SIZE rx (dma_addr d')]"
  using assms by (auto simp: alloc_and_map_lbuf_def alloc_lbuf_def Let_def errno_defs split: if_splits)

lemma alloc_and_map_coherent_0:
  assumes "alloc_and_map_lbuf cfg k rx d s = (0, d', s')" "coherent cfg"
  shows "(kern_addr d', dma_addr d') = k_alloc_coherent k (hist s) \<and> kern_addr d' \<noteq> 0 \<and>
    hist s' = hist s @ [AllocCoherent LBUF_SIZE (kern_addr d') (dma_addr d')]"
  using assms
  by (auto simp: alloc_and_map_lbuf_def alloc_lbuf_def Let_def errno_defs split: if_splits prod.splits)

lemma alloc_and_map_success:
  assumes k: "kernel_ok k" and own: "bufs_owned k M D (hist s) ds"
    and eq: "alloc_and_map_lbuf cfg k rx d s = (0, d', s')"
  shows "bufs_owned k M D (hist s') (ds @ [d']) \<and> kern_addr d' \<noteq> 0"
proof (cases "coherent cfg")
  case True
  note c = alloc_and_map_coherent_0 [OF eq True]
  have "fst (k_alloc_coherent k (hist s)) \<notin> live_mem (hist s)"
    and "fst (k_alloc_coherent k (hist s)) \<noteq> 0 \<longrightarrow>
       snd (k_alloc_coherent k (hist s)) \<notin> live_dma k (hist s)"
    using k by (auto simp: kernel_ok_def)
  moreover have "fst (k_alloc_coherent k (hist s)) = kern_addr d'"
    and "snd (k_alloc_coherent k (hist s)) = dma_addr d'"
    using c by (metis fst_conv, metis snd_conv)
  ultimately show ?thesis
    using c own by (intro conjI bufs_owned_add) (auto simp: hist_simps bufs_owned_def)
next
  case False
  note c = alloc_and_map_pages_0 [OF eq False]
  have m: "k_alloc_pages k (hist s) \<notin> live_mem (hist s)" using k by (simp add: kernel_ok_def)
  have "dma_addr d' \<notin> live_dma k (hist s @ [AllocPages (kern_addr d')])"
    using k c unfolding kernel_ok_def by metis
  then show ?thesis
    using c m own by (intro conjI bufs_owned_add) (auto simp: hist_simps bufs_owned_def)
qed

lemma alloc_and_map_failure:
  assumes own: "bufs_owned k M D (hist s) ds" and k: "kernel_ok k"
    and eq: "alloc_and_map_lbuf cfg k rx d s = (err, d', s')" and err: "err \<noteq> 0"
  shows "bufs_owned k M D (hist s') ds"
proof -
  from k have fresh: "k_alloc_pages k (hist s) \<notin> live_mem (hist s)"
    by (auto simp: kernel_ok_def)
  from eq own fresh err show ?thesis
    by (auto simp: alloc_and_map_lbuf_def alloc_lbuf_def free_lbuf_def bufs_owned_def Let_def
        hist_simps split: if_splits prod.splits)
qed

text \<open>Releasing an owned buffer removes exactly that buffer.\<close>

lemma bufs_owned_mset: "mset ds = mset es \<Longrightarrow> bufs_owned k M D h ds \<longleftrightarrow> bufs_owned k M D h es"
  using mset_eq_imp_distinct_iff [of "map kern_addr ds" "map kern_addr es"]
    mset_eq_imp_distinct_iff [of "map dma_addr ds" "map dma_addr es"] mset_eq_setD [of ds es]
  by (simp add: bufs_owned_def)

lemma unmap_and_free_owned:
  assumes "bufs_owned k M D (hist s) (d # ds)"
  shows "bufs_owned k M D (hist (unmap_and_free_lbuf cfg rx d s)) ds"
proof -
  have "kern_addr d \<noteq> 0"
    using assms zero_not_live [of "hist s"] by (auto simp: bufs_owned_def)
  then show ?thesis
    using assms
    by (auto simp: bufs_owned_def unmap_and_free_lbuf_def free_lbuf_def Let_def hist_simps)
qed

lemma unmap_and_free_owned_last:
  assumes "bufs_owned k M D (hist s) (ds @ [d])"
  shows "bufs_owned k M D (hist (unmap_and_free_lbuf cfg rx d s)) ds"
  using assms unmap_and_free_owned [of k M D s d ds cfg rx] bufs_owned_mset [of "ds @ [d]" "d # ds"]
  by simp

section \<open>The loops over a ring's buffers\<close>

text \<open>
  \<open>init_alloc_from\<close> from slot \<open>i\<close> on, when the slots before it are owned: the slots before the one
  it stops at are owned, and it stops at the ring's end exactly when no allocation failed.
\<close>

lemma init_alloc_from_owned:
  assumes "kernel_ok k" "init_alloc_from cfg k rx i s = (err, j, s')"
    and "i \<le> NR_LBUF" "length (descs s rx) = NR_LBUF"
    and "bufs_owned k M D (hist s) (take i (descs s rx))"
  shows "j \<le> NR_LBUF \<and> (err = 0 \<longrightarrow> j = NR_LBUF) \<and>
    bufs_owned k M D (hist s') (take j (descs s' rx)) \<and>
    (\<exists>ds. length ds = NR_LBUF \<and> s' = s\<lparr>descs := (descs s)(rx := ds), hist := hist s'\<rparr>)"
  using assms
proof (induction cfg k rx i s arbitrary: s' rule: init_alloc_from.induct)
  case (1 cfg k rx i s)
  show ?case
  proof (cases "i < NR_LBUF")
    case False
    then have "init_alloc_from cfg k rx i s = (0, i, s)"
      by (simp add: init_alloc_from.simps [of cfg k rx i s])
    then have "err = 0" "j = i" "s' = s" "i = NR_LBUF" using False "1.prems"(2,3) by auto
    moreover have "s = s\<lparr>descs := (descs s)(rx := descs s rx), hist := hist s\<rparr>"
      by (simp only: fun_upd_triv) simp
    ultimately show ?thesis using "1.prems" by blast
  next
    case True
    obtain e d s1 where a: "alloc_and_map_lbuf cfg k rx (descs s rx ! i) s = (e, d, s1)"
      by (cases "alloc_and_map_lbuf cfg k rx (descs s rx ! i) s") auto
    define s2 where "s2 = set_desc rx i d s1"
    have ho: "hist_only s s1" by (rule alloc_and_map_hist_only [OF a])
    have s2: "s2 = s\<lparr>descs := (descs s)(rx := (descs s rx)[i := d]), hist := hist s2\<rparr>"
      using ho by (auto simp: s2_def set_desc_def hist_only_def)
    then have l2: "length (descs s2 rx) = NR_LBUF" and h2: "hist s2 = hist s1"
      and d2: "descs s2 rx = (descs s rx)[i := d]"
      using "1.prems"(4) hist_only_fields(1) [OF ho] by (auto simp: s2_def set_desc_def)
    show ?thesis
    proof (cases "e = 0")
      case False
      then have r: "err = e" "j = i" "s' = s2"
        using "1.prems"(2) True by (auto simp: init_alloc_from.simps [of cfg k rx i s] a s2_def)
      have "bufs_owned k M D (hist s2) (take i (descs s rx))"
        unfolding h2 by (rule alloc_and_map_failure [OF "1.prems"(5,1) a False])
      then have "bufs_owned k M D (hist s') (take j (descs s' rx))" by (simp add: r d2)
      moreover have "length ((descs s rx)[i := d]) = NR_LBUF" using "1.prems"(4) by simp
      moreover have "j \<le> NR_LBUF" "err \<noteq> 0" using True False r by auto
      ultimately show ?thesis using s2 unfolding r(3) by blast
    next
      case e0: True
      then have a0: "alloc_and_map_lbuf cfg k rx (descs s rx ! i) s = (0, d, s1)" using a by simp
      have rec: "init_alloc_from cfg k rx (i + 1) s2 = (err, j, s')"
        using "1.prems"(2) True e0 by (simp add: init_alloc_from.simps [of cfg k rx i s] a s2_def)
      have "take (i + 1) (descs s2 rx) = take i (descs s rx) @ [d]"
        using True "1.prems"(4) d2 by (simp add: take_Suc_conv_app_nth)
      then have own: "bufs_owned k M D (hist s2) (take (i + 1) (descs s2 rx))"
        using alloc_and_map_success [OF "1.prems"(1,5) a0] h2 by simp
      obtain ds where ds: "j \<le> NR_LBUF" "err = 0 \<longrightarrow> j = NR_LBUF"
        "bufs_owned k M D (hist s') (take j (descs s' rx))" "length ds = NR_LBUF"
        "s' = s2\<lparr>descs := (descs s2)(rx := ds), hist := hist s'\<rparr>"
        using "1.IH" [OF True a [symmetric] refl refl s2_def _ "1.prems"(1) rec _ l2 own] e0 True
        by (auto simp: a simp del: fun_upd_apply)
      have u: "s2\<lparr>descs := X, hist := Y\<rparr> = s\<lparr>descs := X, hist := Y\<rparr>" for X Y
        by (subst s2) simp
      have d2': "descs s2 = (descs s)(rx := (descs s rx)[i := d])" by (subst s2) simp
      have "s' = s\<lparr>descs := (descs s)(rx := ds), hist := hist s'\<rparr>"
        unfolding u [symmetric] using ds(5) d2' by simp
      with ds show ?thesis by blast
    qed
  qed
qed

text \<open>Releasing downwards from slot \<open>j\<close>, or upwards from slot \<open>i\<close> on, releases exactly those.\<close>

lemma unmap_below_owned:
  assumes "j \<le> length (descs s rx)" "bufs_owned k M D (hist s) (take j (descs s rx))"
  shows "bufs_owned k M D (hist (unmap_below cfg rx j s)) [] \<and> hist_only s (unmap_below cfg rx j s)"
  using assms
proof (induction j arbitrary: s)
  case 0
  then show ?case by simp
next
  case (Suc j)
  let ?s = "unmap_and_free_lbuf cfg rx (descs s rx ! j) s"
  have same: "descs ?s rx = descs s rx"
    using hist_only_fields(1) [OF unmap_and_free_hist_only] by metis
  have "bufs_owned k M D (hist ?s) (take j (descs s rx))"
    by (rule unmap_and_free_owned_last) (use Suc.prems in \<open>simp add: take_Suc_conv_app_nth\<close>)
  then have "bufs_owned k M D (hist (unmap_below cfg rx j ?s)) [] \<and>
      hist_only ?s (unmap_below cfg rx j ?s)"
    using Suc.prems(1) by (intro Suc.IH) (simp_all add: same)
  then show ?case using hist_only_trans [OF unmap_and_free_hist_only] by auto
qed

lemma free_buffers_from_owned:
  assumes "i + n = length (descs s rx)" "bufs_owned k M D (hist s) (drop i (descs s rx))"
  shows "bufs_owned k M D (hist (free_buffers_from cfg rx i n s)) [] \<and>
    hist_only s (free_buffers_from cfg rx i n s)"
  using assms
proof (induction n arbitrary: i s)
  case 0
  then show ?case by simp
next
  case (Suc n)
  let ?s = "unmap_and_free_lbuf cfg rx (descs s rx ! i) s"
  have same: "descs ?s rx = descs s rx"
    using hist_only_fields(1) [OF unmap_and_free_hist_only] by metis
  have "bufs_owned k M D (hist ?s) (drop (i + 1) (descs s rx))"
    by (rule unmap_and_free_owned) (use Suc.prems in \<open>simp add: Cons_nth_drop_Suc\<close>)
  then have "bufs_owned k M D (hist (free_buffers_from cfg rx (i + 1) n ?s)) [] \<and>
      hist_only ?s (free_buffers_from cfg rx (i + 1) n ?s)"
    using Suc.prems(1) by (intro Suc.IH) (simp_all add: same)
  then show ?case using hist_only_trans [OF unmap_and_free_hist_only] by auto
qed

text \<open>Handing slots to the card: registers written, producer moved, memory untouched.\<close>

lemma inc_prod_fields [simp]:
  "descs (inc_prod rx s) = descs s" "hist (inc_prod rx s) = hist s"
  "cons_ptr (inc_prod rx s) = cons_ptr s"
  by (simp_all add: inc_prod_def)

lemma nf10_write_fields [simp]:
  "descs (nf10_writeq off v s) = descs s" "descs (nf10_writel off w s) = descs s"
  "prod_ptr (nf10_writeq off v s) = prod_ptr s" "prod_ptr (nf10_writel off w s) = prod_ptr s"
  "cons_ptr (nf10_writeq off v s) = cons_ptr s" "cons_ptr (nf10_writel off w s) = cons_ptr s"
  "hist (nf10_writeq off v s) = hist s @ [Writeq off v]"
  "hist (nf10_writel off w s) = hist s @ [Writel off w]"
  by (simp_all add: nf10_writeq_def nf10_writel_def)

text \<open>What handing slot \<open>i\<close> to the card does, in one state update.\<close>

definition prepared :: "config \<Rightarrow> nat \<Rightarrow> desc \<Rightarrow> kev list" where
  "prepared cfg i d = (if \<not> coherent cfg then [SyncForDevice (dma_addr d)] else []) @
     [Writeq (rx_addr_off i) (dma_addr d), Writel (rx_stat_off i) RX_READY]"

lemma prepare_rx_in_range:
  assumes "i < length (descs s RX)" "i < 2 ^ 64"
  shows "nf10_lbuf_prepare_rx cfg (of_nat i) s =
    Inr (inc_prod RX (s\<lparr>hist := hist s @ prepared cfg i (descs s RX ! i)\<rparr>))"
proof -
  have "unat (of_nat i :: u64) = i" using assms(2) by (simp add: unat_of_nat)
  then show ?thesis using assms(1)
    by (simp add: nf10_lbuf_prepare_rx_def get_desc_def prepared_def emit_def nf10_writeq_def
        nf10_writel_def Let_def)
qed

lemma fold_mem_prepared [simp]: "fold mem_step (prepared cfg i d) S = S"
  by (cases S) (simp add: prepared_def)

lemma fold_dma_prepared [simp]: "fold (dma_step k) (prepared cfg i d) S = S"
  by (cases S) (simp add: prepared_def)

lemma last_writeq_prepared [simp]:
  "fold (reg_step (rx_addr_off j)) (prepared cfg i d) r = (if j = i then Some (dma_addr d) else r)"
  by (auto simp: prepared_def)

lemma bufs_owned_prepared [simp]:
  "bufs_owned k M D (h @ prepared cfg i d) ds = bufs_owned k M D h ds"
  by (simp add: bufs_owned_def hist_simps)

definition prepared_slots :: "config \<Rightarrow> nat list \<Rightarrow> desc list \<Rightarrow> kev list" where
  "prepared_slots cfg js ds = concat (map (\<lambda>j. prepared cfg j (ds ! j)) js)"

lemma prepare_rx_from_in_range:
  assumes "i + n \<le> length (descs s RX)" "length (descs s RX) \<le> NR_LBUF"
  shows "prepare_rx_from cfg i n s =
    Inr (s\<lparr>prod_ptr := (prod_ptr s)(RX := (inc_pointer ^^ n) (prod_ptr s RX)),
           hist := hist s @ prepared_slots cfg [i..<i + n] (descs s RX)\<rparr>)"
  using assms
proof (induction n arbitrary: i s)
  case 0
  then show ?case by (simp add: prepared_slots_def)
next
  case (Suc n)
  have i: "i < length (descs s RX)" "i < 2 ^ 64" using Suc.prems by (auto simp: NR_LBUF_def)
  let ?s = "inc_prod RX (s\<lparr>hist := hist s @ prepared cfg i (descs s RX ! i)\<rparr>)"
  have "prepare_rx_from cfg i (Suc n) s = prepare_rx_from cfg (i + 1) n ?s"
    by (simp add: prepare_rx_in_range [OF i])
  also have "\<dots> = Inr (?s\<lparr>prod_ptr := (prod_ptr ?s)(RX := (inc_pointer ^^ n) (prod_ptr ?s RX)),
      hist := hist ?s @ prepared_slots cfg [i + 1..<i + 1 + n] (descs ?s RX)\<rparr>)"
    by (rule Suc.IH) (use Suc.prems in simp_all)
  finally show ?case
    by (simp add: prepared_slots_def inc_prod_def funpow_swap1 upt_conv_Cons del: upt_Suc
        fun_upd_apply) (simp add: fun_upd_same del: upt_Suc)
qed

lemma fold_mem_prepared_slots [simp]: "fold mem_step (prepared_slots cfg js ds) S = S"
  by (induction js arbitrary: S) (simp_all add: prepared_slots_def)

lemma fold_dma_prepared_slots [simp]: "fold (dma_step k) (prepared_slots cfg js ds) S = S"
  by (induction js arbitrary: S) (simp_all add: prepared_slots_def)

lemma bufs_owned_prepared_slots [simp]:
  "bufs_owned k M D (h @ prepared_slots cfg js ds) es = bufs_owned k M D h es"
  by (simp add: bufs_owned_def hist_simps)

lemma last_writeq_prepared_slots:
  "fold (reg_step (rx_addr_off j)) (prepared_slots cfg js ds) r =
     (if j \<in> set js then Some (dma_addr (ds ! j)) else r)"
  by (induction js arbitrary: r) (simp_all add: prepared_slots_def)

lemma inc_pointer_funpow: "p < NR_LBUF \<Longrightarrow> (inc_pointer ^^ n) p = (p + n) mod NR_LBUF"
proof (induction n)
  case (Suc n)
  then show ?case by (simp add: inc_pointer_ring ring_next_mod mod_Suc_eq)
qed simp

text \<open>A ring whose slots are all in use is full, and its queue is all its slots.\<close>

lemma ring_all_used:
  assumes "length (descs s rx) = NR_LBUF" "\<forall>d \<in> set (descs s rx). in_use d"
    and "prod_ptr s rx = 0" "cons_ptr s rx = 0"
  shows "ring_wf rx s \<and> ring_descs rx s = descs s rx \<and> desc_full rx s"
proof -
  have u: "in_use (descs s rx ! j)" if "j < NR_LBUF" for j using assms that by simp
  have occ: "ring_occ in_use (descs s rx) 0 0 = NR_LBUF"
    using u [of 0] assms(1) by (simp add: ring_occ_def)
  have "ring_ok in_use (descs s rx) 0 0" using u assms(1) by (simp add: ring_ok_def occ)
  moreover have "ring_list in_use (descs s rx) 0 0 = descs s rx"
    using assms(1) occ by (simp add: ring_list_def list_eq_iff_nth_eq)
  ultimately show ?thesis using assms u [of 0]
    by (simp add: ring_wf_def ring_descs_def desc_full_def cons_desc_def in_use_def)
qed

lemma bufs_owned_in_use: "bufs_owned k M D h ds \<Longrightarrow> d \<in> set ds \<Longrightarrow> in_use d"
  using zero_not_live [of h] by (auto simp: bufs_owned_def in_use_def)

section \<open>What init and free guarantee\<close>

text \<open>
  \<open>rx_ready\<close>: the RX ring is a well-formed ring of owned buffers. \<open>rx_armed\<close>: it is full and the
  card's address register of every slot holds the slot's DMA address.
\<close>

definition rx_ready :: "kapi \<Rightarrow> u64 set \<Rightarrow> u64 set \<Rightarrow> nic \<Rightarrow> bool" where
  "rx_ready k M D s \<longleftrightarrow> ring_wf RX s \<and> bufs_owned k M D (hist s) (ring_descs RX s)"

definition rx_armed :: "nic \<Rightarrow> bool" where
  "rx_armed s \<longleftrightarrow> desc_full RX s \<and>
     (\<forall>i < NR_LBUF. last_writeq (rx_addr_off i) (hist s) = Some (dma_addr (descs s RX ! i)))"

lemma init_buffers_ring_RX:
  assumes k: "kernel_ok k" and own: "bufs_owned k M D (hist s) []"
    and len: "length (descs s RX) = NR_LBUF" and p: "prod_ptr s RX = 0" "cons_ptr s RX = 0"
  shows "\<exists>err s'. init_buffers_ring cfg k RX s = Inr (err, s') \<and>
    (err = 0 \<longrightarrow> rx_ready k M D s' \<and> rx_armed s') \<and>
    (err \<noteq> 0 \<longrightarrow> bufs_owned k M D (hist s') []) \<and>
    tx_completion_kern_addr s' = tx_completion_kern_addr s \<and>
    tx_completion_dma_addr s' = tx_completion_dma_addr s"
proof -
  obtain err j s1 where a: "init_alloc_from cfg k RX 0 s = (err, j, s1)"
    by (cases "init_alloc_from cfg k RX 0 s") auto
  obtain ds where j: "j \<le> NR_LBUF" "err = 0 \<longrightarrow> j = NR_LBUF"
    and own1: "bufs_owned k M D (hist s1) (take j (descs s1 RX))"
    and ds: "length ds = NR_LBUF" "s1 = s\<lparr>descs := (descs s)(RX := ds), hist := hist s1\<rparr>"
    using init_alloc_from_owned [OF k a, of M D] own len by auto
  have d1: "descs s1 RX = ds" and p1: "prod_ptr s1 RX = 0" "cons_ptr s1 RX = 0"
    and c1: "tx_completion_kern_addr s1 = tx_completion_kern_addr s"
      "tx_completion_dma_addr s1 = tx_completion_dma_addr s"
    by (subst ds(2), simp add: p)+
  show ?thesis
  proof (cases "err = 0")
    case False
    have u: "bufs_owned k M D (hist (unmap_below cfg RX j s1)) []"
      "hist_only s1 (unmap_below cfg RX j s1)"
      using unmap_below_owned [of j s1 RX k M D cfg] own1 j ds(1) d1 by simp_all
    then show ?thesis using False c1 hist_only_fields [OF u(2)]
      by (simp add: init_buffers_ring_def a)
  next
    case True
    then have own': "bufs_owned k M D (hist s1) ds" using own1 j d1 ds(1) by simp
    define s2 where "s2 = s1\<lparr>prod_ptr := (prod_ptr s1)(RX := (inc_pointer ^^ NR_LBUF) (prod_ptr s1 RX)),
      hist := hist s1 @ prepared_slots cfg [0..<0 + NR_LBUF] (descs s1 RX)\<rparr>"
    have r: "init_buffers_ring cfg k RX s = Inr (0, s2)"
      using prepare_rx_from_in_range [of 0 NR_LBUF s1 cfg] ds(1) d1 True
      by (simp add: init_buffers_ring_def a nf10_lbuf_prepare_rx_all_def s2_def)
    have f: "descs s2 RX = ds" "prod_ptr s2 RX = 0" "cons_ptr s2 RX = 0"
      using d1 p1 inc_pointer_funpow [of 0 NR_LBUF] by (simp_all add: s2_def)
    have full: "ring_wf RX s2 \<and> ring_descs RX s2 = ds \<and> desc_full RX s2"
      using ring_all_used [of s2 RX] f ds(1) bufs_owned_in_use [OF own'] by auto
    then have "rx_ready k M D s2" "rx_armed s2"
      using own' d1 ds(1)
      by (simp_all add: rx_ready_def rx_armed_def s2_def last_writeq_append
          last_writeq_prepared_slots)
    then show ?thesis using r c1 by (simp add: s2_def)
  qed
qed

text \<open>Bringing the buffers up either arms a full ring or leaves no memory and no mapping behind.\<close>

lemma bufs_owned_base: "bufs_owned k (live_mem h) (live_dma k h) h [] \<longleftrightarrow> frees_ok h \<and> unmaps_ok k h"
  by (simp add: bufs_owned_def)

lemma kernel_ok_coherent:
  assumes "kernel_ok k"
  shows "fst (k_alloc_coherent k h) \<notin> live_mem h"
    "fst (k_alloc_coherent k h) \<noteq> 0 \<longrightarrow> snd (k_alloc_coherent k h) \<notin> live_dma k h"
  using assms by (simp_all add: kernel_ok_def)

lemma init_buffers_cases:
  assumes k: "kernel_ok k" and ok: "frees_ok (hist s)" "unmaps_ok k (hist s)"
    and len: "length (descs s RX) = NR_LBUF"
  shows "\<exists>err s'. nf10_lbuf_init_buffers cfg k s = Inr (err, s') \<and>
    (if err = 0 then
       rx_ready k (insert (tx_completion_kern_addr s') (live_mem (hist s)))
                  (insert (tx_completion_dma_addr s') (live_dma k (hist s))) s' \<and>
       rx_armed s' \<and> tx_completion_kern_addr s' \<notin> live_mem (hist s) \<and>
       tx_completion_dma_addr s' \<notin> live_dma k (hist s)
     else bufs_owned k (live_mem (hist s)) (live_dma k (hist s)) (hist s') [])"
proof -
  let ?s0 = "s\<lparr>prod_ptr := (\<lambda>_. 0), cons_ptr := (\<lambda>_. 0)\<rparr>"
  obtain a dma where ad: "k_alloc_coherent k (hist s) = (a, dma)" by fastforce
  have fa: "a \<notin> live_mem (hist s)" and fd: "a \<noteq> 0 \<longrightarrow> dma \<notin> live_dma k (hist s)"
    using kernel_ok_coherent [OF k, of "hist s"] by (auto simp: ad)
  define s1 where "s1 = snd (init_tx_completion_buffer k ?s0)"
  show ?thesis
  proof (cases "a = 0")
    case True
    then show ?thesis using ok
      by (simp add: nf10_lbuf_init_buffers_def init_tx_completion_buffer_def ad errno_defs
          bufs_owned_def hist_simps Let_def)
  next
    case False
    let ?M = "insert a (live_mem (hist s))" and ?D = "insert dma (live_dma k (hist s))"
    have i: "init_tx_completion_buffer k ?s0 = (0, s1)"
      by (simp add: s1_def init_tx_completion_buffer_def ad False Let_def)
    have s1: "tx_completion_kern_addr s1 = a" "tx_completion_dma_addr s1 = dma"
      "descs s1 = descs s" "prod_ptr s1 RX = 0" "cons_ptr s1 RX = 0"
      "bufs_owned k ?M ?D (hist s1) []"
      using ok by (simp_all add: s1_def init_tx_completion_buffer_def ad False Let_def
          bufs_owned_def hist_simps nf10_writeq_def)
    obtain err s2 where r: "init_buffers_ring cfg k RX s1 = Inr (err, s2)"
      "err = 0 \<longrightarrow> rx_ready k ?M ?D s2 \<and> rx_armed s2"
      "err \<noteq> 0 \<longrightarrow> bufs_owned k ?M ?D (hist s2) []"
      "tx_completion_kern_addr s2 = a" "tx_completion_dma_addr s2 = dma"
      using init_buffers_ring_RX [OF k s1(6) _ s1(4,5), of cfg] len s1(1-3) by auto
    have "bufs_owned k (live_mem (hist s)) (live_dma k (hist s))
        (hist (free_tx_completion_buffer s2)) []" if "err \<noteq> 0"
      using r(3) that fa fd False
      by (auto simp: free_tx_completion_buffer_def bufs_owned_def hist_simps r(4,5))
    then show ?thesis using r fa fd False
      by (auto simp: nf10_lbuf_init_buffers_def i Let_def)
  qed
qed

lemma bufs_owned_free_base:
  assumes own: "bufs_owned k (insert x M) (insert y D) h ds" and x: "x \<notin> M" "y \<notin> D"
  shows "bufs_owned k M D (h @ [FreeCoherent n x y]) ds"
proof -
  have "x \<notin> M \<union> kern_addr ` set ds" "y \<notin> D \<union> dma_addr ` set ds"
    using own x by (auto simp: bufs_owned_def)
  then show ?thesis using own by (simp add: bufs_owned_def hist_simps)
qed

lemma full_ring_mset:
  assumes wf: "ring_wf rx s" and full: "desc_full rx s"
  shows "mset (ring_descs rx s) = mset (descs s rx)"
proof -
  have n: "ring_occ in_use (descs s rx) (prod_ptr s rx) (cons_ptr s rx) = length (descs s rx)"
    using desc_full_iff [OF wf] full wf by (simp add: length_ring_descs ring_wf_def)
  have "ring_descs rx s = rotate (cons_ptr s rx) (descs s rx)"
    unfolding ring_descs_def ring_list_def n
    by (rule nth_equalityI) (simp_all add: nth_rotate)
  moreover have "mset (rotate m xs) = mset xs" for m and xs :: "desc list"
    by (metis append_take_drop_id mset_append rotate_drop_take union_commute)
  ultimately show ?thesis by simp
qed

lemma free_buffers_releases:
  assumes ready: "rx_ready k (insert (tx_completion_kern_addr s) M)
      (insert (tx_completion_dma_addr s) D) s" and full: "desc_full RX s"
    and a: "tx_completion_kern_addr s \<notin> M" "tx_completion_dma_addr s \<notin> D"
  shows "bufs_owned k M D (hist (nf10_lbuf_free_buffers cfg s)) []"
proof -
  let ?s = "free_tx_completion_buffer s"
  have wf: "ring_wf RX s" and own: "bufs_owned k (insert (tx_completion_kern_addr s) M)
      (insert (tx_completion_dma_addr s) D) (hist s) (ring_descs RX s)"
    using ready by (auto simp: rx_ready_def)
  have own': "bufs_owned k M D (hist ?s) (ring_descs RX s)"
    using bufs_owned_free_base [OF own a] by (simp add: free_tx_completion_buffer_def)
  have "mset (ring_descs RX s) = mset (descs s RX)" by (rule full_ring_mset [OF wf full])
  then have "bufs_owned k M D (hist ?s) (drop 0 (descs ?s RX))"
    using own' bufs_owned_mset [of "ring_descs RX s" "descs s RX" k M D "hist ?s"]
    by (simp add: free_tx_completion_buffer_def)
  moreover have "0 + NR_LBUF = length (descs ?s RX)"
    using wf by (simp add: ring_wf_def free_tx_completion_buffer_def)
  ultimately show ?thesis
    using free_buffers_from_owned [of 0 NR_LBUF ?s RX k M D cfg]
    by (simp add: nf10_lbuf_free_buffers_def free_buffers_ring_def)
qed

section \<open>What the RX operations leave alone\<close>

text \<open>\<open>rx_only\<close>: nothing changed but the RX ring and the history.\<close>

definition rx_only :: "nic \<Rightarrow> nic \<Rightarrow> bool" where
  "rx_only s s' \<longleftrightarrow> (\<exists>ds p c h. s' = s\<lparr>descs := (descs s)(RX := ds),
     prod_ptr := (prod_ptr s)(RX := p), cons_ptr := (cons_ptr s)(RX := c), hist := h\<rparr>)"

lemma rx_onlyI:
  "s' = s\<lparr>descs := (descs s)(RX := ds), prod_ptr := (prod_ptr s)(RX := p),
          cons_ptr := (cons_ptr s)(RX := c), hist := h\<rparr> \<Longrightarrow> rx_only s s'"
  unfolding rx_only_def by blast

lemma hist_only_rx_only: "hist_only s s' \<Longrightarrow> rx_only s s'"
  unfolding hist_only_def
  by (elim exE, rule rx_onlyI [where ds = "descs s RX" and p = "prod_ptr s RX" and c = "cons_ptr s RX"])
    (simp del: fun_upd_apply)

lemma rx_only_refl [simp]: "rx_only s s"
  by (rule hist_only_rx_only) simp

lemma rx_only_trans:
  assumes "rx_only s t" "rx_only t u"
  shows "rx_only s u"
proof -
  obtain ds p c h ds' p' c' h' where
    t: "t = s\<lparr>descs := (descs s)(RX := ds), prod_ptr := (prod_ptr s)(RX := p),
      cons_ptr := (cons_ptr s)(RX := c), hist := h\<rparr>" and
    u: "u = t\<lparr>descs := (descs t)(RX := ds'), prod_ptr := (prod_ptr t)(RX := p'),
      cons_ptr := (cons_ptr t)(RX := c'), hist := h'\<rparr>"
    using assms unfolding rx_only_def by blast
  show ?thesis unfolding u
    by (rule rx_onlyI [where ds = ds' and p = p' and c = c' and h = h'])
      (simp add: t del: fun_upd_apply)
qed

lemma rx_only_set_desc [simp]: "rx_only s (set_desc RX i d s)"
  unfolding set_desc_def
  by (rule rx_onlyI [where p = "prod_ptr s RX" and c = "cons_ptr s RX" and h = "hist s"])
    (simp del: fun_upd_apply)

lemma rx_only_inc_prod [simp]: "rx_only s (inc_prod RX s)"
  unfolding inc_prod_def
  by (rule rx_onlyI [where ds = "descs s RX" and c = "cons_ptr s RX" and h = "hist s"])
    (simp del: fun_upd_apply)

lemma rx_only_inc_cons [simp]: "rx_only s (inc_cons RX s)"
  unfolding inc_cons_def
  by (rule rx_onlyI [where ds = "descs s RX" and p = "prod_ptr s RX" and h = "hist s"])
    (simp del: fun_upd_apply)

lemma rx_only_fields:
  assumes "rx_only s s'"
  shows "descs s' TX = descs s TX" "prod_ptr s' TX = prod_ptr s TX" "cons_ptr s' TX = cons_ptr s TX"
    "completion s' = completion s" "last_gc s' = last_gc s" "pending_gc s' = pending_gc s"
    "skbs s' = skbs s" "lbuf_mem s' = lbuf_mem s" "nr_user_mmap s' = nr_user_mmap s"
    "xenvif_up s' = xenvif_up s" "rx_buf_head s' = rx_buf_head s" "rx_packets s' = rx_packets s"
    "tx_completion_kern_addr s' = tx_completion_kern_addr s" "user_waiting s' = user_waiting s"
    "tx_completion_dma_addr s' = tx_completion_dma_addr s"
  using assms by (auto simp: rx_only_def)

lemma init_alloc_from_rx_only: "init_alloc_from cfg k RX i s = (err, j, s') \<Longrightarrow> rx_only s s'"
proof (induction "NR_LBUF - i" arbitrary: i s)
  case 0
  then show ?case by (simp add: init_alloc_from.simps [of cfg k RX i])
next
  case (Suc n)
  then have i: "i < NR_LBUF" by simp
  obtain e d s1 where a: "alloc_and_map_lbuf cfg k RX (descs s RX ! i) s = (e, d, s1)"
    by (cases "alloc_and_map_lbuf cfg k RX (descs s RX ! i) s") auto
  have r: "rx_only s (set_desc RX i d s1)"
    using hist_only_rx_only [OF alloc_and_map_hist_only [OF a]] rx_only_set_desc by (rule rx_only_trans)
  show ?case
  proof (cases "e = 0")
    case True
    then have "init_alloc_from cfg k RX (i + 1) (set_desc RX i d s1) = (err, j, s')"
      using Suc.prems i by (simp add: init_alloc_from.simps [of cfg k RX i s] a)
    then have "rx_only (set_desc RX i d s1) s'"
      using Suc.hyps(1) [of "i + 1" "set_desc RX i d s1"] Suc.hyps(2) by simp
    then show ?thesis by (rule rx_only_trans [OF r])
  next
    case False
    then show ?thesis using Suc.prems i r by (auto simp: init_alloc_from.simps [of cfg k RX i s] a)
  qed
qed

lemma unmap_below_hist_only: "hist_only s (unmap_below cfg rx j s)"
proof (induction j arbitrary: s)
  case (Suc j)
  then show ?case by (auto intro: hist_only_trans [OF unmap_and_free_hist_only])
qed simp

lemma prepare_rx_rx_only: "nf10_lbuf_prepare_rx cfg idx s = Inr s' \<Longrightarrow> rx_only s s'"
  unfolding nf10_lbuf_prepare_rx_def
  by (auto simp: rbind_eq_Inr Let_def nf10_writeq_def nf10_writel_def
      intro!: rx_only_trans [OF hist_only_rx_only rx_only_inc_prod])

lemma prepare_rx_from_rx_only: "prepare_rx_from cfg i n s = Inr s' \<Longrightarrow> rx_only s s'"
proof (induction n arbitrary: i s)
  case (Suc n)
  then show ?case by (auto simp: rbind_eq_Inr dest!: prepare_rx_rx_only intro: rx_only_trans)
qed simp

text \<open>So bringing the buffers up resets the TX pointers and the completion buffer, nothing else.\<close>

lemma init_buffers_tx:
  assumes "nf10_lbuf_init_buffers cfg k s = Inr (0, s')"
  shows "descs s' TX = descs s TX" "prod_ptr s' TX = 0" "cons_ptr s' TX = 0"
    "pending_gc s' = pending_gc s" "skbs s' = skbs s" "completion s' = replicate NR_LBUF 0"
    "last_gc s' = 0" "lbuf_mem s' = lbuf_mem s" "nr_user_mmap s' = nr_user_mmap s"
    "xenvif_up s' = xenvif_up s" "rx_buf_head s' = rx_buf_head s"
proof -
  let ?s0 = "s\<lparr>prod_ptr := (\<lambda>_. 0), cons_ptr := (\<lambda>_. 0)\<rparr>"
  obtain e s1 where i: "init_tx_completion_buffer k ?s0 = (e, s1)" by fastforce
  have e: "e = 0" and r: "init_buffers_ring cfg k RX s1 = Inr (0, s')"
    using assms by (auto simp: nf10_lbuf_init_buffers_def i Let_def rbind_eq_Inr split: if_splits)
  obtain err j s2 where a: "init_alloc_from cfg k RX 0 s1 = (err, j, s2)"
    by (cases "init_alloc_from cfg k RX 0 s1") auto
  have "rx_only s1 s'"
    using r rx_only_trans [OF init_alloc_from_rx_only [OF a]]
    by (auto simp: init_buffers_ring_def a nf10_lbuf_prepare_rx_all_def rbind_eq_Inr
        split: if_splits dest: prepare_rx_from_rx_only)
  note f = rx_only_fields [OF this]
  have "descs s1 = descs s" "prod_ptr s1 TX = 0" "cons_ptr s1 TX = 0" "pending_gc s1 = pending_gc s"
    "skbs s1 = skbs s" "completion s1 = replicate NR_LBUF 0" "last_gc s1 = 0"
    "lbuf_mem s1 = lbuf_mem s" "nr_user_mmap s1 = nr_user_mmap s" "xenvif_up s1 = xenvif_up s"
    "rx_buf_head s1 = rx_buf_head s"
    using i e by (auto simp: init_tx_completion_buffer_def Let_def nf10_writeq_def errno_defs
        split: prod.splits if_splits)
  then show "descs s' TX = descs s TX" "prod_ptr s' TX = 0" "cons_ptr s' TX = 0"
    "pending_gc s' = pending_gc s" "skbs s' = skbs s" "completion s' = replicate NR_LBUF 0"
    "last_gc s' = 0" "lbuf_mem s' = lbuf_mem s" "nr_user_mmap s' = nr_user_mmap s"
    "xenvif_up s' = xenvif_up s" "rx_buf_head s' = rx_buf_head s"
    by (simp_all add: f)
qed

text \<open>The same whether it succeeds or not; taking the buffers down touches nothing but the history.\<close>

lemma init_alloc_from_length:
  "init_alloc_from cfg k rx i s = (err, j, s') \<Longrightarrow> length (descs s' rx) = length (descs s rx)"
proof (induction "NR_LBUF - i" arbitrary: i s)
  case 0
  then show ?case by (simp add: init_alloc_from.simps [of cfg k rx i])
next
  case (Suc n)
  then have i: "i < NR_LBUF" by simp
  obtain e d s1 where a: "alloc_and_map_lbuf cfg k rx (descs s rx ! i) s = (e, d, s1)"
    by (cases "alloc_and_map_lbuf cfg k rx (descs s rx ! i) s") auto
  have l: "length (descs (set_desc rx i d s1) rx) = length (descs s rx)"
    using hist_only_fields(1) [OF alloc_and_map_hist_only [OF a]] by (simp add: set_desc_def)
  show ?case
  proof (cases "e = 0")
    case True
    then have "init_alloc_from cfg k rx (i + 1) (set_desc rx i d s1) = (err, j, s')"
      using Suc.prems i by (simp add: init_alloc_from.simps [of cfg k rx i s] a)
    then show ?thesis using Suc.hyps(1) [of "i + 1" "set_desc rx i d s1"] Suc.hyps(2) l by simp
  next
    case False
    then show ?thesis using Suc.prems i l by (auto simp: init_alloc_from.simps [of cfg k rx i s] a)
  qed
qed

lemma init_buffers_keeps:
  assumes "nf10_lbuf_init_buffers cfg k s = Inr (err, s')"
  shows "descs s' TX = descs s TX" "prod_ptr s' TX = 0" "cons_ptr s' TX = 0"
    "pending_gc s' = pending_gc s" "skbs s' = skbs s"
    "length (completion s) = NR_LBUF \<Longrightarrow> length (completion s') = NR_LBUF"
    "err \<noteq> 0 \<Longrightarrow> length (descs s' RX) = length (descs s RX)"
proof -
  let ?s0 = "s\<lparr>prod_ptr := (\<lambda>_. 0), cons_ptr := (\<lambda>_. 0)\<rparr>"
  obtain e s1 where i: "init_tx_completion_buffer k ?s0 = (e, s1)" by fastforce
  have f1: "descs s1 = descs s" "prod_ptr s1 TX = 0" "cons_ptr s1 TX = 0" "pending_gc s1 = pending_gc s"
    "skbs s1 = skbs s" "length (completion s) = NR_LBUF \<Longrightarrow> length (completion s1) = NR_LBUF"
    using i by (auto simp: init_tx_completion_buffer_def Let_def nf10_writeq_def errno_defs
        split: prod.splits if_splits)
  have "descs s' TX = descs s TX \<and> prod_ptr s' TX = 0 \<and> cons_ptr s' TX = 0 \<and>
    pending_gc s' = pending_gc s \<and> skbs s' = skbs s \<and>
    (length (completion s) = NR_LBUF \<longrightarrow> length (completion s') = NR_LBUF) \<and>
    (err \<noteq> 0 \<longrightarrow> length (descs s' RX) = length (descs s RX))"
  proof (cases "e = 0")
    case False
    then show ?thesis using assms f1 by (auto simp: nf10_lbuf_init_buffers_def i Let_def)
  next
    case True
    obtain err2 s2 where r: "init_buffers_ring cfg k RX s1 = Inr (err2, s2)" "err = err2"
      "s' = (if err2 \<noteq> 0 then free_tx_completion_buffer s2 else s2)"
      using assms True by (auto simp: nf10_lbuf_init_buffers_def i Let_def rbind_eq_Inr split: if_splits)
    obtain err3 j s3 where a: "init_alloc_from cfg k RX 0 s1 = (err3, j, s3)"
      by (cases "init_alloc_from cfg k RX 0 s1") auto
    have "rx_only s1 s2"
      using r(1) rx_only_trans [OF init_alloc_from_rx_only [OF a]] hist_only_rx_only [OF unmap_below_hist_only]
      by (auto simp: init_buffers_ring_def a nf10_lbuf_prepare_rx_all_def rbind_eq_Inr
          split: if_splits dest: prepare_rx_from_rx_only)
    note f = rx_only_fields [OF this]
    have "err2 \<noteq> 0 \<longrightarrow> length (descs s2 RX) = length (descs s1 RX)"
      using r(1) init_alloc_from_length [OF a] hist_only_fields(1) [OF unmap_below_hist_only]
      by (auto simp: init_buffers_ring_def a rbind_eq_Inr split: if_splits)
    then show ?thesis using f f1 r(2,3) by (auto simp: free_tx_completion_buffer_def)
  qed
  then show "descs s' TX = descs s TX" "prod_ptr s' TX = 0" "cons_ptr s' TX = 0"
    "pending_gc s' = pending_gc s" "skbs s' = skbs s"
    "length (completion s) = NR_LBUF \<Longrightarrow> length (completion s') = NR_LBUF"
    "err \<noteq> 0 \<Longrightarrow> length (descs s' RX) = length (descs s RX)"
    by blast+
qed

lemma free_buffers_from_hist_only: "hist_only s (free_buffers_from cfg rx i n s)"
  by (induction n arbitrary: i s) (auto intro: hist_only_trans [OF unmap_and_free_hist_only])

lemma free_buffers_hist_only: "hist_only s (nf10_lbuf_free_buffers cfg s)"
  unfolding nf10_lbuf_free_buffers_def free_buffers_ring_def free_tx_completion_buffer_def
  by (rule hist_only_trans [OF hist_only_emit [OF hist_only_refl] free_buffers_from_hist_only])

section \<open>The demonstration kernel brings the buffers up\<close>

abbreviation plain_cfg :: config where
  "plain_cfg \<equiv> \<lparr>coherent = False, xen = False\<rparr>"

lemmas demo_simps = demo_kapi_def demo_coherent_def demo_errors_def pool_def hist_simps Let_def

abbreviation demo_h0 :: history where
  "demo_h0 \<equiv> [AllocCoherent TX_COMPLETION_SIZE 0x200000 0x200000, Writeq TX_COMPLETION_ADDR 0x200000]"

abbreviation demo_h1 :: history where
  "demo_h1 \<equiv> demo_h0 @ [AllocPages 0x400000, MapSingle 0x400000 LBUF_SIZE RX 0x400000]"

abbreviation demo_h2 :: history where
  "demo_h2 \<equiv> demo_h1 @ [AllocPages 0x600000, MapSingle 0x600000 LBUF_SIZE RX 0x600000]"

lemma demo_completion:
  assumes "hist s = []"
  shows "\<exists>s'. init_tx_completion_buffer demo_kapi s = (0, s') \<and> hist s' = demo_h0 \<and>
    descs s' = descs s \<and> prod_ptr s' = prod_ptr s \<and> cons_ptr s' = cons_ptr s"
  using assms by (simp add: init_tx_completion_buffer_def demo_simps nf10_writeq_def)

lemma demo_alloc:
  assumes "(hist s, a) \<in> {(demo_h0, 0x400000), (demo_h1, 0x600000)}"
  shows "\<exists>d' s'. alloc_and_map_lbuf plain_cfg demo_kapi RX d s = (0, d', s') \<and> hist_only s s' \<and>
    hist s' = hist s @ [AllocPages a, MapSingle a LBUF_SIZE RX a]"
  using assms
  by (elim insertE) (simp_all add: alloc_and_map_lbuf_def alloc_lbuf_def demo_simps del: LBUF_SIZE_value)

lemma demo_init_alloc:
  assumes "hist s = demo_h0"
  shows "\<exists>j s'. init_alloc_from plain_cfg demo_kapi RX 0 s = (0, j, s')"
proof -
  obtain d1 s1 where a1: "alloc_and_map_lbuf plain_cfg demo_kapi RX (descs s RX ! 0) s = (0, d1, s1)"
    "hist s1 = demo_h1"
    using demo_alloc [of s "0x400000" "descs s RX ! 0"] assms by auto
  let ?s1 = "set_desc RX 0 d1 s1"
  have "hist ?s1 = demo_h1" using a1(2) by (simp add: set_desc_def)
  then obtain d2 s2 where a2:
    "alloc_and_map_lbuf plain_cfg demo_kapi RX (descs ?s1 RX ! 1) ?s1 = (0, d2, s2)"
    using demo_alloc [of ?s1 "0x600000" "descs ?s1 RX ! 1"] by auto
  show ?thesis
    by (simp add: init_alloc_from.simps [of plain_cfg demo_kapi RX 0 s] a1(1)
        init_alloc_from.simps [of plain_cfg demo_kapi RX "Suc 0" ?s1] a2 [simplified]
        init_alloc_from.simps [of plain_cfg demo_kapi RX "Suc (Suc 0)"] NR_LBUF_def)
qed

lemma demo_init_succeeds:
  assumes "hist s = []" "length (descs s RX) = NR_LBUF"
  shows "\<exists>s'. nf10_lbuf_init_buffers plain_cfg demo_kapi s = Inr (0, s')"
proof -
  let ?s0 = "s\<lparr>prod_ptr := (\<lambda>_. 0), cons_ptr := (\<lambda>_. 0)\<rparr>"
  obtain s1 where s1: "init_tx_completion_buffer demo_kapi ?s0 = (0, s1)" "hist s1 = demo_h0"
    "descs s1 = descs s" "prod_ptr s1 RX = 0" "cons_ptr s1 RX = 0"
    using demo_completion [of ?s0] assms(1) by auto
  have own: "bufs_owned demo_kapi {0x200000} {0x200000} (hist s1) []"
    unfolding s1(2) by (simp add: bufs_owned_def hist_simps)
  obtain err s2 where r: "init_buffers_ring plain_cfg demo_kapi RX s1 = Inr (err, s2)"
    using init_buffers_ring_RX [OF demo_kernel_ok own _ s1(4,5), of plain_cfg] assms(2) s1(3) by auto
  then have "err = 0"
    using demo_init_alloc [OF s1(2)] by (auto simp: init_buffers_ring_def rbind_eq_Inr)
  then show ?thesis using r s1(1) by (simp add: nf10_lbuf_init_buffers_def)
qed

section \<open>Properties\<close>

text \<open>
  C1: bringing the buffers up (\<open>init_buffers\<close>) never faults and has two outcomes. On success every
  RX slot holds its own live buffer with its own live DMA address, the ring is full, and the card's
  address register of every slot holds that slot's DMA address. On failure, wherever in the
  sequence of allocations and mappings it happens, every buffer and every mapping obtained on the
  way has been released exactly once, so memory and mappings are as before.
\<close>

theorem init_buffers_arms_or_undoes:
  assumes "kernel_ok k" "frees_ok (hist s)" "unmaps_ok k (hist s)" "length (descs s RX) = NR_LBUF"
  shows "\<exists>err s'. nf10_lbuf_init_buffers cfg k s = Inr (err, s') \<and>
    (if err = 0 then
       rx_ready k (insert (tx_completion_kern_addr s') (live_mem (hist s)))
                  (insert (tx_completion_dma_addr s') (live_dma k (hist s))) s' \<and> rx_armed s'
     else live_mem (hist s') = live_mem (hist s) \<and> live_dma k (hist s') = live_dma k (hist s) \<and>
          frees_ok (hist s') \<and> unmaps_ok k (hist s'))"
  using init_buffers_cases [OF assms, of cfg] by (auto simp: bufs_owned_def split: if_splits)

theorem init_buffers_arms_or_undoes_witness:
  "\<exists>err s'. nf10_lbuf_init_buffers plain_cfg demo_kapi nic_init = Inr (err, s') \<and>
    (if err = 0 then
       rx_ready demo_kapi (insert (tx_completion_kern_addr s') (live_mem (hist nic_init)))
         (insert (tx_completion_dma_addr s') (live_dma demo_kapi (hist nic_init))) s' \<and> rx_armed s'
     else live_mem (hist s') = live_mem (hist nic_init) \<and>
          live_dma demo_kapi (hist s') = live_dma demo_kapi (hist nic_init) \<and>
          frees_ok (hist s') \<and> unmaps_ok demo_kapi (hist s'))"
  by (rule init_buffers_arms_or_undoes [OF demo_kernel_ok]) (simp_all add: hist_simps)

text \<open>
  C2: taking the buffers down after bringing them up returns memory and DMA mappings to what they
  were before, with every release of something live (no double free, no double unmap).
\<close>

theorem init_then_free_restores:
  assumes "kernel_ok k" "frees_ok (hist s)" "unmaps_ok k (hist s)" "length (descs s RX) = NR_LBUF"
    and "nf10_lbuf_init_buffers cfg k s = Inr (0, s')"
  shows "live_mem (hist (nf10_lbuf_free_buffers cfg s')) = live_mem (hist s) \<and>
    live_dma k (hist (nf10_lbuf_free_buffers cfg s')) = live_dma k (hist s) \<and>
    frees_ok (hist (nf10_lbuf_free_buffers cfg s')) \<and>
    unmaps_ok k (hist (nf10_lbuf_free_buffers cfg s'))"
proof -
  have "bufs_owned k (live_mem (hist s)) (live_dma k (hist s))
      (hist (nf10_lbuf_free_buffers cfg s')) []"
    using init_buffers_cases [OF assms(1-4), of cfg] assms(5)
    by (auto simp: rx_armed_def intro!: free_buffers_releases)
  then show ?thesis by (simp add: bufs_owned_def)
qed

theorem init_then_free_restores_witness:
  "\<exists>s'. nf10_lbuf_init_buffers plain_cfg demo_kapi nic_init = Inr (0, s') \<and>
    live_mem (hist (nf10_lbuf_free_buffers plain_cfg s')) = {} \<and>
    live_dma demo_kapi (hist (nf10_lbuf_free_buffers plain_cfg s')) = {}"
proof -
  obtain s' where s': "nf10_lbuf_init_buffers plain_cfg demo_kapi nic_init = Inr (0, s')"
    using demo_init_succeeds [of nic_init] by auto
  have "live_mem (hist (nf10_lbuf_free_buffers plain_cfg s')) = live_mem (hist nic_init) \<and>
    live_dma demo_kapi (hist (nf10_lbuf_free_buffers plain_cfg s')) = live_dma demo_kapi (hist nic_init) \<and>
    frees_ok (hist (nf10_lbuf_free_buffers plain_cfg s')) \<and>
    unmaps_ok demo_kapi (hist (nf10_lbuf_free_buffers plain_cfg s'))"
    by (rule init_then_free_restores [OF demo_kernel_ok _ _ _ s']) (simp_all add: hist_simps)
  then show ?thesis using s' by (simp add: hist_simps)
qed

end
