(* ===== verification/Lbuf_Queue.thy ===== *)
theory Lbuf_Queue
  imports Lbuf_Buffers
begin

text \<open>
  The queue of large buffers on their way to the Xen back end: \<open>struct lbuf_head\<close> of
  \<open>sw/driver/nf10_lbuf.h\<close> and the operations on it, with the slab copies of descriptors
  (\<open>alloc_desc\<close>, \<open>free_desc\<close>) and \<open>release_lbuf\<close> of \<open>nf10_lbuf.c\<close>. The queue provides the
  \<open>fifo\<close> interface.
\<close>

section \<open>Operations\<close>

text \<open>The list of a \<open>lbuf_head\<close>; its spinlock makes every operation atomic.\<close>

type_synonym lbuf_head = "pdesc list"

definition lbuf_head_init :: lbuf_head where
  "lbuf_head_init = []"

definition lbuf_queue_empty :: "lbuf_head \<Rightarrow> bool" where
  "lbuf_queue_empty head \<longleftrightarrow> head = []"

definition lbuf_queue_tail :: "pdesc \<Rightarrow> lbuf_head \<Rightarrow> lbuf_head" where
  "lbuf_queue_tail desc head = head @ [desc]"

definition lbuf_queue_head :: "pdesc \<Rightarrow> lbuf_head \<Rightarrow> lbuf_head" where
  "lbuf_queue_head desc head = desc # head"

fun lbuf_dequeue :: "lbuf_head \<Rightarrow> pdesc option \<times> lbuf_head" where
  "lbuf_dequeue [] = (None, [])"
| "lbuf_dequeue (desc # rest) = (Some desc, rest)"

definition alloc_desc :: "kapi \<Rightarrow> nic \<Rightarrow> u64 \<times> nic" where
  "alloc_desc k s =
     (let p = k_kmem_alloc k (hist s) in (p, emit (KmemAlloc DescCache p) s))"

definition free_desc :: "u64 \<Rightarrow> nic \<Rightarrow> nic" where
  "free_desc p = emit (KmemFree DescCache p)"

definition release_lbuf :: "config \<Rightarrow> pdesc \<Rightarrow> nic \<Rightarrow> nic" where
  "release_lbuf cfg desc s = free_desc (fst desc) (free_lbuf cfg (snd desc) s)"

section \<open>A queue\<close>

text \<open>The consumer's view: the front and what is left of it by one dequeue.\<close>

definition lbuf_front :: "lbuf_head \<Rightarrow> pdesc" where
  "lbuf_front head = (case fst (lbuf_dequeue head) of Some d \<Rightarrow> d | None \<Rightarrow> (0, desc_zero))"

definition lbuf_rest :: "lbuf_head \<Rightarrow> lbuf_head" where
  "lbuf_rest head = snd (lbuf_dequeue head)"

interpretation lbufq: fifo "\<lambda>head. head" "\<lambda>_. True" lbuf_queue_empty "\<lambda>_. True" "\<lambda>_. True"
  lbuf_queue_tail lbuf_front lbuf_rest
proof
  fix head :: lbuf_head
  assume "head \<noteq> []"
  then show "head = lbuf_front head # lbuf_rest head"
    by (cases head) (simp_all add: lbuf_front_def lbuf_rest_def)
qed (simp_all add: lbuf_queue_empty_def lbuf_queue_tail_def)

text \<open>A buffer put back at the head is the next one taken out.\<close>

lemma requeue_dequeue: "lbuf_dequeue (lbuf_queue_head d head) = (Some d, head)"
  by (simp add: lbuf_queue_head_def)

end
