(* ===== verification/Lbuf_Rx.thy ===== *)
theory Lbuf_Rx
  imports Lbuf_Queue
begin

text \<open>
  The receive half of \<open>sw/driver/nf10_lbuf.c\<close> (built without \<open>CONFIG_SKBPOOL\<close>): taking a filled
  buffer off the ring (\<open>consume_rx_desc\<close>), refilling the ring, and delivering the buffer to the
  user process, to the Xen back end or packet by packet to the network stack
  (\<open>nf10_lbuf_process_rx_irq\<close>, \<open>deliver_lbuf\<close>, \<open>deliver_packets\<close>); and the operations the character
  device uses. The main theorems: delivery is the inverse of the encoder of \<open>Lbuf_Format\<close>, it stays
  inside the buffer, and a poll keeps the ring full and armed and releases what it delivered.
\<close>

section \<open>Packet delivery\<close>

text \<open>
  One turn of the loop delivers at most one packet; a packet with a length out of range, or for
  which no socket buffer can be allocated, is skipped.
\<close>

definition deliver_one :: "kapi \<Rightarrow> lbuf \<Rightarrow> u32 \<Rightarrow> u32 \<Rightarrow> u32 \<Rightarrow> nic \<Rightarrow> fault + u32 \<times> nic" where
  "deliver_one k b dword_idx pkt_len n s =
     (if pkt_len < 60 \<or> 1518 < pkt_len then Inr (n, s)
      else let data_len = pkt_len - 4;
               ok = k_alloc_skb k (hist s);
               s1 = emit (AllocSkb (unat data_len) ok) s
           in if \<not> ok then Inr (n, s1)
              else rbind (lbuf_copy b (LBUF_PKT_ADDR dword_idx) (unat data_len)) (\<lambda>frame.
                Inr (n + 1, emit (GroReceive frame) s1)))"

text \<open>
  The loop reads the length field before anything else, so it stops with a fault where that field
  is outside the buffer; the index moves forward at every turn.
\<close>

function deliver_from :: "kapi \<Rightarrow> lbuf \<Rightarrow> u32 \<Rightarrow> u32 \<Rightarrow> u32 \<Rightarrow> nic \<Rightarrow> fault + u32 \<times> nic" where
  "deliver_from k b dword_idx nr_dwords n s =
     rbind (LBUF_PKT_LEN b dword_idx) (\<lambda>pkt_len.
       rbind (deliver_one k b dword_idx pkt_len n s) (\<lambda>(n1, s1).
         let next_idx = LBUF_NEXT_DWORD_IDX dword_idx pkt_len
         in if next_idx < nr_dwords then deliver_from k b next_idx nr_dwords n1 s1
            else Inr (n1, s1)))"
  by pat_completeness auto
termination
  by (relation "measure (\<lambda>(k, b, i, nr, n, s). 2 ^ 32 - unat (i + 1))")
    (use next_dword_idx_measure unat_lt_pow in \<open>auto simp: LBUF_PKT_LEN_Inr intro!: diff_less_mono2\<close>)

declare deliver_from.simps [simp del]

definition deliver_packets :: "kapi \<Rightarrow> lbuf \<Rightarrow> u32 \<Rightarrow> u32 \<Rightarrow> nic \<Rightarrow> fault + nic" where
  "deliver_packets k b dword_idx nr_dwords s =
     rbind (deliver_from k b dword_idx nr_dwords 0 s) (\<lambda>(n, s1).
       Inr (s1\<lparr>rx_packets := rx_packets s1 + ucast n\<rparr>))"

section \<open>Delivery of a buffer\<close>

text \<open>Reading a large buffer through its kernel address.\<close>

definition lbuf_at :: "u64 \<Rightarrow> nic \<Rightarrow> fault + lbuf" where
  "lbuf_at a s =
     (if a = 0 then Inl NullDeref
      else if a \<notin> live_mem (hist s) then Inl (UseAfterFree a)
      else Inr (lbuf_mem s a))"

definition nf10_user_rx_callback :: "nic \<Rightarrow> bool \<times> nic" where
  "nf10_user_rx_callback s =
     (if 0 < nr_user_mmap s then (True, if user_waiting s then emit WakeUser s else s)
      else (False, s))"

definition xenvif_start_xmit :: "pdesc \<Rightarrow> nic \<Rightarrow> nic" where
  "xenvif_start_xmit desc s =
     emit XenKick (s\<lparr>rx_buf_head := lbuf_queue_tail desc (rx_buf_head s)\<rparr>)"

definition deliver_lbuf :: "config \<Rightarrow> kapi \<Rightarrow> desc \<Rightarrow> nic \<Rightarrow> fault + nic" where
  "deliver_lbuf cfg k d s =
     rbind (lbuf_at (kern_addr d) s) (\<lambda>b.
       let nr_dwords = LBUF_NR_DWORDS b; dword_idx = LBUF_FIRST_DWORD_IDX
       in if \<not> LBUF_IS_VALID nr_dwords then Inr s
          else let (handled, s1) = nf10_user_rx_callback s
               in if handled then Inr s1
                  else if xen cfg \<and> xenvif_up s1 then
                    (let (p, s2) = alloc_desc k s1
                     in if p = 0 then Inr s2
                        else Inr (xenvif_start_xmit (p, d\<lparr>desc_size := push_bit 2 nr_dwords\<rparr>) s2))
                  else rbind (deliver_packets k b dword_idx nr_dwords s1) (\<lambda>s2.
                    Inr (unmap_and_free_lbuf cfg RX d s2)))"

section \<open>The receive interrupt\<close>

definition consume_rx_desc :: "nic \<Rightarrow> fault + desc option \<times> nic" where
  "consume_rx_desc s =
     (if desc_empty RX s then Inr (None, s)
      else rbind (lbuf_at (kern_addr (cons_desc RX s)) s) (\<lambda>b.
        if \<not> LBUF_IS_VALID (LBUF_NR_DWORDS b) then Inr (None, s)
        else let d = cons_desc RX s;
                 s1 = set_desc RX (cons_ptr s RX) (clean_desc d) s
             in Inr (Some d, inc_cons RX s1)))"

text \<open>The refill of one RX buffer: the result of the allocation is not looked at.\<close>

definition refill_rx :: "config \<Rightarrow> kapi \<Rightarrow> nic \<Rightarrow> fault + nic" where
  "refill_rx cfg k s =
     (if \<not> desc_full RX s then
        (let (err, d, s1) = alloc_and_map_lbuf cfg k RX (prod_desc RX s) s;
             s2 = set_desc RX (prod_ptr s1 RX) d s1
         in nf10_lbuf_prepare_rx cfg (of_nat (prod_ptr s2 RX)) s2)
      else Inr s)"

text \<open>\<open>work_done\<close> is the value of \<open>*work_done\<close> before the call; the result carries it after.\<close>

definition nf10_lbuf_process_rx_irq ::
  "config \<Rightarrow> kapi \<Rightarrow> int \<Rightarrow> int \<Rightarrow> nic \<Rightarrow> fault + int \<times> nic" where
  "nf10_lbuf_process_rx_irq cfg k work_done budget s =
     rbind (consume_rx_desc s) (\<lambda>(consumed, s1).
       case consumed of
         None \<Rightarrow> Inr (work_done, s1)
       | Some d \<Rightarrow>
           rbind (refill_rx cfg k s1) (\<lambda>s2.
             let s3 = (if \<not> coherent cfg then emit (SyncForCpu (dma_addr d)) s2 else s2)
             in rbind (deliver_lbuf cfg k d s3) (\<lambda>s4. Inr (1, s4))))"

definition nf10_lbuf_napi_budget :: int where
  "nf10_lbuf_napi_budget = 2"

section \<open>Operations of the character device\<close>

definition nf10_lbuf_user_init :: "nic \<Rightarrow> u64 \<times> nic" where
  "nf10_lbuf_user_init s =
     (push_bit 32 (of_nat (cons_ptr s TX)) OR of_nat (cons_ptr s RX), s\<lparr>nr_user_mmap := 0\<rparr>)"

text \<open>Even quotients are RX buffers, odd ones TX: \<open>rx = ((arg / NR_LBUF) & 1) ^ 1\<close>.\<close>

definition nf10_lbuf_get_pfn :: "u64 \<Rightarrow> nic \<Rightarrow> fault + u64" where
  "nf10_lbuf_get_pfn arg s =
     (let rx = (if (arg div of_nat NR_LBUF) AND 1 = 0 then RX else TX);
          idx = unat (arg mod of_nat NR_LBUF)
      in rbind (get_desc rx idx s) (\<lambda>d. Inr (drop_bit PAGE_SHIFT (dma_addr d))))"

section \<open>Initialisation and release of the module's caches\<close>

definition nf10_lbuf_init :: "kapi \<Rightarrow> nic \<Rightarrow> int \<times> nic" where
  "nf10_lbuf_init k s =
     (let s1 = emit (CacheCreate DescCache (k_cache_create k DescCache)) s
      in if \<not> k_cache_create k DescCache then (- ENOMEM, s1)
         else let s2 = emit (CacheCreate PendingGcCache (k_cache_create k PendingGcCache)) s1
              in if \<not> k_cache_create k PendingGcCache
                 then (- ENOMEM, emit (CacheDestroy DescCache) s2)
                 else (0, s2))"

section \<open>Delivery as the inverse of the encoder\<close>

text \<open>
  The specification: of every packet whose length is that of an Ethernet frame with its check
  sequence, the stack gets the bytes without the last four (the check sequence), in order.
\<close>

definition frame_len_ok :: "pkt \<Rightarrow> bool" where
  "frame_len_ok p \<longleftrightarrow> 60 \<le> length (snd p) \<and> length (snd p) \<le> 1518"

definition frames_of :: "pkt list \<Rightarrow> u8 list list" where
  "frames_of ps = map (\<lambda>p. take (length (snd p) - 4) (snd p)) (filter frame_len_ok ps)"

lemma frames_of_Cons:
  "frames_of (p # ps) = (if frame_len_ok p then [take (length (snd p) - 4) (snd p)] else []) @ frames_of ps"
  by (simp add: frames_of_def)

text \<open>Delivery adds to the history only allocations of socket buffers and frames.\<close>

definition delivery_events :: "kev list \<Rightarrow> bool" where
  "delivery_events es \<longleftrightarrow> (\<forall>e \<in> set es. \<exists>m ok f. e = AllocSkb m ok \<or> e = GroReceive f)"

lemma deliver_one_hist:
  assumes "deliver_one k b i len n s = Inr (n1, s1)"
  shows "\<exists>es. s1 = s\<lparr>hist := hist s @ es\<rparr> \<and> delivery_events es"
proof -
  have "s1 = s \<or> (\<exists>m. s1 = emit (AllocSkb m False) s) \<or>
      (\<exists>m f. s1 = emit (GroReceive f) (emit (AllocSkb m True) s))"
    using assms by (auto simp: deliver_one_def Let_def rbind_eq_Inr split: if_splits)
  then show ?thesis
  proof (elim disjE exE)
    assume "s1 = s"
    then show ?thesis by (intro exI [of _ "[]"]) (simp add: delivery_events_def)
  next
    fix m assume "s1 = emit (AllocSkb m False) s"
    then show ?thesis
      by (intro exI [of _ "[AllocSkb m False]"]) (auto simp: emit_def delivery_events_def)
  next
    fix m f assume "s1 = emit (GroReceive f) (emit (AllocSkb m True) s)"
    then show ?thesis
      by (intro exI [of _ "[AllocSkb m True, GroReceive f]"]) (auto simp: emit_def delivery_events_def)
  qed
qed

lemma delivery_events_append [simp]:
  "delivery_events (es @ fs) \<longleftrightarrow> delivery_events es \<and> delivery_events fs"
  by (auto simp: delivery_events_def)

lemma deliver_from_hist:
  assumes "deliver_from k b i nr n s = Inr (n1, s1)"
  shows "\<exists>es. s1 = s\<lparr>hist := hist s @ es\<rparr> \<and> delivery_events es"
  using assms
proof (induction k b i nr n s arbitrary: n1 s1 rule: deliver_from.induct)
  case (1 k b i nr n s)
  obtain len where len: "LBUF_PKT_LEN b i = Inr len"
    using "1.prems" by (auto simp: deliver_from.simps [of k b i] rbind_eq_Inr)
  obtain n2 s2 where d: "deliver_one k b i len n s = Inr (n2, s2)"
    using "1.prems" len by (auto simp: deliver_from.simps [of k b i] rbind_eq_Inr)
  obtain es where es: "s2 = s\<lparr>hist := hist s @ es\<rparr>" "delivery_events es"
    using deliver_one_hist [OF d] by blast
  show ?case
  proof (cases "LBUF_NEXT_DWORD_IDX i len < nr")
    case True
    then have "deliver_from k b (LBUF_NEXT_DWORD_IDX i len) nr n2 s2 = Inr (n1, s1)"
      using "1.prems" len d by (simp add: deliver_from.simps [of k b i] Let_def)
    then obtain fs where "s1 = s2\<lparr>hist := hist s2 @ fs\<rparr>" "delivery_events fs"
      using "1.IH" [OF len d refl refl True] by blast
    then show ?thesis using es by (intro exI [of _ "es @ fs"]) simp
  next
    case False
    then show ?thesis using "1.prems" len d es by (auto simp: deliver_from.simps [of k b i] Let_def)
  qed
qed

lemma delivery_events_reg_step: "delivery_events es \<Longrightarrow> fold (reg_step off) es r = r"
  by (induction es arbitrary: r) (auto simp: delivery_events_def)

lemma delivery_events_neutral:
  assumes "delivery_events es"
  shows "live_mem (h @ es) = live_mem h" "live_dma k (h @ es) = live_dma k h"
    "frees_ok (h @ es) = frees_ok h" "unmaps_ok k (h @ es) = unmaps_ok k h"
    "last_writeq off (h @ es) = last_writeq off h" "freed_skbs (h @ es) = freed_skbs h"
proof -
  have m: "fold mem_step es S = S" and d: "fold (dma_step k) es S = S" for S
    using assms by (induction es arbitrary: S) (auto simp: delivery_events_def)
  have r: "fold (reg_step off) es x = x" and f: "concat (map freed_skb_of es) = []" for x
    using assms by (induction es arbitrary: x) (auto simp: delivery_events_def)
  show "live_mem (h @ es) = live_mem h" "live_dma k (h @ es) = live_dma k h"
    "frees_ok (h @ es) = frees_ok h" "unmaps_ok k (h @ es) = unmaps_ok k h"
    "last_writeq off (h @ es) = last_writeq off h" "freed_skbs (h @ es) = freed_skbs h"
    using f by (simp_all add: hist_simps m d r freed_skbs_def)
qed

lemma unat_of_nat_u32: "n < 4294967296 \<Longrightarrow> unat (of_nat n :: u32) = n"
  by (simp add: unat_of_nat)

lemma deliver_one_enc:
  assumes alloc: "\<forall>h. k_alloc_skb k h" and b: "holds_at b (unat i) (enc_pkt p)"
    and fits: "unat i + pkt_dwords (length (snd p)) \<le> 524288"
  shows "\<exists>s1. deliver_one k b i (of_nat (length (snd p))) n s =
      Inr (if frame_len_ok p then n + 1 else n, s1) \<and>
    delivered (hist s1) = delivered (hist s) @ frames_of [p]"
proof -
  let ?l = "length (snd p)"
  have l: "?l \<le> 8 * ((?l + 7) div 8)" by simp
  then have "?l < 4294967296" using fits by (simp add: pkt_dwords_def)
  then have u: "unat (of_nat ?l :: u32) = ?l" by (rule unat_of_nat_u32)
  have ok: "\<not> ((of_nat ?l :: u32) < 60 \<or> 1518 < (of_nat ?l :: u32)) \<longleftrightarrow> frame_len_ok p"
    by (auto simp: word_less_nat_alt u frame_len_ok_def)
  show ?thesis
  proof (cases "frame_len_ok p")
    case False
    then show ?thesis using ok by (simp add: deliver_one_def frames_of_def)
  next
    case True
    then have "(4 :: u32) \<le> of_nat ?l" by (simp add: word_le_nat_alt u frame_len_ok_def)
    then have d: "unat (of_nat ?l - 4 :: u32) = ?l - 4" by (simp add: unat_sub u)
    have "unat (i + 2) = unat i + 2" using fits by (subst unat_add_no_wrap) (simp_all add: pkt_dwords_def)
    then have a: "LBUF_PKT_ADDR i = 4 * (unat i + 2)" by (simp add: LBUF_PKT_ADDR_def)
    have "4 * (unat i + 2) + (?l - 4) \<le> LBUF_SIZE" using fits l by (simp add: pkt_dwords_def)
    then have "lbuf_copy b (LBUF_PKT_ADDR i) (unat (of_nat ?l - 4 :: u32)) = Inr (take (?l - 4) (snd p))"
      unfolding a d by (intro lbuf_copy_enc_pkt [OF b]) simp_all
    then show ?thesis using True ok alloc
      by (simp add: deliver_one_def Let_def frames_of_def hist_simps)
  qed
qed

text \<open>One turn of the loop over an encoded packet, with the rest of the packets behind it.\<close>

lemma deliver_from_enc_step:
  assumes alloc: "\<forall>h. k_alloc_skb k h" and b: "holds_at b (unat i) (enc_body (p # ps))"
    and nr: "unat i + length (enc_body (p # ps)) = unat nr" "unat nr \<le> 524288"
  shows "\<exists>s1 j. delivered (hist s1) = delivered (hist s) @ frames_of [p] \<and>
    deliver_from k b i nr n s = (if ps = [] then Inr (n + of_nat (length (frames_of [p])), s1)
      else deliver_from k b j nr (n + of_nat (length (frames_of [p]))) s1) \<and>
    unat j + length (enc_body ps) = unat nr \<and> holds_at b (unat j) (enc_body ps)"
proof -
  let ?l = "length (snd p)"
  note first = lbuf_step.enc_first [OF b nr]
  have len: "LBUF_PKT_LEN b i = Inr (of_nat ?l)" using first(1,2) by (simp add: LBUF_PKT_LEN_Inr)
  obtain s1 where s1: "deliver_one k b i (of_nat ?l) n s = Inr (if frame_len_ok p then n + 1 else n, s1)"
    "delivered (hist s1) = delivered (hist s) @ frames_of [p]"
    using deliver_one_enc [OF alloc first(4,3)] by blast
  have n: "(if frame_len_ok p then n + 1 else n) = n + of_nat (length (frames_of [p]))"
    by (simp add: frames_of_def)
  have "deliver_from k b i nr n s = (if ps = [] then Inr (n + of_nat (length (frames_of [p])), s1)
      else deliver_from k b (LBUF_NEXT_DWORD_IDX i (of_nat ?l)) nr (n + of_nat (length (frames_of [p]))) s1)"
    using first(7) by (simp add: deliver_from.simps [of k b i] len s1(1) Let_def n)
  then show ?thesis using s1(2) first(5,6)
    by (intro exI [of _ s1] exI [of _ "LBUF_NEXT_DWORD_IDX i (of_nat ?l)"]) simp
qed

lemma deliver_from_enc:
  assumes alloc: "\<forall>h. k_alloc_skb k h"
  shows "holds_at b (unat i) (enc_body (p # ps)) \<Longrightarrow>
    unat i + length (enc_body (p # ps)) = unat nr \<Longrightarrow> unat nr \<le> 524288 \<Longrightarrow>
    \<exists>s1. deliver_from k b i nr n s = Inr (n + of_nat (length (frames_of (p # ps))), s1) \<and>
      delivered (hist s1) = delivered (hist s) @ frames_of (p # ps)"
proof (induction ps arbitrary: p i n s)
  case Nil
  then show ?case using deliver_from_enc_step [OF alloc, of b i p "[]" nr s n] by auto
next
  case (Cons q ps)
  let ?m = "n + of_nat (length (frames_of [p]))"
  obtain s1 j where s1: "delivered (hist s1) = delivered (hist s) @ frames_of [p]"
    "deliver_from k b i nr n s = deliver_from k b j nr ?m s1"
    "unat j + length (enc_body (q # ps)) = unat nr" "holds_at b (unat j) (enc_body (q # ps))"
    using deliver_from_enc_step [OF alloc Cons.prems, of s n] by auto
  have f: "frames_of (p # q # ps) = frames_of [p] @ frames_of (q # ps)" by (simp add: frames_of_def)
  obtain s2 where "deliver_from k b j nr ?m s1 = Inr (?m + of_nat (length (frames_of (q # ps))), s2)"
    "delivered (hist s2) = delivered (hist s1) @ frames_of (q # ps)"
    using Cons.IH [OF s1(4,3) Cons.prems(3)] by blast
  then show ?case using s1(1,2) by (simp add: f)
qed

text \<open>The whole buffer: what the card wrote for the packets \<open>ps\<close> is delivered as their frames.\<close>

lemma deliver_packets_enc:
  assumes alloc: "\<forall>h. k_alloc_skb k h" and ps: "ps \<noteq> []"
    and fits: "32 + length (enc_body ps) \<le> LBUF_SIZE div 4"
  shows "\<exists>s1. deliver_packets k (enc_lbuf ps) LBUF_FIRST_DWORD_IDX (LBUF_NR_DWORDS (enc_lbuf ps)) s = Inr s1 \<and>
    delivered (hist s1) = delivered (hist s) @ frames_of ps \<and>
    rx_packets s1 = rx_packets s + of_nat (length (frames_of ps))"
proof -
  let ?b = "enc_lbuf ps"
  obtain p qs where pq: "ps = p # qs" using ps by (cases ps) auto
  have f: "unat LBUF_FIRST_DWORD_IDX = 32" by (simp add: LBUF_FIRST_DWORD_IDX_def NR_RESERVED_DWORDS_def)
  have nr: "unat (LBUF_NR_DWORDS ?b) = 32 + length (enc_body ps)" by (rule enc_lbuf_nr_dwords [OF fits])
  obtain s1 where s1: "deliver_from k ?b LBUF_FIRST_DWORD_IDX (LBUF_NR_DWORDS ?b) 0 s =
      Inr (of_nat (length (frames_of ps)), s1)" "delivered (hist s1) = delivered (hist s) @ frames_of ps"
    using deliver_from_enc [OF alloc, of ?b LBUF_FIRST_DWORD_IDX p qs "LBUF_NR_DWORDS ?b" 0 s]
      enc_lbuf_body [of ps] nr fits f pq by auto
  have "length (frames_of ps) \<le> length ps" by (simp add: frames_of_def)
  moreover have "length ps \<le> length (enc_body ps)"
    by (induction ps) (simp_all add: length_enc_body_Cons pkt_dwords_def)
  ultimately have "length (frames_of ps) < 4294967296" using fits by simp
  then have "ucast (of_nat (length (frames_of ps)) :: u32) = (of_nat (length (frames_of ps)) :: u64)"
    by (simp add: word_unat_eq_iff unsigned_ucast_eq unat_of_nat take_bit_nat_eq_self)
  moreover have "rx_packets s1 = rx_packets s" using deliver_from_hist [OF s1(1)] by auto
  ultimately show ?thesis using s1 by (simp add: deliver_packets_def)
qed

section \<open>Staying inside the buffer\<close>

text \<open>The padded payload is a whole number of qwords whatever the length field says.\<close>

lemma even_padded_dwords: "even (unat (drop_bit 2 ((n :: u32) AND NOT 7)))"
proof -
  have "unat (drop_bit 2 (n AND NOT 7)) = unat n div 8 * 8 div 4"
    by (simp only: seven_mask unat_drop_bit_div unat_and_not_mask) simp
  also have "\<dots> = 2 * (unat n div 8)" by simp
  finally show ?thesis by simp
qed

lemma unat_next_dword_idx:
  assumes "unat i < 524288"
  shows "unat (LBUF_NEXT_DWORD_IDX i n) = unat i + 2 + unat (drop_bit 2 ((n + 7) AND NOT 7) :: u32)"
  unfolding LBUF_NEXT_DWORD_IDX_def
  using assms padded_dwords_le [of "(n + 7) AND NOT 7"] by (intro unat_add_dwords) auto

lemma even_next_dword_idx:
  "unat i < 524288 \<Longrightarrow> even (unat i) \<Longrightarrow> even (unat (LBUF_NEXT_DWORD_IDX i n))"
  using even_padded_dwords [of "n + 7"] by (simp add: unat_next_dword_idx)

text \<open>From an even index inside the valid part, the only fault is a payload copied past the end.\<close>

lemma deliver_from_faults:
  assumes "deliver_from k b i nr n s = Inl e" "even (unat i)" "i < nr" "unat nr \<le> 524288"
  shows "\<exists>j. j < nr \<and> even (unat j) \<and> 60 \<le> b (unat j + 1) \<and> b (unat j + 1) \<le> 1518 \<and>
    LBUF_SIZE < 4 * (unat j + 2) + unat (b (unat j + 1) - 4) \<and> e = OutOfBounds (LBUF_SIZE div 4)"
  using assms
proof (induction k b i nr n s rule: deliver_from.induct)
  case (1 k b i nr n s)
  have ub: "unat i < unat nr" using "1.prems"(3) by (simp add: word_less_nat_alt)
  moreover have "unat i \<noteq> 524287" using "1.prems"(2) by auto
  ultimately have i: "unat i + 1 < 524288" using "1.prems"(4) by linarith
  then have i1: "unat (i + 1) = unat i + 1" by (subst unat_add_no_wrap) auto
  then have len: "LBUF_PKT_LEN b i = Inr (b (unat i + 1))" using i by (simp add: LBUF_PKT_LEN_Inr)
  have a: "LBUF_PKT_ADDR i = 4 * (unat i + 2)"
    using i by (simp add: LBUF_PKT_ADDR_def unat_add_no_wrap)
  show ?case
  proof (cases "deliver_one k b i (b (unat i + 1)) n s")
    case (Inl f)
    then have "e = f" using "1.prems"(1) len by (simp add: deliver_from.simps [of k b i])
    then show ?thesis using Inl "1.prems"(2,3)
      by (intro exI [of _ i]) (auto simp: deliver_one_def lbuf_copy_def a Let_def not_less
          split: if_splits)
  next
    case (Inr r)
    obtain n1 s1 where r: "r = (n1, s1)" by (cases r)
    let ?j = "LBUF_NEXT_DWORD_IDX i (b (unat i + 1))"
    have j: "?j < nr" and rec: "deliver_from k b ?j nr n1 s1 = Inl e"
      using "1.prems"(1) len Inr r by (auto simp: deliver_from.simps [of k b i] Let_def split: if_splits)
    have "even (unat ?j)" using i "1.prems"(2) by (intro even_next_dword_idx) auto
    then show ?thesis using "1.IH" [OF len Inr [unfolded r] refl refl j rec _ j "1.prems"(4)] by blast
  qed
qed

text \<open>
  So a buffer whose valid part leaves room for one frame of the largest size (380 dwords) before
  its end is delivered without a fault, whatever its length fields say.
\<close>

lemma deliver_packets_in_bounds:
  assumes valid: "LBUF_IS_VALID nr" and room: "unat nr \<le> 523908"
  shows "\<exists>s1. deliver_packets k b LBUF_FIRST_DWORD_IDX nr s = Inr s1"
proof -
  have f: "unat LBUF_FIRST_DWORD_IDX = 32" by (simp add: LBUF_FIRST_DWORD_IDX_def NR_RESERVED_DWORDS_def)
  have "deliver_from k b LBUF_FIRST_DWORD_IDX nr 0 s \<noteq> Inl e" for e
  proof
    assume "deliver_from k b LBUF_FIRST_DWORD_IDX nr 0 s = Inl e"
    then obtain j where j: "j < nr" "60 \<le> b (unat j + 1)" "b (unat j + 1) \<le> 1518"
      "LBUF_SIZE < 4 * (unat j + 2) + unat (b (unat j + 1) - 4)"
      using deliver_from_faults [of k b LBUF_FIRST_DWORD_IDX nr 0 s e] valid room f
      by (auto simp: LBUF_IS_VALID_iff word_less_nat_alt)
    have "(4 :: u32) \<le> b (unat j + 1)" using j(2) order.trans [of 4 60 "b (unat j + 1)"] by simp
    then have "unat (b (unat j + 1) - 4) = unat (b (unat j + 1)) - 4" by (simp add: unat_sub)
    moreover have "unat (b (unat j + 1)) \<le> 1518" using j(3) by (simp add: word_le_nat_alt)
    moreover have "unat j < unat nr" using j(1) by (simp add: word_less_nat_alt)
    ultimately show False using j(4) room by simp
  qed
  then show ?thesis
    by (cases "deliver_from k b LBUF_FIRST_DWORD_IDX nr 0 s") (auto simp: deliver_packets_def)
qed

section \<open>A poll of the ring\<close>

text \<open>Consuming a buffer is taking the first descriptor off the ring's queue.\<close>

lemma consume_rx_desc_valid:
  assumes ne: "\<not> desc_empty RX s" and b: "lbuf_at (kern_addr (cons_desc RX s)) s = Inr b"
    and valid: "LBUF_IS_VALID (LBUF_NR_DWORDS b)"
  shows "consume_rx_desc s = Inr (Some (cons_desc RX s), ring_clear RX s)"
  using assms by (simp add: consume_rx_desc_def ring_clear_def Let_def)

lemma refill_rx_ok:
  assumes wf: "ring_wf RX s" and nf: "\<not> desc_full RX s"
    and a: "alloc_and_map_lbuf cfg k RX (prod_desc RX s) s = (0, d, s1)" and d: "kern_addr d \<noteq> 0"
  shows "\<exists>s'. refill_rx cfg k s = Inr s' \<and> rx_only s s' \<and> ring_wf RX s' \<and>
    ring_descs RX s' = ring_descs RX s @ [d] \<and> descs s' RX = (descs s RX)[prod_ptr s RX := d] \<and>
    hist s' = hist s1 @ prepared cfg (prod_ptr s RX) d"
proof -
  note p = ring_wf_bounds(1,3) [OF wf]
  define s' where "s' = (ring_fill RX d s)\<lparr>hist := hist s1 @ prepared cfg (prod_ptr s RX) d\<rparr>"
  obtain h where h: "s1 = s\<lparr>hist := h\<rparr>"
    using alloc_and_map_hist_only [OF a] by (auto simp: hist_only_def)
  have r: "refill_rx cfg k s = Inr s'"
    using nf a p prepare_rx_in_range [of "prod_ptr s RX" "set_desc RX (prod_ptr s RX) d s1" cfg]
    by (simp add: refill_rx_def s'_def ring_fill_def set_desc_def inc_prod_def NR_LBUF_def h)
  have "ring_wf RX s' = ring_wf RX (ring_fill RX d s)"
    "ring_descs RX s' = ring_descs RX (ring_fill RX d s)"
    by (rule ring_fields_cong; simp add: s'_def)+
  then have "ring_wf RX s'" "ring_descs RX s' = ring_descs RX s @ [d]"
    using ring.enq_inv [OF wf nf] ring.enq_elems [OF wf nf] d by (simp_all add: in_use_def)
  moreover have "rx_only s s'"
    unfolding s'_def ring_fill_def inc_prod_def set_desc_def
    by (rule rx_onlyI [where c = "cons_ptr s RX" and h = "hist s1 @ prepared cfg (prod_ptr s RX) d"])
      (simp del: fun_upd_apply)
  ultimately show ?thesis using r
    by (simp add: s'_def ring_fill_def set_desc_def inc_prod_def)
qed

lemma alloc_and_map_last_writeq:
  assumes "alloc_and_map_lbuf cfg k rx d s = (0, d', s')"
  shows "last_writeq off (hist s') = last_writeq off (hist s)"
  using alloc_and_map_pages_0 [OF assms] alloc_and_map_coherent_0 [OF assms]
  by (cases "coherent cfg") (simp_all add: hist_simps)

lemma unmap_and_free_readings [simp]:
  "last_writeq off (hist (unmap_and_free_lbuf cfg rx d s)) = last_writeq off (hist s)"
  "delivered (hist (unmap_and_free_lbuf cfg rx d s)) = delivered (hist s)"
  by (auto simp: unmap_and_free_lbuf_def free_lbuf_def Let_def hist_simps)

lemma bufs_owned_member:
  assumes "bufs_owned k M D (hist s) ds" "d \<in> set ds"
  shows "lbuf_at (kern_addr d) s = Inr (lbuf_mem s (kern_addr d))"
  using bufs_owned_in_use [OF assms] assms by (auto simp: lbuf_at_def bufs_owned_def in_use_def)

text \<open>
  The state between refill and delivery, when the ring was full, armed and owned: the consumed
  descriptor is still owned, beside a ring that is full and armed again.
\<close>

lemma consume_and_refill:
  assumes k: "kernel_ok k" and ready: "rx_ready k M D s" and armed: "rx_armed s"
    and valid: "LBUF_IS_VALID (LBUF_NR_DWORDS (lbuf_mem s (kern_addr (cons_desc RX s))))"
    and a: "alloc_and_map_lbuf cfg k RX (prod_desc RX (ring_clear RX s)) (ring_clear RX s) = (0, d', t)"
  shows "\<exists>s1 s2. consume_rx_desc s = Inr (Some (cons_desc RX s), s1) \<and> refill_rx cfg k s1 = Inr s2 \<and>
    rx_only s s2 \<and> ring_wf RX s2 \<and> rx_armed s2 \<and>
    ring_descs RX s2 = tl (ring_descs RX s) @ [d'] \<and>
    bufs_owned k M D (hist s2) (cons_desc RX s # ring_descs RX s2) \<and>
    delivered (hist s2) = delivered (hist s)"
proof -
  have wf: "ring_wf RX s" and own: "bufs_owned k M D (hist s) (ring_descs RX s)"
    and full: "desc_full RX s"
    using ready armed by (auto simp: rx_ready_def rx_armed_def)
  have len: "length (ring_descs RX s) = NR_LBUF" using desc_full_iff [OF wf] full by simp
  then have ne: "ring_descs RX s \<noteq> []" by (auto simp: NR_LBUF_def)
  define s1 where "s1 = ring_clear RX s"
  have d: "ring_descs RX s = cons_desc RX s # ring_descs RX s1" and wf1: "ring_wf RX s1"
    using ring.deq_elems [OF wf ne] ring.deq_inv [OF wf ne] by (simp_all add: s1_def)
  have h1: "hist s1 = hist s" and p1: "prod_ptr s1 RX = prod_ptr s RX"
    by (simp_all add: s1_def ring_clear_def inc_cons_def set_desc_def)
  have ro1: "rx_only s s1" unfolding s1_def ring_clear_def
    by (rule rx_only_trans [OF rx_only_set_desc rx_only_inc_cons])
  have "lbuf_at (kern_addr (cons_desc RX s)) s = Inr (lbuf_mem s (kern_addr (cons_desc RX s)))"
    by (rule bufs_owned_member [OF own]) (simp add: d)
  then have c: "consume_rx_desc s = Inr (Some (cons_desc RX s), s1)"
    unfolding s1_def using valid ne desc_empty_iff [OF wf] by (intro consume_rx_desc_valid) auto
  have nf: "\<not> desc_full RX s1" using desc_full_iff [OF wf1] len d by simp
  have own1: "bufs_owned k M D (hist s1) (cons_desc RX s # ring_descs RX s1)" using own h1 d by simp
  have own': "bufs_owned k M D (hist t) ((cons_desc RX s # ring_descs RX s1) @ [d'])"
    and d': "kern_addr d' \<noteq> 0"
    using alloc_and_map_success [OF k own1 a [folded s1_def]] by simp_all
  obtain s2 where s2: "refill_rx cfg k s1 = Inr s2" "rx_only s1 s2" "ring_wf RX s2"
    "ring_descs RX s2 = ring_descs RX s1 @ [d']"
    "descs s2 RX = (descs s1 RX)[prod_ptr s1 RX := d']"
    "hist s2 = hist t @ prepared cfg (prod_ptr s1 RX) d'"
    using refill_rx_ok [OF wf1 nf a [folded s1_def] d'] by blast
  have full2: "desc_full RX s2"
    using desc_full_iff [OF s2(3)] s2(4) len d by simp
  have pc: "cons_ptr s RX = prod_ptr s RX" using full by (simp add: desc_full_def)
  have "last_writeq (rx_addr_off i) (hist s2) = Some (dma_addr (descs s2 RX ! i))" if i: "i < NR_LBUF" for i
  proof (cases "i = prod_ptr s RX")
    case True
    then show ?thesis using ring_wf_bounds [OF wf1] p1
      by (simp add: s2(5,6) last_writeq_append)
  next
    case False
    then have "descs s2 RX ! i = descs s RX ! i"
      using p1 pc by (simp add: s2(5) s1_def ring_clear_def inc_cons_def set_desc_def)
    moreover have "last_writeq (rx_addr_off i) (hist s2) = last_writeq (rx_addr_off i) (hist s)"
      using False p1 alloc_and_map_last_writeq [OF a [folded s1_def]] h1
      by (simp add: s2(6) last_writeq_append)
    ultimately show ?thesis using armed i by (simp add: rx_armed_def)
  qed
  then have "rx_armed s2" using full2 by (simp add: rx_armed_def)
  moreover have "bufs_owned k M D (hist s2) (cons_desc RX s # ring_descs RX s2)"
    using own' by (simp add: s2(4,6))
  moreover have "delivered (hist s2) = delivered (hist s)"
    using alloc_and_map_pages_0 [OF a [folded s1_def]] alloc_and_map_coherent_0 [OF a [folded s1_def]] h1
    by (cases "coherent cfg") (simp_all add: s2(6) hist_simps prepared_def)
  ultimately show ?thesis using c s2 d rx_only_trans [OF ro1 s2(2)]
    by (intro exI [of _ s1] exI [of _ s2]) simp
qed

text \<open>Delivery to the network stack, of an owned buffer beside an armed ring.\<close>

lemma rx_armed_cong:
  assumes "descs s' RX = descs s RX" "prod_ptr s' RX = prod_ptr s RX" "cons_ptr s' RX = cons_ptr s RX"
    and "\<And>off. last_writeq off (hist s') = last_writeq off (hist s)"
  shows "rx_armed s' = rx_armed s"
  using assms ring_fields_cong(4) [OF assms(1-3)] by (simp add: rx_armed_def)

lemma deliver_to_stack:
  assumes own: "bufs_owned k M D (hist s) (d # ds)"
    and b: "lbuf_mem s (kern_addr d) = b" "LBUF_IS_VALID (LBUF_NR_DWORDS b)"
    and no: "nr_user_mmap s = 0" "\<not> (xen cfg \<and> xenvif_up s)"
    and del: "deliver_packets k b LBUF_FIRST_DWORD_IDX (LBUF_NR_DWORDS b) s = Inr s1"
  shows "\<exists>s'. deliver_lbuf cfg k d s = Inr s' \<and> bufs_owned k M D (hist s') ds \<and>
    delivered (hist s') = delivered (hist s1) \<and> ring_descs RX s' = ring_descs RX s \<and>
    ring_wf RX s' = ring_wf RX s \<and> rx_armed s' = rx_armed s"
proof -
  obtain n t where t: "deliver_from k b LBUF_FIRST_DWORD_IDX (LBUF_NR_DWORDS b) 0 s = Inr (n, t)"
    and s1: "s1 = t\<lparr>rx_packets := rx_packets t + ucast n\<rparr>"
    using del by (auto simp: deliver_packets_def rbind_eq_Inr)
  obtain es where es: "t = s\<lparr>hist := hist s @ es\<rparr>" "delivery_events es"
    using deliver_from_hist [OF t] by blast
  note ne = delivery_events_neutral [OF es(2)]
  let ?s' = "unmap_and_free_lbuf cfg RX d s1"
  note f = hist_only_fields(1-3) [OF unmap_and_free_hist_only [of s1 cfg RX d]]
  have fs: "descs ?s' RX = descs s RX" "prod_ptr ?s' RX = prod_ptr s RX" "cons_ptr ?s' RX = cons_ptr s RX"
    unfolding f by (simp_all add: s1 es(1))
  have lw: "last_writeq off (hist ?s') = last_writeq off (hist s)" for off
    by (simp add: s1 es(1) ne)
  have "bufs_owned k M D (hist s1) (d # ds)" using own by (simp add: bufs_owned_def s1 es(1) ne)
  then have "bufs_owned k M D (hist ?s') ds" by (rule unmap_and_free_owned)
  moreover have "deliver_lbuf cfg k d s = Inr ?s'"
    using bufs_owned_member [OF own, of d] b no del
    by (auto simp: deliver_lbuf_def Let_def nf10_user_rx_callback_def)
  ultimately show ?thesis
    using ring_fields_cong(1,2) [OF fs] rx_armed_cong [OF fs lw] by simp
qed

lemma process_rx_irq_step:
  assumes k: "kernel_ok k" and ready: "rx_ready k M D s" and armed: "rx_armed s"
    and b: "lbuf_mem s (kern_addr (cons_desc RX s)) = b" "LBUF_IS_VALID (LBUF_NR_DWORDS b)"
    and a: "fst (alloc_and_map_lbuf cfg k RX (prod_desc RX (ring_clear RX s)) (ring_clear RX s)) = 0"
    and no: "nr_user_mmap s = 0" "\<not> (xen cfg \<and> xenvif_up s)"
    and del: "\<And>t. \<exists>t'. deliver_packets k b LBUF_FIRST_DWORD_IDX (LBUF_NR_DWORDS b) t = Inr t' \<and>
      (Q \<longrightarrow> delivered (hist t') = delivered (hist t) @ fs)"
  shows "\<exists>s' d'. nf10_lbuf_process_rx_irq cfg k w budget s = Inr (1, s') \<and> rx_ready k M D s' \<and>
    rx_armed s' \<and> ring_descs RX s' = tl (ring_descs RX s) @ [d'] \<and>
    (Q \<longrightarrow> delivered (hist s') = delivered (hist s) @ fs)"
proof -
  obtain d' t where a': "alloc_and_map_lbuf cfg k RX (prod_desc RX (ring_clear RX s)) (ring_clear RX s) = (0, d', t)"
    using a by (metis prod.collapse)
  let ?d = "cons_desc RX s"
  obtain s1 s2 where r: "consume_rx_desc s = Inr (Some ?d, s1)" "refill_rx cfg k s1 = Inr s2"
    "rx_only s s2" "ring_wf RX s2" "rx_armed s2" "ring_descs RX s2 = tl (ring_descs RX s) @ [d']"
    "bufs_owned k M D (hist s2) (?d # ring_descs RX s2)" "delivered (hist s2) = delivered (hist s)"
    using consume_and_refill [OF k ready armed _ a'] b by blast
  define s3 where "s3 = (if \<not> coherent cfg then emit (SyncForCpu (dma_addr ?d)) s2 else s2)"
  have f3: "descs s3 RX = descs s2 RX" "prod_ptr s3 RX = prod_ptr s2 RX" "cons_ptr s3 RX = cons_ptr s2 RX"
    by (simp_all add: s3_def)
  have lw3: "last_writeq off (hist s3) = last_writeq off (hist s2)" for off
    by (simp add: s3_def hist_simps)
  have e3: "ring_descs RX s3 = ring_descs RX s2" "ring_wf RX s3" "rx_armed s3"
    using ring_fields_cong(1,2) [OF f3] rx_armed_cong [OF f3 lw3] r(4,5) by simp_all
  have own3: "bufs_owned k M D (hist s3) (?d # ring_descs RX s2)"
    using r(7) by (simp add: s3_def bufs_owned_def hist_simps)
  have m3: "lbuf_mem s3 (kern_addr ?d) = b" "nr_user_mmap s3 = 0" "\<not> (xen cfg \<and> xenvif_up s3)"
    "delivered (hist s3) = delivered (hist s)"
    using rx_only_fields [OF r(3)] b(1) no r(8) by (simp_all add: s3_def hist_simps)
  obtain t' where t': "deliver_packets k b LBUF_FIRST_DWORD_IDX (LBUF_NR_DWORDS b) s3 = Inr t'"
    "Q \<longrightarrow> delivered (hist t') = delivered (hist s3) @ fs"
    using del by blast
  obtain s' where s': "deliver_lbuf cfg k ?d s3 = Inr s'" "bufs_owned k M D (hist s') (ring_descs RX s2)"
    "delivered (hist s') = delivered (hist t')" "ring_descs RX s' = ring_descs RX s3"
    "ring_wf RX s'" "rx_armed s'"
    using deliver_to_stack [OF own3 m3(1) b(2) m3(2,3) t'(1)] e3 by blast
  have "nf10_lbuf_process_rx_irq cfg k w budget s = Inr (1, s')"
    using r(1,2) s'(1) by (simp add: nf10_lbuf_process_rx_irq_def s3_def [symmetric] Let_def)
  then show ?thesis using s' e3 r(6) t'(2) m3(4) by (auto simp: rx_ready_def)
qed

section \<open>When the refill fails\<close>

text \<open>
  A refill whose page allocation fails: the slot's kernel address becomes null, its DMA address
  stays, and the card is given that address.
\<close>

lemma refill_rx_no_pages:
  assumes wf: "ring_wf RX s" and nf: "\<not> desc_full RX s" and nc: "\<not> coherent cfg"
    and fail: "k_alloc_pages k (hist s) = 0"
  shows "\<exists>s'. refill_rx cfg k s = Inr s' \<and> rx_only s s' \<and>
    descs s' RX = (descs s RX)[prod_ptr s RX := (prod_desc RX s)\<lparr>kern_addr := 0,
      desc_size := of_nat LBUF_SIZE, desc_offset := 0, skb := 0\<rparr>] \<and>
    prod_ptr s' RX = inc_pointer (prod_ptr s RX) \<and> cons_ptr s' RX = cons_ptr s RX \<and>
    hist s' = hist s @ AllocPages 0 # prepared cfg (prod_ptr s RX) (prod_desc RX s)"
proof -
  note p = ring_wf_bounds(1,3) [OF wf]
  let ?d = "(prod_desc RX s)\<lparr>kern_addr := 0, desc_size := of_nat LBUF_SIZE, desc_offset := 0, skb := 0\<rparr>"
  have a: "alloc_and_map_lbuf cfg k RX (prod_desc RX s) s = (- ENOMEM, ?d, emit (AllocPages 0) s)"
    using nc fail by (simp add: alloc_and_map_lbuf_def alloc_lbuf_def Let_def)
  define t where "t = set_desc RX (prod_ptr s RX) ?d (emit (AllocPages 0) s)"
  have t: "descs t RX = (descs s RX)[prod_ptr s RX := ?d]" "prod_ptr t = prod_ptr s"
    "cons_ptr t = cons_ptr s" "hist t = hist s @ [AllocPages 0]"
    by (simp_all add: t_def set_desc_def)
  have d: "descs t RX ! prod_ptr s RX = ?d" using p by (simp add: t(1))
  define s' where "s' = inc_prod RX (t\<lparr>hist := hist t @ prepared cfg (prod_ptr s RX) ?d\<rparr>)"
  have "refill_rx cfg k s = nf10_lbuf_prepare_rx cfg (of_nat (prod_ptr t RX)) t"
    using nf a by (simp add: refill_rx_def t_def Let_def)
  then have "refill_rx cfg k s = Inr s'"
    using p prepare_rx_in_range [of "prod_ptr s RX" t cfg] t d
    by (simp add: s'_def NR_LBUF_def)
  moreover have "rx_only s s'"
  proof -
    have "rx_only s t" unfolding t_def
      by (rule rx_only_trans [OF hist_only_rx_only [of s "emit (AllocPages 0) s"] rx_only_set_desc]) simp
    moreover have "rx_only t (t\<lparr>hist := hist t @ prepared cfg (prod_ptr s RX) ?d\<rparr>)"
      by (rule hist_only_rx_only) (auto simp: hist_only_def)
    ultimately show ?thesis unfolding s'_def
      using rx_only_trans rx_only_inc_prod by blast
  qed
  ultimately show ?thesis using t by (simp add: s'_def inc_prod_def prepared_def)
qed

section \<open>A concrete receive state\<close>

text \<open>Two armed buffers, the first holding the packets \<open>ps\<close>; \<open>demo_len\<close> is a frame of 64 bytes.\<close>

definition demo_pkts :: "pkt list" where
  "demo_pkts = [(7, replicate 64 5), (8, replicate 8 9), (9, replicate 60 6)]"

definition demo_rx :: nic where
  "demo_rx = nic_init\<lparr>
     descs := (\<lambda>_. [desc_zero\<lparr>kern_addr := 0x200000, dma_addr := 0x200000\<rparr>,
                     desc_zero\<lparr>kern_addr := 0x400000, dma_addr := 0x400000\<rparr>]),
     lbuf_mem := (\<lambda>_. enc_lbuf demo_pkts),
     hist := [AllocPages 0x200000, MapSingle 0x200000 LBUF_SIZE RX 0x200000,
              AllocPages 0x400000, MapSingle 0x400000 LBUF_SIZE RX 0x400000,
              Writeq (rx_addr_off 0) 0x200000, Writeq (rx_addr_off 1) 0x400000]\<rparr>"

lemma demo_rx_fields [simp]:
  "descs demo_rx rx = [desc_zero\<lparr>kern_addr := 0x200000, dma_addr := 0x200000\<rparr>,
     desc_zero\<lparr>kern_addr := 0x400000, dma_addr := 0x400000\<rparr>]"
  "prod_ptr demo_rx rx = 0" "cons_ptr demo_rx rx = 0" "lbuf_mem demo_rx a = enc_lbuf demo_pkts"
  "nr_user_mmap demo_rx = 0" "xenvif_up demo_rx = False"
  "hist demo_rx = [AllocPages 0x200000, MapSingle 0x200000 LBUF_SIZE RX 0x200000,
              AllocPages 0x400000, MapSingle 0x400000 LBUF_SIZE RX 0x400000,
              Writeq (rx_addr_off 0) 0x200000, Writeq (rx_addr_off 1) 0x400000]"
  by (simp_all add: demo_rx_def)

lemma demo_rx_ring:
  "ring_descs RX demo_rx = descs demo_rx RX" "ring_wf RX demo_rx" "desc_full RX demo_rx"
  using ring_all_used [of demo_rx RX] by (simp_all add: NR_LBUF_def in_use_def)

lemma demo_rx_ready: "rx_ready demo_kapi {} {} demo_rx"
  by (simp add: rx_ready_def demo_rx_ring bufs_owned_def hist_simps demo_kapi_def insert_commute)

lemma demo_rx_armed: "rx_armed demo_rx"
  by (simp add: rx_armed_def demo_rx_ring NR_LBUF_def numeral_2_eq_2 All_less_Suc last_writeq_def)

lemma demo_rx_clear [simp]:
  "hist (ring_clear RX s) = hist s" "lbuf_mem (ring_clear RX s) = lbuf_mem s"
  by (simp_all add: ring_clear_def inc_cons_def set_desc_def)

lemma demo_rx_refill:
  "fst (alloc_and_map_lbuf plain_cfg demo_kapi RX d (ring_clear RX demo_rx)) = 0"
  by (simp add: alloc_and_map_lbuf_def alloc_lbuf_def demo_simps del: LBUF_SIZE_value)

lemma demo_pkts_size: "length (enc_body demo_pkts) = 40" "demo_pkts \<noteq> []"
  by (simp_all add: demo_pkts_def length_enc_body_Cons enc_body_Nil pkt_dwords_def)

lemma demo_pkts_valid: "LBUF_IS_VALID (LBUF_NR_DWORDS (enc_lbuf demo_pkts))"
  using enc_lbuf_nr_dwords [of demo_pkts] by (simp add: LBUF_IS_VALID_iff demo_pkts_size)

lemma demo_alloc_skb: "\<forall>h. k_alloc_skb demo_kapi h"
  by (simp add: demo_kapi_def)

section \<open>Properties\<close>

text \<open>
  C9: delivery is the inverse of the buffer format. What the card wrote for a list of packets (any
  contents, any timestamps) is handed to the network stack as exactly the frames of those packets
  whose length is between 60 and 1518 bytes, in order, each without its last four bytes, and the
  statistics count them.
\<close>

theorem deliver_packets_inverts_format:
  assumes "\<forall>h. k_alloc_skb k h" "ps \<noteq> []" "32 + length (enc_body ps) \<le> LBUF_SIZE div 4"
  shows "\<exists>s1. deliver_packets k (enc_lbuf ps) LBUF_FIRST_DWORD_IDX (LBUF_NR_DWORDS (enc_lbuf ps)) s = Inr s1 \<and>
    delivered (hist s1) = delivered (hist s) @ frames_of ps \<and>
    rx_packets s1 = rx_packets s + of_nat (length (frames_of ps))"
  using deliver_packets_enc [OF assms] .

theorem deliver_packets_inverts_format_witness:
  "\<exists>s1. deliver_packets demo_kapi (enc_lbuf demo_pkts) LBUF_FIRST_DWORD_IDX
      (LBUF_NR_DWORDS (enc_lbuf demo_pkts)) nic_init = Inr s1 \<and>
    delivered (hist s1) = [replicate 60 5, replicate 56 6] \<and> rx_packets s1 = 2"
proof -
  have "frames_of demo_pkts = [replicate 60 5, replicate 56 6]"
    by (simp add: frames_of_def demo_pkts_def frame_len_ok_def)
  then show ?thesis
    using deliver_packets_inverts_format [OF demo_alloc_skb demo_pkts_size(2), of nic_init]
    by (simp add: demo_pkts_size hist_simps)
qed

text \<open>
  C10: delivery stays inside the buffer. For every valid header that leaves 380 dwords before the
  end of the buffer, whatever the length fields of the packets say and whether or not socket
  buffers can be allocated, delivery ends without reading outside the buffer.
\<close>

theorem deliver_packets_stays_inside:
  assumes "LBUF_IS_VALID (LBUF_NR_DWORDS b)" "unat (LBUF_NR_DWORDS b) \<le> 523908"
  shows "\<exists>s1. deliver_packets k b LBUF_FIRST_DWORD_IDX (LBUF_NR_DWORDS b) s = Inr s1"
  by (rule deliver_packets_in_bounds [OF assms])

theorem deliver_packets_stays_inside_witness:
  "\<exists>s1. deliver_packets demo_kapi (\<lambda>i. if i = 0 then 300 else 0xFFFFFFFF) LBUF_FIRST_DWORD_IDX
     (LBUF_NR_DWORDS (\<lambda>i. if i = 0 then 300 else 0xFFFFFFFF)) nic_init = Inr s1"
  by (rule deliver_packets_stays_inside)
    (simp_all add: LBUF_IS_VALID_iff LBUF_NR_DWORDS_def NR_RESERVED_DWORDS_def)

text \<open>A buffer whose second packet header is its last qword.\<close>

definition overrun_lbuf :: lbuf where
  "overrun_lbuf i = (if i = 0 then 262128 else if i = 33 then 2097008 else if i = 524287 then 1518 else 0)"

text \<open>
  The validity check does not rule out a read past the end. In this buffer the number of
  qwords is the largest valid one, the first packet's length is out of range (so it is skipped),
  and the second header is the buffer's last qword and announces 1518 bytes: delivery copies its
  payload from behind the end of the buffer.
\<close>

theorem valid_header_can_overrun:
  "LBUF_IS_VALID (LBUF_NR_DWORDS overrun_lbuf) \<and>
   deliver_packets demo_kapi overrun_lbuf LBUF_FIRST_DWORD_IDX (LBUF_NR_DWORDS overrun_lbuf) s =
     Inl (OutOfBounds (LBUF_SIZE div 4))"
proof -
  have nr: "LBUF_NR_DWORDS overrun_lbuf = 524288"
    by (simp add: LBUF_NR_DWORDS_def overrun_lbuf_def NR_RESERVED_DWORDS_def)
  have i1: "LBUF_NEXT_DWORD_IDX 32 2097008 = 524286"
    by (simp add: LBUF_NEXT_DWORD_IDX_def drop_bit_eq_div)
  have l1: "LBUF_PKT_LEN overrun_lbuf 32 = Inr 2097008"
    by (simp add: LBUF_PKT_LEN_def lbuf_read_def overrun_lbuf_def)
  have l2: "LBUF_PKT_LEN overrun_lbuf 524286 = Inr 1518"
    by (simp add: LBUF_PKT_LEN_def lbuf_read_def overrun_lbuf_def)
  have "deliver_from demo_kapi overrun_lbuf 524286 524288 0 s = Inl (OutOfBounds (LBUF_SIZE div 4))"
    using demo_alloc_skb
    by (simp add: deliver_from.simps [of _ _ 524286] l2 deliver_one_def Let_def lbuf_copy_def LBUF_PKT_ADDR_def)
  then have "deliver_from demo_kapi overrun_lbuf 32 524288 0 s = Inl (OutOfBounds (LBUF_SIZE div 4))"
    by (simp add: deliver_from.simps [of _ _ 32] l1 deliver_one_def i1 Let_def)
  then show ?thesis
    by (simp add: deliver_packets_def nr LBUF_IS_VALID_iff LBUF_FIRST_DWORD_IDX_def NR_RESERVED_DWORDS_def)
qed

text \<open>
  C11: a poll, end to end. With the RX ring full, armed and owning its buffers, and the card having
  written the packets \<open>ps\<close> into the buffer at the consumer, a poll whose refill succeeds delivers
  exactly the frames of \<open>ps\<close> in order, moves the queue by one buffer, releases the delivered buffer,
  and leaves the ring full, armed and owning its buffers again: what one poll needs, it restores.
\<close>

theorem poll_delivers_and_rearms:
  assumes "kernel_ok k" "rx_ready k M D s" "rx_armed s"
    and "lbuf_mem s (kern_addr (cons_desc RX s)) = enc_lbuf ps" "ps \<noteq> []"
    and "32 + length (enc_body ps) \<le> LBUF_SIZE div 4" "\<forall>h. k_alloc_skb k h"
    and "fst (alloc_and_map_lbuf cfg k RX (prod_desc RX (ring_clear RX s)) (ring_clear RX s)) = 0"
    and "nr_user_mmap s = 0" "\<not> (xen cfg \<and> xenvif_up s)"
  shows "\<exists>s' d'. nf10_lbuf_process_rx_irq cfg k 0 budget s = Inr (1, s') \<and>
    delivered (hist s') = delivered (hist s) @ frames_of ps \<and>
    ring_descs RX s' = tl (ring_descs RX s) @ [d'] \<and> rx_ready k M D s' \<and> rx_armed s'"
proof -
  have "LBUF_IS_VALID (LBUF_NR_DWORDS (enc_lbuf ps))"
    using enc_lbuf_nr_dwords [OF assms(6)] enc_body_pos [OF assms(5)] assms(6)
    by (simp add: LBUF_IS_VALID_iff)
  moreover have "\<exists>t'. deliver_packets k (enc_lbuf ps) LBUF_FIRST_DWORD_IDX (LBUF_NR_DWORDS (enc_lbuf ps)) t =
      Inr t' \<and> (True \<longrightarrow> delivered (hist t') = delivered (hist t) @ frames_of ps)" for t
    using deliver_packets_enc [OF assms(7,5,6)] by blast
  ultimately show ?thesis
    using process_rx_irq_step [OF assms(1-4) _ assms(8-10), of True "frames_of ps" 0 budget] by blast
qed

theorem poll_delivers_and_rearms_witness:
  "\<exists>s'. nf10_lbuf_process_rx_irq plain_cfg demo_kapi 0 64 demo_rx = Inr (1, s') \<and>
    delivered (hist s') = [replicate 60 5, replicate 56 6] \<and> rx_armed s'"
proof -
  have "frames_of demo_pkts = [replicate 60 5, replicate 56 6]"
    by (simp add: frames_of_def demo_pkts_def frame_len_ok_def)
  moreover have "delivered (hist demo_rx) = []" by (simp add: hist_simps)
  ultimately show ?thesis
    using poll_delivers_and_rearms [OF demo_kernel_ok demo_rx_ready demo_rx_armed _ demo_pkts_size(2) _
        demo_alloc_skb demo_rx_refill, of 64]
    by (simp add: demo_pkts_size) blast
qed

text \<open>
  C12: a poll of any buffer but one whose header claims more than 523908 dwords (so that a frame might
  not fit before the buffer's end; such a header can make delivery run past it, see
  \<open>valid_header_can_overrun\<close>). A header that is not valid ends the poll with nothing changed. Under a
  valid one, whatever follows it, a poll whose refill succeeds does not fault, moves the queue by one
  buffer and releases the delivered one. Either way the ring is full, armed and owns its buffers.
\<close>

theorem poll_keeps_ring_armed:
  assumes "kernel_ok k" "rx_ready k M D s" "rx_armed s"
    and "lbuf_mem s (kern_addr (cons_desc RX s)) = b" "unat (LBUF_NR_DWORDS b) \<notin> {523908 <.. 524288}"
    and "LBUF_IS_VALID (LBUF_NR_DWORDS b) \<Longrightarrow>
      fst (alloc_and_map_lbuf cfg k RX (prod_desc RX (ring_clear RX s)) (ring_clear RX s)) = 0"
    and "nr_user_mmap s = 0" "\<not> (xen cfg \<and> xenvif_up s)"
  shows "\<exists>w s'. nf10_lbuf_process_rx_irq cfg k 0 budget s = Inr (w, s') \<and> rx_ready k M D s' \<and> rx_armed s' \<and>
    (if LBUF_IS_VALID (LBUF_NR_DWORDS b) then w = 1 \<and> (\<exists>d'. ring_descs RX s' = tl (ring_descs RX s) @ [d'])
     else w = 0 \<and> s' = s)"
proof (cases "LBUF_IS_VALID (LBUF_NR_DWORDS b)")
  case True
  then have "unat (LBUF_NR_DWORDS b) \<le> 523908" using assms(5) by (simp add: LBUF_IS_VALID_iff)
  then have "\<exists>t'. deliver_packets k b LBUF_FIRST_DWORD_IDX (LBUF_NR_DWORDS b) t = Inr t' \<and>
      (False \<longrightarrow> delivered (hist t') = delivered (hist t) @ [])" for t
    using deliver_packets_in_bounds [OF True] by blast
  then show ?thesis
    using process_rx_irq_step [OF assms(1-4) True assms(6) [OF True] assms(7,8), of False "[]" 0 budget] True
    by auto
next
  case False
  have wf: "ring_wf RX s" and own: "bufs_owned k M D (hist s) (ring_descs RX s)" and full: "desc_full RX s"
    using assms(2,3) by (auto simp: rx_ready_def rx_armed_def)
  have ne: "ring_descs RX s \<noteq> []" using desc_full_iff [OF wf] full by (auto simp: NR_LBUF_def)
  have "cons_desc RX s \<in> set (ring_descs RX s)" by (subst ring.deq_elems [OF wf ne]) simp
  then have "lbuf_at (kern_addr (cons_desc RX s)) s = Inr b"
    using bufs_owned_member [OF own] assms(4) by simp
  then have "nf10_lbuf_process_rx_irq cfg k 0 budget s = Inr (0, s)"
    using False by (simp add: nf10_lbuf_process_rx_irq_def consume_rx_desc_def)
  then show ?thesis using False assms(2,3) by auto
qed

theorem poll_keeps_ring_armed_witness:
  "\<exists>s'. nf10_lbuf_process_rx_irq plain_cfg demo_kapi 0 64 demo_rx = Inr (1, s') \<and>
    rx_ready demo_kapi {} {} s' \<and> rx_armed s'"
proof -
  have "\<exists>w s'. nf10_lbuf_process_rx_irq plain_cfg demo_kapi 0 64 demo_rx = Inr (w, s') \<and>
    rx_ready demo_kapi {} {} s' \<and> rx_armed s' \<and>
    (if LBUF_IS_VALID (LBUF_NR_DWORDS (enc_lbuf demo_pkts)) then w = 1 \<and>
      (\<exists>d'. ring_descs RX s' = tl (ring_descs RX demo_rx) @ [d']) else w = 0 \<and> s' = demo_rx)"
    by (rule poll_keeps_ring_armed [OF demo_kernel_ok demo_rx_ready demo_rx_armed _ _ demo_rx_refill])
      (simp_all add: enc_lbuf_nr_dwords demo_pkts_size)
  then show ?thesis using demo_pkts_valid by auto
qed

text \<open>
  C13: the refill does not look at the result of the allocation. When no pages are left, a poll
  still delivers the buffer, unmaps it and frees it, but has just written that buffer's DMA address
  into the card's address register: the register holds an address that is no longer mapped.
\<close>

theorem failed_refill_arms_unmapped_address:
  assumes "rx_ready k M D s" "rx_armed s" "kernel_ok k" "\<not> coherent cfg"
    and "k_alloc_pages k (hist s) = 0"
    and "lbuf_mem s (kern_addr (cons_desc RX s)) = b" "LBUF_IS_VALID (LBUF_NR_DWORDS b)"
    and "unat (LBUF_NR_DWORDS b) \<le> 523908" "nr_user_mmap s = 0" "\<not> (xen cfg \<and> xenvif_up s)"
  shows "\<exists>s'. nf10_lbuf_process_rx_irq cfg k 0 budget s = Inr (1, s') \<and>
    last_writeq (rx_addr_off (prod_ptr s RX)) (hist s') = Some (dma_addr (cons_desc RX s)) \<and>
    dma_addr (cons_desc RX s) \<notin> live_dma k (hist s') \<and>
    kern_addr (cons_desc RX s) \<notin> live_mem (hist s')"
proof -
  have wf: "ring_wf RX s" and own: "bufs_owned k M D (hist s) (ring_descs RX s)" and full: "desc_full RX s"
    using assms(1,2) by (auto simp: rx_ready_def rx_armed_def)
  have len: "length (ring_descs RX s) = NR_LBUF" using desc_full_iff [OF wf] full by simp
  then have ne: "ring_descs RX s \<noteq> []" by (auto simp: NR_LBUF_def)
  let ?d = "cons_desc RX s" and ?s1 = "ring_clear RX s"
  have d: "ring_descs RX s = ?d # ring_descs RX ?s1" and wf1: "ring_wf RX ?s1"
    using ring.deq_elems [OF wf ne] ring.deq_inv [OF wf ne] by simp_all
  have "lbuf_at (kern_addr ?d) s = Inr b"
    using bufs_owned_member [OF own, of ?d] d assms(6) by simp
  then have c: "consume_rx_desc s = Inr (Some ?d, ?s1)"
    using assms(7) ne desc_empty_iff [OF wf] by (intro consume_rx_desc_valid) auto
  have nf: "\<not> desc_full RX ?s1" using desc_full_iff [OF wf1] len d by simp
  obtain s2 where s2: "refill_rx cfg k ?s1 = Inr s2" "rx_only ?s1 s2"
    "hist s2 = hist s @ AllocPages 0 # prepared cfg (prod_ptr ?s1 RX) (prod_desc RX ?s1)"
    using refill_rx_no_pages [OF wf1 nf assms(4)] assms(5) by auto
  have p: "prod_ptr ?s1 RX = prod_ptr s RX" "prod_desc RX ?s1 = clean_desc ?d"
    using full ring_wf_bounds [OF wf]
    by (simp_all add: ring_clear_def inc_cons_def set_desc_def prod_desc_def desc_full_def cons_desc_def)
  have h2: "hist s2 = (hist s @ [AllocPages 0]) @ prepared cfg (prod_ptr s RX) (clean_desc ?d)"
    using s2(3) p by simp
  let ?s3 = "emit (SyncForCpu (dma_addr ?d)) s2"
  have own3: "bufs_owned k M D (hist ?s3) (?d # ring_descs RX ?s1)"
    using own d unfolding bufs_owned_def emit_fields h2 by (simp add: hist_simps)
  have m3: "lbuf_mem ?s3 (kern_addr ?d) = b" "nr_user_mmap ?s3 = 0" "\<not> (xen cfg \<and> xenvif_up ?s3)"
    using rx_only_fields [OF s2(2)] assms(6,9,10) by (simp_all add: ring_clear_def inc_cons_def set_desc_def)
  obtain t' where t': "deliver_packets k b LBUF_FIRST_DWORD_IDX (LBUF_NR_DWORDS b) ?s3 = Inr t'"
    using deliver_packets_in_bounds [OF assms(7,8)] by blast
  obtain n t where t: "deliver_from k b LBUF_FIRST_DWORD_IDX (LBUF_NR_DWORDS b) 0 ?s3 = Inr (n, t)"
    "t' = t\<lparr>rx_packets := rx_packets t + ucast n\<rparr>"
    using t' by (auto simp: deliver_packets_def rbind_eq_Inr)
  obtain es where es: "t = ?s3\<lparr>hist := hist ?s3 @ es\<rparr>" "delivery_events es"
    using deliver_from_hist [OF t(1)] by blast
  let ?s' = "unmap_and_free_lbuf cfg RX ?d t'"
  have dl: "deliver_lbuf cfg k ?d ?s3 = Inr ?s'"
    using bufs_owned_member [OF own3, of ?d] assms(7) m3 t'
    by (auto simp: deliver_lbuf_def Let_def nf10_user_rx_callback_def)
  then have own': "bufs_owned k M D (hist ?s') (ring_descs RX ?s1)"
    using deliver_to_stack [OF own3 m3(1) assms(7) m3(2,3) t'] by auto
  have "last_writeq (rx_addr_off (prod_ptr s RX)) (hist ?s') = Some (dma_addr ?d)"
    by (simp add: t(2) es(1) last_writeq_append h2 clean_desc_def delivery_events_reg_step [OF es(2)])
  moreover have "dma_addr ?d \<notin> live_dma k (hist ?s')" "kern_addr ?d \<notin> live_mem (hist ?s')"
    using own own' unfolding d bufs_owned_def by auto
  moreover have "nf10_lbuf_process_rx_irq cfg k 0 budget s = Inr (1, ?s')"
    using c s2(1) dl assms(4) by (simp add: nf10_lbuf_process_rx_irq_def Let_def)
  ultimately show ?thesis by blast
qed

theorem failed_refill_arms_unmapped_address_witness:
  "\<exists>s'. nf10_lbuf_process_rx_irq plain_cfg (demo_kapi\<lparr>k_alloc_pages := (\<lambda>_. 0)\<rparr>) 0 64 demo_rx = Inr (1, s') \<and>
    last_writeq (rx_addr_off 0) (hist s') = Some 0x200000 \<and>
    0x200000 \<notin> live_dma (demo_kapi\<lparr>k_alloc_pages := (\<lambda>_. 0)\<rparr>) (hist s')"
proof -
  let ?k = "demo_kapi\<lparr>k_alloc_pages := (\<lambda>_. 0)\<rparr>"
  have l: "live_dma ?k h = live_dma demo_kapi h" for h by (rule live_dma_cong) simp
  have k: "kernel_ok ?k" using demo_kernel_ok by (simp add: kernel_ok_def l)
  have r: "rx_ready ?k {} {} demo_rx"
    by (simp add: rx_ready_def demo_rx_ring bufs_owned_def hist_simps demo_kapi_def insert_commute)
  have e: "unat (LBUF_NR_DWORDS (enc_lbuf demo_pkts)) \<le> 523908"
    by (simp add: enc_lbuf_nr_dwords demo_pkts_size)
  have p: "k_alloc_pages ?k (hist demo_rx) = 0" by simp
  have b: "lbuf_mem demo_rx (kern_addr (cons_desc RX demo_rx)) = enc_lbuf demo_pkts" by simp
  have c: "\<not> coherent plain_cfg" "nr_user_mmap demo_rx = 0" "\<not> (xen plain_cfg \<and> xenvif_up demo_rx)" by simp_all
  show ?thesis
    using failed_refill_arms_unmapped_address [OF r demo_rx_armed k c(1) p b demo_pkts_valid e c(2,3), of 64]
    by (auto simp: cons_desc_def)
qed

text \<open>A poll while a user process has buffers mapped, up to its end.\<close>

lemma prepare_rx_cons: "nf10_lbuf_prepare_rx cfg i s = Inr s' \<Longrightarrow> cons_ptr s' = cons_ptr s"
  by (auto simp: nf10_lbuf_prepare_rx_def nf10_writeq_def nf10_writel_def inc_prod_def Let_def rbind_eq_Inr)

lemma refill_rx_cons:
  assumes "refill_rx cfg k s = Inr s'"
  shows "cons_ptr s' = cons_ptr s"
proof (cases "desc_full RX s")
  case True
  then show ?thesis using assms by (simp add: refill_rx_def)
next
  case False
  obtain err d s1 where a: "alloc_and_map_lbuf cfg k RX (prod_desc RX s) s = (err, d, s1)" by (cases "alloc_and_map_lbuf cfg k RX (prod_desc RX s) s")
  then have "cons_ptr s1 = cons_ptr s" using alloc_and_map_hist_only [OF a] by (auto simp: hist_only_def)
  moreover have "cons_ptr s' = cons_ptr (set_desc RX (prod_ptr s1 RX) d s1)"
    using assms False a by (intro prepare_rx_cons) (simp add: refill_rx_def Let_def)
  ultimately show ?thesis by (simp add: set_desc_def)
qed

lemma user_mode_poll:
  assumes "kernel_ok k" "rx_ready k M D s" "rx_armed s"
    and valid: "LBUF_IS_VALID (LBUF_NR_DWORDS (lbuf_mem s (kern_addr (cons_desc RX s))))"
    and a: "alloc_and_map_lbuf cfg k RX (prod_desc RX (ring_clear RX s)) (ring_clear RX s) = (0, d', t)"
    and user: "0 < nr_user_mmap s"
  shows "\<exists>s'. nf10_lbuf_process_rx_irq cfg k 0 budget s = Inr (1, s') \<and> ring_wf RX s' \<and>
    set (descs s' RX) = set (tl (ring_descs RX s) @ [d']) \<and>
    bufs_owned k M D (hist s') (cons_desc RX s # tl (ring_descs RX s) @ [d']) \<and>
    lbuf_mem s' = lbuf_mem s \<and> delivered (hist s') = delivered (hist s) \<and>
    cons_ptr s' RX = inc_pointer (cons_ptr s RX) \<and> (user_waiting s \<longrightarrow> WakeUser \<in> set (hist s'))"
proof -
  let ?d = "cons_desc RX s"
  obtain s1 s2 where r: "consume_rx_desc s = Inr (Some ?d, s1)" "refill_rx cfg k s1 = Inr s2"
    "rx_only s s2" "ring_wf RX s2" "rx_armed s2" "ring_descs RX s2 = tl (ring_descs RX s) @ [d']"
    "bufs_owned k M D (hist s2) (?d # ring_descs RX s2)" "delivered (hist s2) = delivered (hist s)"
    using consume_and_refill [OF assms(1-3) valid a] by blast
  define s3 where "s3 = (if \<not> coherent cfg then emit (SyncForCpu (dma_addr ?d)) s2 else s2)"
  have own3: "bufs_owned k M D (hist s3) (?d # ring_descs RX s2)"
    using r(7) by (simp add: s3_def bufs_owned_def hist_simps)
  have u: "0 < nr_user_mmap s3" "lbuf_mem s3 = lbuf_mem s" "user_waiting s3 = user_waiting s"
    using rx_only_fields [OF r(3)] user by (simp_all add: s3_def)
  define s' where "s' = snd (nf10_user_rx_callback s3)"
  have s': "s' = (if user_waiting s then emit WakeUser s3 else s3)"
    using u by (simp add: s'_def nf10_user_rx_callback_def)
  have "deliver_lbuf cfg k ?d s3 = Inr s'"
    using bufs_owned_member [OF own3, of ?d] valid u
    by (simp add: deliver_lbuf_def Let_def nf10_user_rx_callback_def s'_def)
  then have e: "nf10_lbuf_process_rx_irq cfg k 0 budget s = Inr (1, s')"
    using r(1,2) by (simp add: nf10_lbuf_process_rx_irq_def Let_def s3_def)
  have "bufs_owned k M D (hist s') (?d # ring_descs RX s2)"
    using own3 by (simp add: s' bufs_owned_def hist_simps)
  moreover have "desc_full RX s2" using r(5) by (simp add: rx_armed_def)
  then have "set (descs s2 RX) = set (ring_descs RX s2)"
    using full_ring_mset [OF r(4)] mset_eq_setD by blast
  moreover have f: "descs s' = descs s2" "prod_ptr s' = prod_ptr s2" "cons_ptr s' = cons_ptr s2" by (simp_all add: s' s3_def)
  moreover have "ring_wf RX s'" using ring_fields_cong(2) [of s' RX s2] f r(4) by simp
  moreover have "cons_ptr s1 RX = inc_pointer (cons_ptr s RX)"
    using r(1) by (auto simp: consume_rx_desc_def inc_cons_def set_desc_def Let_def rbind_eq_Inr split: if_splits)
  then have "cons_ptr s2 RX = inc_pointer (cons_ptr s RX)" using refill_rx_cons [OF r(2)] by simp
  moreover have "delivered (hist s') = delivered (hist s)" using r(8) by (simp add: s' s3_def hist_simps)
  moreover have "lbuf_mem s' = lbuf_mem s" using u(2) by (simp add: s')
  moreover have "user_waiting s \<longrightarrow> WakeUser \<in> set (hist s')" by (simp add: s')
  ultimately show ?thesis using e r(6) by (intro exI [of _ s']) simp
qed

text \<open>
  While a user process has buffers mapped (\<open>nr_user_mmap > 0\<close>), a poll takes the filled buffer
  off the ring, replaces it by a fresh one and only wakes the process: the buffer it took off stays
  allocated and mapped, but no descriptor of the ring names it any more, so nothing in the driver
  can ever release it.
\<close>

theorem user_mode_poll_leaks_buffer:
  assumes "kernel_ok k" "rx_ready k M D s" "rx_armed s"
    and "lbuf_mem s (kern_addr (cons_desc RX s)) = b" "LBUF_IS_VALID (LBUF_NR_DWORDS b)"
    and "fst (alloc_and_map_lbuf cfg k RX (prod_desc RX (ring_clear RX s)) (ring_clear RX s)) = 0"
    and "0 < nr_user_mmap s"
  shows "\<exists>s'. nf10_lbuf_process_rx_irq cfg k 0 budget s = Inr (1, s') \<and>
    kern_addr (cons_desc RX s) \<in> live_mem (hist s') \<and>
    dma_addr (cons_desc RX s) \<in> live_dma k (hist s') \<and>
    kern_addr (cons_desc RX s) \<notin> kern_addr ` set (descs s' RX)"
proof -
  obtain d' t where a: "alloc_and_map_lbuf cfg k RX (prod_desc RX (ring_clear RX s)) (ring_clear RX s) = (0, d', t)"
    using assms(6) by (metis prod.collapse)
  show ?thesis
    using user_mode_poll [OF assms(1-3) _ a assms(7), of budget] assms(4,5)
    by (auto simp: bufs_owned_def)
qed

theorem user_mode_poll_leaks_buffer_witness:
  "\<exists>s'. nf10_lbuf_process_rx_irq plain_cfg demo_kapi 0 64 (demo_rx\<lparr>nr_user_mmap := 2\<rparr>) = Inr (1, s') \<and>
    0x200000 \<in> live_mem (hist s') \<and> 0x200000 \<notin> kern_addr ` set (descs s' RX)"
proof -
  let ?s = "demo_rx\<lparr>nr_user_mmap := 2\<rparr>"
  have f: "descs ?s RX = descs demo_rx RX" "prod_ptr ?s RX = prod_ptr demo_rx RX"
    "cons_ptr ?s RX = cons_ptr demo_rx RX" by simp_all
  have r: "rx_ready demo_kapi {} {} ?s" "rx_armed ?s"
    using demo_rx_ready demo_rx_armed ring_fields_cong(1,2) [OF f] rx_armed_cong [OF f]
    by (simp_all add: rx_ready_def)
  have a: "fst (alloc_and_map_lbuf plain_cfg demo_kapi RX d (ring_clear RX ?s)) = 0" for d
    by (simp add: alloc_and_map_lbuf_def alloc_lbuf_def demo_simps del: LBUF_SIZE_value)
  have b: "lbuf_mem ?s (kern_addr (cons_desc RX ?s)) = enc_lbuf demo_pkts" by simp
  have u: "0 < nr_user_mmap ?s" by simp
  show ?thesis
    using user_mode_poll_leaks_buffer [OF demo_kernel_ok r b demo_pkts_valid a u, of 64]
    by (auto simp: cons_desc_def)
qed

end
