(* ===== verification/Nf10_User.thy ===== *)
theory Nf10_User
  imports Lbuf_Rx
begin

text \<open>
  Direct user access: the character device of \<open>sw/driver/nf10_user.c\<close> over the operations a DMA
  engine provides (\<open>struct nf10_user_ops\<close>, here a record and a locale of what they promise). The
  user program is in \<open>Lbuf_App\<close>.
\<close>

section \<open>The operations of a DMA engine\<close>

record user_ops =
  uo_init :: "nic \<Rightarrow> u64 \<times> nic"
  uo_get_pfn :: "u64 \<Rightarrow> nic \<Rightarrow> fault + u64"
  uo_prepare_rx_buffer :: "u64 \<Rightarrow> nic \<Rightarrow> fault + nic"

definition lbuf_user_ops :: "config \<Rightarrow> user_ops" where
  "lbuf_user_ops cfg = \<lparr>uo_init = nf10_lbuf_user_init, uo_get_pfn = nf10_lbuf_get_pfn,
     uo_prepare_rx_buffer = nf10_lbuf_prepare_rx cfg\<rparr>"

section \<open>The character device\<close>

definition nf10_open :: "user_ops option \<Rightarrow> int" where
  "nf10_open ops = (case ops of None \<Rightarrow> - EINVAL | Some _ \<Rightarrow> 0)"

definition PAGE_MASK :: u64 where
  "PAGE_MASK = NOT (mask PAGE_SHIFT)"

text \<open>
  \<open>remap\<close> is \<open>remap_pfn_range\<close>: it gets the page frame number and the size and returns 0 or an error;
  the history shows the call that succeeds.
\<close>

definition nf10_mmap ::
  "user_ops \<Rightarrow> (u64 \<Rightarrow> u64 \<Rightarrow> int) \<Rightarrow> u64 \<Rightarrow> u64 \<Rightarrow> nic \<Rightarrow> fault + int \<times> nic" where
  "nf10_mmap ops remap vm_start vm_end s =
     (if vm_start AND NOT PAGE_MASK \<noteq> 0 \<or> vm_end AND NOT PAGE_MASK \<noteq> 0 then Inr (- EINVAL, s)
      else let size = vm_end - vm_start
           in rbind (uo_get_pfn ops (ucast (nr_user_mmap s)) s) (\<lambda>pfn.
                let err = remap pfn size
                in if err = 0 then Inr (err, (emit (RemapPfn pfn size) s)\<lparr>nr_user_mmap := nr_user_mmap s + 1\<rparr>)
                   else Inr (err, s)))"

definition SIOCDEVPRIVATE :: u32 where "SIOCDEVPRIVATE = 0x89F0"
definition NF10_IOCTL_CMD_INIT :: u32 where "NF10_IOCTL_CMD_INIT = SIOCDEVPRIVATE + 0"
definition NF10_IOCTL_CMD_PREPARE_RX :: u32 where "NF10_IOCTL_CMD_PREPARE_RX = SIOCDEVPRIVATE + 1"
definition NF10_IOCTL_CMD_WAIT_INTR :: u32 where "NF10_IOCTL_CMD_WAIT_INTR = SIOCDEVPRIVATE + 2"

lemmas ioctl_cmds = SIOCDEVPRIVATE_def NF10_IOCTL_CMD_INIT_def NF10_IOCTL_CMD_PREPARE_RX_def
  NF10_IOCTL_CMD_WAIT_INTR_def

text \<open>
  \<open>copy_ok\<close>: whether \<open>copy_to_user\<close> succeeds; \<open>sleep\<close>: what happens to the driver's state while the
  process sleeps in \<open>io_schedule\<close>. The result is the return value, the quadword copied out (for
  \<open>INIT\<close>) and the state.
\<close>

definition nf10_ioctl ::
  "user_ops \<Rightarrow> bool \<Rightarrow> (nic \<Rightarrow> nic) \<Rightarrow> u32 \<Rightarrow> u64 \<Rightarrow> nic \<Rightarrow> fault + int \<times> u64 option \<times> nic" where
  "nf10_ioctl ops copy_ok sleep cmd arg s =
     (if cmd = NF10_IOCTL_CMD_INIT then
        (let (cons, s1) = uo_init ops s
         in if \<not> copy_ok then Inr (- EFAULT, None, s1) else Inr (0, Some cons, s1))
      else if cmd = NF10_IOCTL_CMD_PREPARE_RX then
        rbind (uo_prepare_rx_buffer ops arg s) (\<lambda>s1. Inr (0, None, s1))
      else if cmd = NF10_IOCTL_CMD_WAIT_INTR then
        Inr (0, None, (sleep (s\<lparr>user_waiting := True\<rparr>))\<lparr>user_waiting := False\<rparr>)
      else Inr (- EINVAL, None, s))"

text \<open>A call of \<open>mmap\<close> that succeeds.\<close>

lemma nf10_mmap_success:
  assumes "nf10_mmap ops remap a b s = Inr (0, s')"
  shows "\<exists>pfn. uo_get_pfn ops (ucast (nr_user_mmap s)) s = Inr pfn \<and>
    s' = (emit (RemapPfn pfn (b - a)) s)\<lparr>nr_user_mmap := nr_user_mmap s + 1\<rparr>"
proof (cases "a AND NOT PAGE_MASK \<noteq> 0 \<or> b AND NOT PAGE_MASK \<noteq> 0")
  case True
  then show ?thesis using assms unfolding nf10_mmap_def by (simp add: EINVAL_def)
next
  case False
  then show ?thesis using assms unfolding nf10_mmap_def if_not_P [OF False] Let_def
    by (cases "uo_get_pfn ops (ucast (nr_user_mmap s)) s") (simp_all split: if_splits)
qed

section \<open>What the device relies on\<close>

text \<open>
  The contract of \<open>nf10_user_ops\<close> as the device uses it: initialising ends every user mapping's
  claim (the counter is zero) and tells the consumer indices; looking a frame number up and handing
  a buffer back do not change the counter.
\<close>

locale user_ops_contract =
  fixes ops :: user_ops
  assumes init_counter: "nr_user_mmap (snd (uo_init ops s)) = 0"
    and init_index: "cons_ptr s RX < 2 ^ 32 \<Longrightarrow> unat (fst (uo_init ops s) AND mask 32) = cons_ptr s RX"
    and prepare_counter: "uo_prepare_rx_buffer ops arg s = Inr s' \<Longrightarrow> nr_user_mmap s' = nr_user_mmap s"
begin

text \<open>After \<open>INIT\<close> the receive path serves the network stack again.\<close>

lemma ioctl_init_leaves_user_mode:
  assumes "nf10_ioctl ops copy_ok sleep NF10_IOCTL_CMD_INIT arg s = Inr (r, v, s')"
  shows "\<not> fst (nf10_user_rx_callback s')"
proof -
  have "s' = snd (uo_init ops s)"
    using assms by (auto simp: nf10_ioctl_def case_prod_beta split: if_splits)
  then show ?thesis using init_counter [of s] by (simp add: nf10_user_rx_callback_def)
qed

lemma ioctl_init_value:
  assumes "nf10_ioctl ops True sleep NF10_IOCTL_CMD_INIT arg s = Inr (r, v, s')" "cons_ptr s RX < 2 ^ 32"
  shows "\<exists>cons. v = Some cons \<and> unat (cons AND mask 32) = cons_ptr s RX"
  using assms init_index [of s] by (auto simp: nf10_ioctl_def case_prod_beta)

text \<open>A successful \<open>mmap\<close> enters user mode; handing buffers back does not leave it.\<close>

lemma mmap_enters_user_mode:
  assumes "nf10_mmap ops remap a b s = Inr (0, s')" "nr_user_mmap s \<noteq> - 1"
  shows "fst (nf10_user_rx_callback s')"
proof -
  have "nr_user_mmap s' = nr_user_mmap s + 1"
    using nf10_mmap_success [OF assms(1)] by auto
  moreover have "nr_user_mmap s + 1 \<noteq> 0" using assms(2) eq_neg_iff_add_eq_0 [of "nr_user_mmap s" 1] by simp
  ultimately show ?thesis by (simp add: nf10_user_rx_callback_def word_gt_0)
qed

lemma prepare_keeps_user_mode:
  assumes "nf10_ioctl ops copy_ok sleep NF10_IOCTL_CMD_PREPARE_RX arg s = Inr (r, v, s')"
  shows "fst (nf10_user_rx_callback s') = fst (nf10_user_rx_callback s)"
proof -
  have "uo_prepare_rx_buffer ops arg s = Inr s'"
    using assms by (auto simp: nf10_ioctl_def rbind_eq_Inr ioctl_cmds)
  then show ?thesis using prepare_counter by (simp add: nf10_user_rx_callback_def)
qed

end

text \<open>The large-buffer engine keeps the contract.\<close>

lemma or_mask_low:
  fixes a b :: u64
  assumes "unat b < 2 ^ 32"
  shows "unat ((push_bit 32 a OR b) AND mask 32) = unat b"
proof -
  have "take_bit 32 (push_bit 32 a OR b) = take_bit 32 b"
    by (simp add: take_bit_or take_bit_push_bit)
  then have "(push_bit 32 a OR b) AND mask 32 = b AND mask 32" by (simp add: take_bit_eq_mask)
  then show ?thesis using assms by (simp add: unat_and_mask)
qed

interpretation lbuf_user: user_ops_contract "lbuf_user_ops cfg" for cfg
proof
  fix s arg s'
  show "nr_user_mmap (snd (uo_init (lbuf_user_ops cfg) s)) = 0"
    by (simp add: lbuf_user_ops_def nf10_lbuf_user_init_def)
  show "unat (fst (uo_init (lbuf_user_ops cfg) s) AND mask 32) = cons_ptr s RX"
    if "cons_ptr s RX < 2 ^ 32"
  proof -
    have "unat (of_nat (cons_ptr s RX) :: u64) = cons_ptr s RX" using that by (simp add: unat_of_nat)
    then show ?thesis using that or_mask_low [of "of_nat (cons_ptr s RX)" "of_nat (cons_ptr s TX)"]
      by (simp add: lbuf_user_ops_def nf10_lbuf_user_init_def)
  qed
  show "nr_user_mmap s' = nr_user_mmap s"
    if "uo_prepare_rx_buffer (lbuf_user_ops cfg) arg s = Inr s'"
    using prepare_rx_rx_only [of cfg arg s s'] that
    by (simp add: lbuf_user_ops_def rx_only_fields(9))
qed

end
