(* ===== verification/Lbuf_App.thy ===== *)
theory Lbuf_App
  imports Nf10_User
begin

text \<open>
  The user program \<open>sw/apps/lbuf_rx.c\<close>: the walk over one mapped buffer, its start, and the main loop
  that alternates between the two buffers; and its composition with the character device and the
  driver's poll. Its indices are C \<open>int\<close>s: comparisons are signed.
\<close>

section \<open>The walk over one buffer\<close>

lemma app_next_measure:
  assumes "unat (i + 1) < 524288"
  shows "unat (i + 1) < unat (app_next_dword_idx i n + 1)"
proof -
  let ?p = "drop_bit 2 n + (if 4 \<le> unat n mod 8 then 1 else if 0 < unat n mod 8 then 2 else 0) :: u32"
  have p: "unat ?p \<le> 1073741824"
    using div_le_mono [of "unat n + 7" 4294967302 8] unat_lt_pow [of n] by (simp add: app_padded_dwords)
  have e: "app_next_dword_idx i n + 1 = (i + 1) + (?p + 2)" by (simp add: app_next_alt)
  have x: "unat (?p + 2) = unat ?p + 2" using p by (subst unat_add_no_wrap) auto
  show ?thesis unfolding e using assms p x by (subst unat_add_no_wrap) auto
qed

function app_scan :: "lbuf \<Rightarrow> u32 \<Rightarrow> u32 \<Rightarrow> u32 \<Rightarrow> fault + u32" where
  "app_scan b dword_idx max_dword_idx n0 =
     rbind (lbuf_read b (unat (dword_idx + 1))) (\<lambda>pkt_len.
       let n = (if pkt_len < 60 \<or> 1518 < pkt_len then n0 else n0 + 1);
           next_idx = app_next_dword_idx dword_idx pkt_len
       in if sint next_idx < sint max_dword_idx then app_scan b next_idx max_dword_idx n
          else Inr n)"
  by pat_completeness auto

termination
  by (relation "measure (\<lambda>(b, i, m, n). 2 ^ 32 - unat (i + 1))")
    (use app_next_measure unat_lt_pow in
      \<open>auto simp: lbuf_read_def split: if_splits intro!: diff_less_mono2\<close>)

declare app_scan.simps [simp del]

text \<open>One buffer: an invalid header counts nothing.\<close>

definition app_buffer :: "lbuf \<Rightarrow> fault + u32" where
  "app_buffer b =
     (let nr_qwords = b 0; max_dword_idx = push_bit 1 nr_qwords + 32
      in if nr_qwords = 0 \<or> 524288 < sint max_dword_idx then Inr 0
         else app_scan b 32 max_dword_idx 0)"

section \<open>The main loop\<close>

record app =
  rx_cons :: u32
  total_rx_packets :: u64

text \<open>
  The start: open the device (\<open>ops\<close> is the adapter's \<open>user_ops\<close>), \<open>INIT\<close>, and one \<open>mmap\<close> for each
  buffer. \<open>va i\<close> is the address the kernel picks for the \<open>i\<close>-th mapping; \<open>buf[i]\<close> is the frame that is
  mapped there. \<open>None\<close> is the exit with -1.
\<close>

fun app_mmap_from ::
  "user_ops \<Rightarrow> (u64 \<Rightarrow> u64 \<Rightarrow> int) \<Rightarrow> (nat \<Rightarrow> u64) \<Rightarrow> nat \<Rightarrow> nat \<Rightarrow> nic \<Rightarrow> fault + u64 list option \<times> nic" where
  "app_mmap_from ops remap va i 0 s = Inr (Some [], s)"
| "app_mmap_from ops remap va i (Suc n) s =
     rbind (nf10_mmap ops remap (va i) (va i + of_nat LBUF_SIZE) s) (\<lambda>(err, s1).
       if err \<noteq> 0 then Inr (None, s1)
       else rbind (app_mmap_from ops remap va (i + 1) n s1) (\<lambda>(buf, s2).
         Inr (map_option ((#) (last (remapped (hist s1)))) buf, s2)))"

definition app_start ::
  "user_ops option \<Rightarrow> bool \<Rightarrow> (u64 \<Rightarrow> u64 \<Rightarrow> int) \<Rightarrow> (nat \<Rightarrow> u64) \<Rightarrow> nic \<Rightarrow> fault + (app \<times> u64 list) option \<times> nic" where
  "app_start ops copy_ok remap va s =
     (if nf10_open ops < 0 then Inr (None, s)
      else rbind (nf10_ioctl (the ops) copy_ok id NF10_IOCTL_CMD_INIT 0 s) (\<lambda>(r, cons, s1).
        if r \<noteq> 0 then Inr (None, s1)
        else rbind (app_mmap_from (the ops) remap va 0 NR_LBUF s1) (\<lambda>(buf, s2).
          Inr (map_option (Pair \<lparr>rx_cons = ucast (the cons), total_rx_packets = 0\<rparr>) buf, s2))))"

text \<open>
  One turn after the wait: read the buffer at \<open>rx_cons\<close>, hand it back through the device, and turn
  to the other buffer. \<open>bufs\<close> is what the two mappings show at that time.
\<close>

definition app_turn ::
  "user_ops \<Rightarrow> (nic \<Rightarrow> nic) \<Rightarrow> (nat \<Rightarrow> lbuf) \<Rightarrow> app \<Rightarrow> nic \<Rightarrow> fault + app \<times> nic" where
  "app_turn ops sleep bufs a s =
     rbind (nf10_ioctl ops True sleep NF10_IOCTL_CMD_WAIT_INTR 0 s) (\<lambda>(_, _, s1).
       if 2 \<le> unat (rx_cons a) then Inl (OutOfBounds (unat (rx_cons a)))
       else rbind (app_buffer (bufs (unat (rx_cons a)))) (\<lambda>n.
         rbind (nf10_ioctl ops True sleep NF10_IOCTL_CMD_PREPARE_RX (ucast (rx_cons a)) s1) (\<lambda>(_, _, s2).
           Inr (a\<lparr>total_rx_packets := total_rx_packets a + ucast n,
                  rx_cons := if rx_cons a \<noteq> 0 then 0 else 1\<rparr>, s2))))"

section \<open>The program and the kernel see the same packets\<close>

text \<open>
  The indices at which the driver's walk finds a packet, and buffers whose length fields there cannot
  wrap when they are rounded up.
\<close>

inductive pkt_start :: "lbuf \<Rightarrow> u32 \<Rightarrow> u32 \<Rightarrow> bool" for b nr where
  pkt_start_first: "pkt_start b nr LBUF_FIRST_DWORD_IDX"
| pkt_start_next: "pkt_start b nr i \<Longrightarrow> LBUF_PKT_LEN b i = Inr len \<Longrightarrow> LBUF_NEXT_DWORD_IDX i len < nr \<Longrightarrow>
    pkt_start b nr (LBUF_NEXT_DWORD_IDX i len)"

definition lens_small :: "lbuf \<Rightarrow> u32 \<Rightarrow> bool" where
  "lens_small b nr \<longleftrightarrow>
     (\<forall>i len. pkt_start b nr i \<longrightarrow> LBUF_PKT_LEN b i = Inr len \<longrightarrow> unat len \<le> 4294967288)"

lemma next_dword_idx_agree:
  assumes "unat i < 524288" "unat n \<le> 4294967288"
  shows "LBUF_NEXT_DWORD_IDX i n = app_next_dword_idx i n" "unat (LBUF_NEXT_DWORD_IDX i n) < 2 ^ 31"
proof -
  show "LBUF_NEXT_DWORD_IDX i n = app_next_dword_idx i n"
    using lbuf_step.step_agree [OF app_step_stepper, of i n] assms by simp
  have "unat (LBUF_NEXT_DWORD_IDX i n) = unat i + pkt_dwords (unat n)"
    using lbuf_step.step_exact [of i n] assms by simp
  then show "unat (LBUF_NEXT_DWORD_IDX i n) < 2 ^ 31" using assms by (simp add: pkt_dwords_def)
qed

lemma deliver_one_count:
  assumes "\<forall>h. k_alloc_skb k h" "deliver_one k b i len n s = Inr (n1, s1)"
  shows "n1 = (if len < 60 \<or> 1518 < len then n else n + 1)"
  using assms by (auto simp: deliver_one_def Let_def rbind_eq_Inr split: if_splits)

lemma app_scan_deliver:
  assumes "\<forall>h. k_alloc_skb k h" "lens_small b nr" "unat nr \<le> 524288" "unat i < 524288"
    and "pkt_start b nr i" "deliver_from k b i nr n s = Inr (n', s')"
  shows "app_scan b i nr n = Inr n'"
  using assms
proof (induction k b i nr n s rule: deliver_from.induct)
  case (1 k b i nr n s)
  obtain len where len: "LBUF_PKT_LEN b i = Inr len"
    using "1.prems"(6) by (auto simp: deliver_from.simps [of k b i] rbind_eq_Inr)
  obtain n1 s1 where d: "deliver_one k b i len n s = Inr (n1, s1)"
    using "1.prems"(6) len by (auto simp: deliver_from.simps [of k b i] rbind_eq_Inr)
  note n1 = deliver_one_count [OF "1.prems"(1) d]
  have r: "lbuf_read b (unat (i + 1)) = Inr len" using len by (simp add: LBUF_PKT_LEN_def)
  have small: "unat len \<le> 4294967288"
    using "1.prems"(2,5) len by (auto simp: lens_small_def)
  note a = next_dword_idx_agree [OF "1.prems"(4) small]
  let ?j = "LBUF_NEXT_DWORD_IDX i len"
  have lt: "sint (app_next_dword_idx i len) < sint nr \<longleftrightarrow> ?j < nr"
    using sint_less_iff_unat [of ?j nr] a "1.prems"(3) by (simp add: word_less_nat_alt)
  show ?case
  proof (cases "?j < nr")
    case True
    then have "unat ?j < 524288" using "1.prems"(3) by (simp add: word_less_nat_alt)
    moreover have "deliver_from k b ?j nr n1 s1 = Inr (n', s')"
      using "1.prems"(6) len d True by (simp add: deliver_from.simps [of k b i] Let_def)
    ultimately have "app_scan b ?j nr n1 = Inr n'"
      using "1.IH" [OF len d refl refl True] "1.prems"(1-3) pkt_start_next [OF "1.prems"(5) len True] by blast
    then show ?thesis using r lt True a(1) n1 by (simp add: app_scan.simps [of b i] Let_def)
  next
    case False
    then have "n1 = n'" using "1.prems"(6) len d by (simp add: deliver_from.simps [of k b i] Let_def)
    then show ?thesis using r lt False n1 by (simp add: app_scan.simps [of b i] Let_def)
  qed
qed

text \<open>What the card wrote for the packets \<open>ps\<close>.\<close>

lemma app_scan_enc:
  "holds_at b (unat i) (enc_body ps) \<Longrightarrow> unat i + length (enc_body ps) = unat nr \<Longrightarrow> unat nr \<le> 524288 \<Longrightarrow>
    ps \<noteq> [] \<Longrightarrow> app_scan b i nr n = Inr (n + of_nat (length (frames_of ps)))"
proof (induction ps arbitrary: i n)
  case Nil
  then show ?case by simp
next
  case (Cons p ps)
  let ?l = "length (snd p)"
  note first = app_step.enc_first [OF Cons.prems(1-3)]
  have "?l < 4294967296" using first(3) by (simp add: pkt_dwords_def)
  then have u: "unat (of_nat ?l :: u32) = ?l" by (simp add: unat_of_nat)
  have n: "(if (of_nat ?l :: u32) < 60 \<or> 1518 < (of_nat ?l :: u32) then n else n + 1) =
      n + of_nat (length (frames_of [p]))"
    by (auto simp: word_less_nat_alt u frames_of_def frame_len_ok_def)
  have f: "length (frames_of (p # ps)) = length (frames_of [p]) + length (frames_of ps)"
    by (simp add: frames_of_def)
  have "app_scan b i nr n = (if ps = [] then Inr (n + of_nat (length (frames_of [p])))
      else app_scan b (app_next_dword_idx i (of_nat ?l)) nr (n + of_nat (length (frames_of [p]))))"
    using first(1,2,8) n by (simp add: app_scan.simps [of b i] lbuf_read_def Let_def)
  then show ?case
    using Cons.IH [OF first(6,5) Cons.prems(3)] f by (cases "ps = []") (simp_all add: frames_of_def [of "[]"] add.assoc)
qed

lemma app_buffer_enc:
  assumes "ps \<noteq> []" "32 + length (enc_body ps) \<le> LBUF_SIZE div 4"
  shows "app_buffer (enc_lbuf ps) = Inr (of_nat (length (frames_of ps)))"
proof -
  let ?b = "enc_lbuf ps" and ?nr = "push_bit 1 (enc_lbuf ps 0) + 32"
  have nr: "unat ?nr = 32 + length (enc_body ps)"
    using enc_lbuf_nr_dwords [OF assms(2)] by (simp add: LBUF_NR_DWORDS_def NR_RESERVED_DWORDS_def)
  have "enc_lbuf ps 0 \<noteq> 0"
  proof
    assume "enc_lbuf ps 0 = 0"
    then show False using nr enc_body_pos [OF assms(1)] by simp
  qed
  moreover have "\<not> 524288 < sint ?nr"
    using sint_less_iff_unat [of 524288 ?nr] nr assms(2) by simp
  moreover have "app_scan ?b 32 ?nr 0 = Inr (0 + of_nat (length (frames_of ps)))"
    using assms nr enc_lbuf_body [of ps] by (intro app_scan_enc) simp_all
  ultimately show ?thesis by (simp add: app_buffer_def Let_def)
qed

section \<open>A session of the program with the driver\<close>

text \<open>While the process sleeps, the driver polls once; the process then reads its mappings: \<open>phys\<close> says
  which buffer lies in a frame.\<close>

definition poll_while_asleep :: "config \<Rightarrow> kapi \<Rightarrow> nic \<Rightarrow> nic" where
  "poll_while_asleep cfg k s =
     (case nf10_lbuf_process_rx_irq cfg k 0 nf10_lbuf_napi_budget s of Inl _ \<Rightarrow> s | Inr (_, s') \<Rightarrow> s')"

definition user_view :: "(u64 \<Rightarrow> u64) \<Rightarrow> u64 list \<Rightarrow> nic \<Rightarrow> nat \<Rightarrow> lbuf" where
  "user_view phys buf s i = lbuf_mem s (phys (buf ! i))"

lemma app_mmap_step:
  assumes "nf10_mmap (lbuf_user_ops cfg) remap a b s = Inr (0, s')" "nr_user_mmap s = of_nat i" "i < NR_LBUF"
    "length (descs s RX) = NR_LBUF"
  shows "\<exists>n. s' = s\<lparr>nr_user_mmap := of_nat (i + 1),
      hist := hist s @ [RemapPfn (drop_bit PAGE_SHIFT (dma_addr (descs s RX ! i))) n]\<rparr>"
proof -
  obtain pfn where p: "nf10_lbuf_get_pfn (ucast (nr_user_mmap s)) s = Inr pfn"
    "s' = (emit (RemapPfn pfn (b - a)) s)\<lparr>nr_user_mmap := nr_user_mmap s + 1\<rparr>"
    using nf10_mmap_success [OF assms(1)] by (auto simp: lbuf_user_ops_def)
  have i: "i = 0 \<or> i = 1" using assms(3) by (auto simp: NR_LBUF_def)
  then have "pfn = drop_bit PAGE_SHIFT (dma_addr (descs s RX ! i))"
    using p(1) assms(2,4)
    by (elim disjE) (auto simp: nf10_lbuf_get_pfn_def get_desc_def NR_LBUF_def Let_def rbind_eq_Inr split: if_splits)
  then show ?thesis using p(2) assms(2) i
    by (intro exI [of _ "b - a"] nic.equality) (auto simp: emit_def)
qed

text \<open>What a start that succeeds leaves behind.\<close>

lemma app_start_success:
  assumes "app_start (Some (lbuf_user_ops cfg)) ok remap va s = Inr (Some (a, buf), s1)"
    and wf: "ring_wf RX s"
  shows "unat (rx_cons a) = cons_ptr s RX \<and> total_rx_packets a = 0 \<and>
    buf = map (\<lambda>d. drop_bit PAGE_SHIFT (dma_addr d)) (descs s RX) \<and>
    (\<exists>n m. s1 = s\<lparr>nr_user_mmap := 2, hist := hist s @ [RemapPfn (buf ! 0) n, RemapPfn (buf ! 1) m]\<rparr>)"
proof -
  note b = ring_wf_bounds [OF wf]
  let ?s0 = "s\<lparr>nr_user_mmap := 0\<rparr>" and ?pfn = "\<lambda>i. drop_bit PAGE_SHIFT (dma_addr (descs s RX ! i))"
  obtain cons t where c: "nf10_ioctl (lbuf_user_ops cfg) ok id NF10_IOCTL_CMD_INIT 0 s = Inr (0, cons, t)"
    "app_mmap_from (lbuf_user_ops cfg) remap va 0 NR_LBUF t = Inr (Some buf, s1)"
    "a = \<lparr>rx_cons = ucast (the cons), total_rx_packets = 0\<rparr>"
    using assms(1) by (auto simp: app_start_def nf10_open_def rbind_eq_Inr split: if_splits)
  have t: "t = ?s0" "ok" "cons = Some (fst (nf10_lbuf_user_init s))"
    using c(1) by (auto simp: nf10_ioctl_def lbuf_user_ops_def nf10_lbuf_user_init_def EFAULT_def split: if_splits)
  have "cons_ptr s RX < 2 ^ 32" using b(2) by (simp add: NR_LBUF_def)
  then have "unat (fst (nf10_lbuf_user_init s) AND mask 32) = cons_ptr s RX"
    using lbuf_user.init_index [of s cfg] by (simp add: lbuf_user_ops_def)
  then have cons: "unat (rx_cons a) = cons_ptr s RX"
    using c(3) t(3) by (simp add: unsigned_ucast_eq unat_and_mask take_bit_eq_mod)
  obtain s2 s3 where m: "nf10_mmap (lbuf_user_ops cfg) remap (va 0) (va 0 + of_nat LBUF_SIZE) ?s0 = Inr (0, s2)"
    "nf10_mmap (lbuf_user_ops cfg) remap (va 1) (va 1 + of_nat LBUF_SIZE) s2 = Inr (0, s3)"
    "s1 = s3" "buf = [last (remapped (hist s2)), last (remapped (hist s3))]"
    using c(2) t(1) by (auto simp: NR_LBUF_def numeral_2_eq_2 rbind_eq_Inr split: if_splits)
  obtain n where s2: "s2 = ?s0\<lparr>nr_user_mmap := 1, hist := hist s @ [RemapPfn (?pfn 0) n]\<rparr>"
    using app_mmap_step [OF m(1), of 0] b by auto
  obtain n' where s3: "s3 = s2\<lparr>nr_user_mmap := 2, hist := hist s2 @ [RemapPfn (?pfn 1) n']\<rparr>"
    using app_mmap_step [OF m(2), of 1] b s2 by (auto simp: NR_LBUF_def)
  have buf: "buf = [?pfn 0, ?pfn 1]" using m(4) s2 s3 by (simp add: remapped_snoc remapped_def)
  have "buf = map (\<lambda>d. drop_bit PAGE_SHIFT (dma_addr d)) (descs s RX)"
    unfolding buf using b(3) by (intro nth_equalityI) (auto simp: NR_LBUF_def nth_Cons less_Suc_eq split: nat.splits)
  moreover have "s1 = s\<lparr>nr_user_mmap := 2, hist := hist s @ [RemapPfn (buf ! 0) n, RemapPfn (buf ! 1) n']\<rparr>"
    unfolding buf using m(3) s2 s3 by simp
  ultimately show ?thesis using cons c(3) by auto
qed

lemma remaps_keep:
  assumes "set es \<subseteq> range (case_prod RemapPfn)"
  shows "bufs_owned k M D (h @ es) ds = bufs_owned k M D h ds" "last_writeq off (h @ es) = last_writeq off h"
    "delivered (h @ es) = delivered h"
proof -
  have "fold mem_step es S = S \<and> fold (dma_step k) es S = S \<and> fold (reg_step off) es r = r \<and> delivered es = []" for S r
    using assms by (induction es arbitrary: S r) (auto simp: hist_simps)
  then show "bufs_owned k M D (h @ es) ds = bufs_owned k M D h ds" "last_writeq off (h @ es) = last_writeq off h"
    "delivered (h @ es) = delivered h"
    by (simp_all add: bufs_owned_def hist_simps)
qed

lemma frames_le_body: "length (frames_of ps) \<le> length (enc_body ps)"
  by (induction ps) (simp_all add: frames_of_Cons length_enc_body_Cons pkt_dwords_def frames_of_def [of "[]"])

lemma ucast_of_nat_small: "n < 4294967296 \<Longrightarrow> (ucast (of_nat n :: u32) :: u64) = of_nat n"
  by (simp add: word_unat_eq_iff unsigned_ucast_eq unat_of_nat take_bit_eq_mod)

section \<open>Properties\<close>

text \<open>
  C14: the three parsers of the format advance alike. From every index inside a buffer, and for
  every length field that does not wrap when it is rounded up to a qword, the macro of the driver,
  the user program's and \<open>my_driver.c\<close>'s step-by-step arithmetic reach the same next packet, and
  that packet lies at least one header qword further on.
\<close>

theorem parsers_step_alike:
  assumes "unat i < LBUF_SIZE div 4" "unat n \<le> 4294967288"
  shows "LBUF_NEXT_DWORD_IDX i n = app_next_dword_idx i n \<and>
    my_next_dw_index i n = app_next_dword_idx i n \<and> unat i + 2 \<le> unat (LBUF_NEXT_DWORD_IDX i n)"
  using lbuf_step.step_agree [OF app_step_stepper assms] my_step.step_agree [OF app_step_stepper assms]
    lbuf_step.step_forward [OF assms(1)] by blast

theorem parsers_step_alike_witness:
  "LBUF_NEXT_DWORD_IDX 32 61 = app_next_dword_idx 32 61 \<and>
    my_next_dw_index 32 61 = app_next_dword_idx 32 61 \<and> 34 \<le> unat (LBUF_NEXT_DWORD_IDX 32 61)"
proof -
  have p: "unat (32 :: u32) < LBUF_SIZE div 4" "unat (61 :: u32) \<le> 4294967288" by simp_all
  have e: "unat (32 :: u32) + 2 = 34" by simp
  show ?thesis by (rule parsers_step_alike [OF p, unfolded e])
qed

text \<open>
  C15: the user program and the kernel see the same packets. On every buffer with a valid header
  whose length fields do not wrap where the driver's walk reads them, if the kernel's delivery ends without a fault (with socket
  buffers always available) and delivers \<open>n\<close> packets, the user program counts \<open>n\<close> packets in it.
\<close>

theorem app_counts_delivered_packets:
  assumes "\<forall>h. k_alloc_skb k h" "lens_small b (LBUF_NR_DWORDS b)" "LBUF_IS_VALID (LBUF_NR_DWORDS b)" "b 0 \<noteq> 0"
    and "deliver_from k b LBUF_FIRST_DWORD_IDX (LBUF_NR_DWORDS b) 0 s = Inr (n, s')"
  shows "app_buffer b = Inr n"
proof -
  have nr: "unat (LBUF_NR_DWORDS b) \<le> 524288" using assms(3) by (simp add: LBUF_IS_VALID_iff)
  have "\<not> sint (524288 :: u32) < sint (LBUF_NR_DWORDS b)"
    using sint_less_iff_unat [of 524288 "LBUF_NR_DWORDS b"] nr by simp
  moreover have "app_scan b 32 (LBUF_NR_DWORDS b) 0 = Inr n"
    using app_scan_deliver [OF assms(1,2) nr _ pkt_start_first assms(5)]
    by (simp add: LBUF_FIRST_DWORD_IDX_def NR_RESERVED_DWORDS_def)
  ultimately show ?thesis using assms(4)
    by (simp add: app_buffer_def Let_def LBUF_NR_DWORDS_def NR_RESERVED_DWORDS_def)
qed

definition tiny_lbuf :: lbuf where
  "tiny_lbuf i = (if i = 0 then 9 else if i = 33 then 64 else 0)"

theorem app_counts_delivered_packets_witness: "app_buffer tiny_lbuf = Inr 1"
proof -
  have nr: "LBUF_NR_DWORDS tiny_lbuf = 50"
    by (simp add: LBUF_NR_DWORDS_def tiny_lbuf_def NR_RESERVED_DWORDS_def)
  have len: "LBUF_PKT_LEN tiny_lbuf 32 = Inr 64"
    by (simp add: LBUF_PKT_LEN_def lbuf_read_def tiny_lbuf_def)
  have next_idx: "LBUF_NEXT_DWORD_IDX 32 64 = 50"
    by (simp add: LBUF_NEXT_DWORD_IDX_def drop_bit_eq_div)
  have "\<exists>s'. deliver_from demo_kapi tiny_lbuf 32 50 0 demo_rx = Inr (1, s')"
    using demo_alloc_skb
    by (simp add: deliver_from.simps [of _ _ 32] len deliver_one_def next_idx Let_def lbuf_copy_def
        LBUF_PKT_ADDR_def)
  moreover have "lens_small tiny_lbuf 50" by (auto simp: lens_small_def LBUF_PKT_LEN_Inr tiny_lbuf_def)
  ultimately show ?thesis
    using app_counts_delivered_packets [OF demo_alloc_skb, of tiny_lbuf demo_rx 1]
    by (auto simp: nr LBUF_IS_VALID_iff LBUF_FIRST_DWORD_IDX_def NR_RESERVED_DWORDS_def tiny_lbuf_def)
qed

text \<open>
  C16: the program and the driver together. The receive ring is full, armed and owns its buffers, and
  the card has written the packets \<open>ps\<close> into the buffer at the consumer. When the program's start has
  succeeded, its first turn (with the driver's poll while it sleeps) counts exactly the packets of
  \<open>ps\<close> the kernel would deliver, the process is woken, the network stack gets nothing, and the
  program's index is the driver's consumer again. But the ring then has a buffer that none of
  the program's mappings shows: what the card writes there, the program never reads.
\<close>

theorem user_session_turn:
  assumes "kernel_ok k" "rx_ready k M D s" "rx_armed s"
    and start: "app_start (Some (lbuf_user_ops cfg)) ok remap va s = Inr (Some (a, buf), s1)"
    and phys: "\<forall>d \<in> set (descs s RX). phys (drop_bit PAGE_SHIFT (dma_addr d)) = kern_addr d"
    and filled: "lbuf_mem s (kern_addr (cons_desc RX s)) = enc_lbuf ps"
    and ps: "ps \<noteq> []" "32 + length (enc_body ps) \<le> LBUF_SIZE div 4"
    and refill: "fst (alloc_and_map_lbuf cfg k RX (prod_desc RX (ring_clear RX s))
      (ring_clear RX (s1\<lparr>user_waiting := True\<rparr>))) = 0"
  shows "\<exists>a' s2. app_turn (lbuf_user_ops cfg) (poll_while_asleep cfg k) (user_view phys buf s1) a s1 = Inr (a', s2) \<and>
    total_rx_packets a' = of_nat (length (frames_of ps)) \<and> delivered (hist s2) = delivered (hist s) \<and>
    WakeUser \<in> set (hist s2) \<and> unat (rx_cons a') = cons_ptr s2 RX \<and>
    (\<exists>d \<in> set (descs s2 RX). kern_addr d \<notin> phys ` set buf)"
proof -
  have wf: "ring_wf RX s" and own: "bufs_owned k M D (hist s) (ring_descs RX s)" and full: "desc_full RX s"
    using assms(2,3) by (auto simp: rx_ready_def rx_armed_def)
  obtain n m where a: "unat (rx_cons a) = cons_ptr s RX" "total_rx_packets a = 0"
    "buf = map (\<lambda>d. drop_bit PAGE_SHIFT (dma_addr d)) (descs s RX)"
    "s1 = s\<lparr>nr_user_mmap := 2, hist := hist s @ [RemapPfn (buf ! 0) n, RemapPfn (buf ! 1) m]\<rparr>"
    using app_start_success [OF start wf] by blast
  let ?t = "s1\<lparr>user_waiting := True\<rparr>" and ?es = "[RemapPfn (buf ! 0) n, RemapPfn (buf ! 1) m]"
  have es: "set ?es \<subseteq> range (case_prod RemapPfn)" by (auto intro: range_eqI)
  note keep = remaps_keep [OF es]
  have f: "descs ?t RX = descs s RX" "prod_ptr ?t RX = prod_ptr s RX" "cons_ptr ?t RX = cons_ptr s RX"
    by (simp_all add: a(4))
  note rf = ring_fields_cong [OF f]
  have d: "cons_desc RX ?t = cons_desc RX s" "prod_desc RX (ring_clear RX ?t) = prod_desc RX (ring_clear RX s)"
    using f by (simp_all add: cons_desc_def prod_desc_def ring_clear_def inc_cons_def set_desc_def)
  have h: "hist ?t = hist s @ ?es" "lbuf_mem ?t = lbuf_mem s" "nr_user_mmap ?t = 2" by (simp_all add: a(4))
  have ready: "rx_ready k M D ?t" using wf own rf(1,2) keep(1) h(1) by (simp add: rx_ready_def)
  have armed: "rx_armed ?t" using assms(3) rf(4) f(1) keep(2) h(1) by (simp add: rx_armed_def)
  have valid: "LBUF_IS_VALID (LBUF_NR_DWORDS (lbuf_mem ?t (kern_addr (cons_desc RX ?t))))"
    using enc_lbuf_nr_dwords [OF ps(2)] enc_body_pos [OF ps(1)] ps(2) filled d h(2) by (simp add: LBUF_IS_VALID_iff)
  obtain d' t' where al: "alloc_and_map_lbuf cfg k RX (prod_desc RX (ring_clear RX ?t)) (ring_clear RX ?t) = (0, d', t')"
    using refill d(2) by (metis prod.collapse)
  obtain s' where p: "nf10_lbuf_process_rx_irq cfg k 0 nf10_lbuf_napi_budget ?t = Inr (1, s')" "ring_wf RX s'"
    "set (descs s' RX) = set (tl (ring_descs RX s) @ [d'])"
    "bufs_owned k M D (hist s') (cons_desc RX s # tl (ring_descs RX s) @ [d'])"
    "lbuf_mem s' = lbuf_mem s" "delivered (hist s') = delivered (hist s)"
    "cons_ptr s' RX = inc_pointer (cons_ptr s RX)" "WakeUser \<in> set (hist s')"
    using user_mode_poll [OF assms(1) ready armed valid al, of nf10_lbuf_napi_budget] d f h rf(1) keep(3) by auto
  let ?w = "s'\<lparr>user_waiting := False\<rparr>"
  have wait: "nf10_ioctl (lbuf_user_ops cfg) True (poll_while_asleep cfg k) NF10_IOCTL_CMD_WAIT_INTR 0 s1 = Inr (0, None, ?w)"
    using p(1) by (simp add: nf10_ioctl_def ioctl_cmds poll_while_asleep_def)
  have c: "unat (rx_cons a) < 2" using a(1) ring_wf_bounds(2) [OF wf] by (simp add: NR_LBUF_def)
  have "phys (buf ! cons_ptr s RX) = kern_addr (cons_desc RX s)"
    using a(3) phys ring_wf_bounds(2,3) [OF wf] by (simp add: cons_desc_def)
  then have "user_view phys buf s1 (unat (rx_cons a)) = enc_lbuf ps"
    using a(1,4) filled by (simp add: user_view_def)
  then have count: "app_buffer (user_view phys buf s1 (unat (rx_cons a))) = Inr (of_nat (length (frames_of ps)))"
    using app_buffer_enc [OF ps] by simp
  have i: "unat (ucast (rx_cons a) :: u64) = unat (rx_cons a)"
    using c by (simp add: unsigned_ucast_eq take_bit_nat_eq_self)
  obtain s2 where s2: "nf10_lbuf_prepare_rx cfg (ucast (rx_cons a)) ?w = Inr s2" "descs s2 = descs s'" "cons_ptr s2 = cons_ptr s'"
    "delivered (hist s2) = delivered (hist s')" "set (hist s') \<subseteq> set (hist s2)"
    using c ring_wf_bounds(3) [OF p(2)]
    by (cases "coherent cfg") (auto simp: nf10_lbuf_prepare_rx_def get_desc_def i NR_LBUF_def nf10_writeq_def nf10_writel_def inc_prod_def
        Let_def hist_simps)
  let ?n = "length (frames_of ps)"
  define a' where "a' = a\<lparr>total_rx_packets := total_rx_packets a + ucast (of_nat ?n :: u32),
    rx_cons := if rx_cons a \<noteq> 0 then 0 else 1\<rparr>"
  have "app_turn (lbuf_user_ops cfg) (poll_while_asleep cfg k) (user_view phys buf s1) a s1 = Inr (a', s2)"
    using wait c count s2(1) by (simp add: app_turn_def a'_def nf10_ioctl_def ioctl_cmds lbuf_user_ops_def)
  moreover have "?n < 4294967296" using frames_le_body [of ps] ps(2) by simp
  then have "total_rx_packets a' = of_nat ?n" by (simp add: a'_def a(2) ucast_of_nat_small)
  moreover have "rx_cons a = 0 \<or> rx_cons a = 1" using c by (auto simp: word_unat_eq_iff less_2_cases_iff)
  then have "unat (rx_cons a') = cons_ptr s2 RX"
    using s2(3) p(7) a(1) by (auto simp: a'_def inc_pointer_def NR_LBUF_def)
  moreover have "\<exists>d \<in> set (descs s2 RX). kern_addr d \<notin> phys ` set buf"
  proof -
    have "ring_descs RX s = cons_desc RX s # tl (ring_descs RX s)"
      using ring.deq_elems [OF wf] desc_full_iff [OF wf] full by (cases "ring_descs RX s") (auto simp: NR_LBUF_def)
    moreover have "set (descs s RX) = set (ring_descs RX s)"
      using full_ring_mset [OF wf full] mset_eq_setD by blast
    ultimately have "set (descs s RX) = insert (cons_desc RX s) (set (tl (ring_descs RX s)))"
      by (metis list.simps(15))
    moreover have "phys ` set buf = kern_addr ` set (descs s RX)" using phys by (force simp: a(3))
    ultimately have "kern_addr d' \<notin> phys ` set buf" using p(4) by (auto simp: bufs_owned_def)
    then show ?thesis using p(3) s2(2) by auto
  qed
  ultimately show ?thesis using s2(4,5) p(6,8) by (intro exI [of _ a'] exI [of _ s2]) auto
qed

lemma user_session_turn_witness:
  "\<exists>a buf s1 a' s2.
    app_start (Some (lbuf_user_ops plain_cfg)) True (\<lambda>_ _. 0) (\<lambda>i. 0x200000 * of_nat (i + 1)) demo_rx = Inr (Some (a, buf), s1) \<and>
    app_turn (lbuf_user_ops plain_cfg) (poll_while_asleep plain_cfg demo_kapi) (user_view (push_bit 12) buf s1) a s1 = Inr (a', s2) \<and>
    total_rx_packets a' = 2 \<and> unat (rx_cons a') = cons_ptr s2 RX"
proof -
  obtain a buf s1 where start: "app_start (Some (lbuf_user_ops plain_cfg)) True (\<lambda>_ _. 0) (\<lambda>i. 0x200000 * of_nat (i + 1)) demo_rx = Inr (Some (a, buf), s1)"
    by (simp add: app_start_def nf10_open_def nf10_ioctl_def ioctl_cmds lbuf_user_ops_def nf10_lbuf_user_init_def
        NR_LBUF_def numeral_2_eq_2 nf10_mmap_def PAGE_MASK_def PAGE_SHIFT_def nf10_lbuf_get_pfn_def get_desc_def Let_def
        mask_eq_exp_minus_1)
  have wf: "ring_wf RX demo_rx" using demo_rx_ready by (simp add: rx_ready_def)
  have r: "fst (alloc_and_map_lbuf plain_cfg demo_kapi RX d (ring_clear RX (s1\<lparr>user_waiting := True\<rparr>))) = 0" for d
    using app_start_success [OF start wf]
    by (auto simp: alloc_and_map_lbuf_def alloc_lbuf_def demo_simps simp del: LBUF_SIZE_value)
  have p: "\<forall>d \<in> set (descs demo_rx RX). push_bit 12 (drop_bit PAGE_SHIFT (dma_addr d)) = kern_addr d"
    by (simp add: demo_rx_def PAGE_SHIFT_def)
  have "length (frames_of demo_pkts) = 2" by (simp add: frames_of_def demo_pkts_def frame_len_ok_def)
  then show ?thesis
    using user_session_turn [OF demo_kernel_ok demo_rx_ready demo_rx_armed start p _ demo_pkts_size(2) _ r] start
    by (auto simp: demo_pkts_size)
qed

end
