(* ===== verification/Lbuf_Tx.thy ===== *)
theory Lbuf_Tx
  imports Lbuf_Buffers
begin

text \<open>
  The transmit half of \<open>sw/driver/nf10_lbuf.c\<close>: handing a socket buffer to the card
  (\<open>nf10_lbuf_start_xmit\<close>, \<open>lbuf_xmit\<close>), collecting completed descriptors
  (\<open>check_tx_completion\<close>), releasing them up to the address the card reports
  (\<open>clean_tx_pending_gc\<close>) and the interrupt half that loops until the card's report is stable
  (\<open>nf10_lbuf_clean_tx_irq\<close>). The abstract state is one queue of outstanding descriptors: the
  pending garbage followed by the descriptors in flight. The collection tests an entry it has already
  freed; what that read gives is the answer of \<open>k_freed_gc\<close>, and may be a fault.
\<close>

section \<open>Registers\<close>

definition TX_LBUF_ADDR_BASE :: nat where "TX_LBUF_ADDR_BASE = 0x80"
definition TX_LBUF_STAT_BASE :: nat where "TX_LBUF_STAT_BASE = 0xA0"
definition TX_INTR_CTRL_ADDR :: nat where "TX_INTR_CTRL_ADDR = 0xB8"
definition TX_COMPLETION_OKAY :: u32 where "TX_COMPLETION_OKAY = 0xcacabeef"

definition tx_addr_off :: "nat \<Rightarrow> nat" where
  "tx_addr_off i = TX_LBUF_ADDR_BASE + push_bit 3 i"

definition tx_stat_off :: "nat \<Rightarrow> nat" where
  "tx_stat_off i = TX_LBUF_STAT_BASE + push_bit 2 i"

section \<open>Completion and garbage collection\<close>

definition add_to_pending_gc_list :: "kapi \<Rightarrow> desc \<Rightarrow> nic \<Rightarrow> int \<times> nic" where
  "add_to_pending_gc_list k d s =
     (let p = k_kmem_alloc k (hist s);
          s1 = emit (KmemAlloc PendingGcCache p) s
      in if p = 0 then (- ENOMEM, s1)
         else (0, s1\<lparr>pending_gc := pending_gc s1 @ [(p, d)]\<rparr>))"

text \<open>The entry has been taken off the list; a descriptor without a socket buffer faults.\<close>

definition free_pdesc :: "pdesc \<Rightarrow> nic \<Rightarrow> fault + nic" where
  "free_pdesc pd s =
     (let (p, d) = pd
      in case skbs s (skb d) of
           None \<Rightarrow> Inl NullDeref
         | Some b \<Rightarrow>
             (if kern_addr d = 0 then Inl KernelBug
              else let s1 = emit (UnmapSingle (dma_addr d) (unat (skb_len b)) TX) s;
                       s2 = emit (FreeSkb (skb d)) (s1\<lparr>skbs := (skbs s1)(skb d := None)\<rparr>)
                   in Inr (emit (KmemFree PendingGcCache p) s2)))"

text \<open>
  The loop compares the address in the entry after \<open>free_pdesc\<close> has given the entry back to its slab
  cache: the comparison is with whatever the freed object reads as, or the read faults.
\<close>

fun gc_list :: "kapi \<Rightarrow> u64 \<Rightarrow> pdesc list \<Rightarrow> nic \<Rightarrow> fault + nic" where
  "gc_list k last_gc_addr [] s = Inr s"
| "gc_list k last_gc_addr (pd # rest) s =
     rbind (free_pdesc pd (s\<lparr>pending_gc := rest\<rparr>)) (\<lambda>s1.
       case k_freed_gc k (hist s1) (fst pd) (dma_addr (snd pd)) of
         None \<Rightarrow> Inl (UseAfterFree (fst pd))
       | Some v \<Rightarrow> if v = last_gc_addr then Inr s1 else gc_list k last_gc_addr rest s1)"

definition clean_tx_pending_gc :: "kapi \<Rightarrow> u64 \<Rightarrow> nic \<Rightarrow> fault + bool \<times> nic" where
  "clean_tx_pending_gc k last_gc_addr s =
     rbind (gc_list k last_gc_addr (pending_gc s) s) (\<lambda>s1. Inr (pending_gc s1 = [], s1))"

text \<open>One round of the loop: the descriptor at the consumer has completed.\<close>

definition complete_one :: "kapi \<Rightarrow> nic \<Rightarrow> nic" where
  "complete_one k s =
     (let d = cons_desc TX s;
          s1 = snd (add_to_pending_gc_list k d s);
          s2 = set_desc TX (cons_ptr s1 TX) (clean_desc d) s1;
          s3 = s2\<lparr>completion := (completion s2)[cons_ptr s2 TX := 0]\<rparr>
      in inc_cons TX s3)"

lemma complete_one_completion:
  "completion (complete_one k s) = (completion s)[cons_ptr s TX := 0]"
  by (simp add: complete_one_def Let_def inc_cons_def set_desc_def add_to_pending_gc_list_def)

lemma count_okay_update:
  assumes "i < length xs" "xs ! i = TX_COMPLETION_OKAY"
  shows "length (filter (\<lambda>c. c = TX_COMPLETION_OKAY) (xs[i := 0])) <
    length (filter (\<lambda>c. c = TX_COMPLETION_OKAY) xs)"
proof -
  let ?P = "\<lambda>c. c = TX_COMPLETION_OKAY"
  have "\<not> ?P 0" by (simp add: TX_COMPLETION_OKAY_def)
  moreover have "xs = take i xs @ xs ! i # drop (Suc i) xs" by (rule id_take_nth_drop [OF assms(1)])
  then have "filter ?P xs = filter ?P (take i xs) @ filter ?P (xs ! i # drop (Suc i) xs)"
    by (metis filter_append)
  ultimately show ?thesis using assms by (simp add: upd_conv_take_nth_drop)
qed

text \<open>
  The loop reads the completion dword of the consumer's slot; the descriptor index is the ring's
  own pointer, and a completion array shorter than the ring would be read out of bounds.
\<close>

function check_tx_completion :: "kapi \<Rightarrow> nic \<Rightarrow> fault + nic" where
  "check_tx_completion k s =
     (if desc_empty TX s then Inr s
      else if length (completion s) \<le> cons_ptr s TX then Inl (OutOfBounds (cons_ptr s TX))
      else if completion s ! cons_ptr s TX = TX_COMPLETION_OKAY
      then check_tx_completion k (complete_one k s)
      else Inr s)"
  by pat_completeness auto
termination
  by (relation "measure (\<lambda>(k, s). length (filter (\<lambda>c. c = TX_COMPLETION_OKAY) (completion s)))")
    (auto simp: complete_one_completion intro: count_okay_update)

declare check_tx_completion.simps [simp del]

definition enable_tx_intr :: "nic \<Rightarrow> nic" where
  "enable_tx_intr = nf10_writel TX_INTR_CTRL_ADDR 0xcacabeef"

section \<open>Transmission\<close>

datatype netdev_tx = NETDEV_TX_OK | NETDEV_TX_BUSY

definition lbuf_xmit :: "kapi \<Rightarrow> u64 \<Rightarrow> u32 \<Rightarrow> u64 \<Rightarrow> nic \<Rightarrow> int \<times> nic" where
  "lbuf_xmit k buf_addr len p s =
     (let i = prod_ptr s TX;
          nr_qwords = drop_bit 3 ((len + 7) AND NOT 7);
          dma = k_map_single k (hist s) buf_addr;
          s1 = emit (MapSingle buf_addr (unat len) TX dma) s;
          d1 = (prod_desc TX s1)\<lparr>dma_addr := dma\<rparr>;
          s2 = set_desc TX i d1 s1
      in if k_mapping_error k dma then (- EIO, s2)
         else let s3 = set_desc TX i (d1\<lparr>kern_addr := buf_addr, skb := p\<rparr>) s2;
                  s4 = nf10_writeq (tx_addr_off i) dma s3;
                  s5 = nf10_writel (tx_stat_off i) nr_qwords s4
              in (0, inc_prod TX s5))"

text \<open>
  \<open>pskb_expand_head(skb, nhead, 0, GFP_ATOMIC)\<close>: on success the data moves to a new head with
  \<open>nhead\<close> more bytes before it, on failure (whose result the driver ignores) nothing changes.
\<close>

definition pskb_expand_head :: "kapi \<Rightarrow> u64 \<Rightarrow> nat \<Rightarrow> sk_buff \<Rightarrow> nic \<Rightarrow> sk_buff \<times> nic" where
  "pskb_expand_head k p nhead b s =
     (let h = k_expand_head k (hist s);
          s1 = emit (ExpandHead p nhead h) s
      in if h = 0 then (b, s1)
         else (b\<lparr>skb_data := h + of_nat (skb_headroom b + nhead),
                 skb_headroom := skb_headroom b + nhead\<rparr>, s1))"

text \<open>\<open>ALIGN((unsigned long)data, 4)\<close> and \<open>IS_ALIGNED\<close>.\<close>

definition align4 :: "u64 \<Rightarrow> u64" where
  "align4 a = (a + 3) AND NOT 3"

definition is_aligned4 :: "u64 \<Rightarrow> bool" where
  "is_aligned4 a \<longleftrightarrow> a AND 3 = 0"

definition make_headroom :: "kapi \<Rightarrow> u64 \<Rightarrow> sk_buff \<Rightarrow> nic \<Rightarrow> sk_buff \<times> nic" where
  "make_headroom k p b s =
     (let headroom = skb_headroom b
      in if \<not> skb_shared b \<and> (headroom < 8 \<or> \<not> is_aligned4 (skb_data b)) then
           (let headroom_to_expand =
              (if headroom < 8 then 8 - headroom else unat (align4 (skb_data b) - skb_data b))
            in pskb_expand_head k p headroom_to_expand b s)
         else (b, s))"

text \<open>\<open>skb_push(skb, 8)\<close> and the two header dwords stored through the new data pointer.\<close>

definition push_header :: "sk_buff \<Rightarrow> fault + sk_buff" where
  "push_header b =
     (if skb_headroom b < 8 then Inl SkbUnderPanic
      else let b1 = b\<lparr>skb_data := skb_data b - 8, skb_len := skb_len b + 8,
                      skb_headroom := skb_headroom b - 8\<rparr>
           in Inr (b1\<lparr>skb_hdr := [0, skb_len b1 - 8] @ skb_hdr b\<rparr>))"

definition nf10_lbuf_start_xmit :: "kapi \<Rightarrow> u64 \<Rightarrow> nic \<Rightarrow> fault + netdev_tx \<times> nic" where
  "nf10_lbuf_start_xmit k p s =
     rbind (check_tx_completion k s) (\<lambda>s1.
       if desc_full TX s1 then
         (let c = debug_count s1 + 1
          in Inr (NETDEV_TX_BUSY, s1\<lparr>debug_count := if drop_bit 13 c \<noteq> 0 then 0 else c\<rparr>))
       else case skbs s1 p of
         None \<Rightarrow> Inl NullDeref
       | Some b \<Rightarrow>
         (let s2 = s1\<lparr>debug_count := 0\<rparr>;
              (b1, s3) = make_headroom k p b s2
          in rbind (push_header b1) (\<lambda>b2.
               let s4 = s3\<lparr>skbs := (skbs s3)(p \<mapsto> b2)\<rparr>;
                   (ret, s5) = lbuf_xmit k (skb_data b2) (skb_len b2) p s4;
                   s6 = s5\<lparr>tx_packets := tx_packets s5 + 1\<rparr>
               in Inr (if ret = 0 then NETDEV_TX_OK else NETDEV_TX_BUSY, s6))))"

section \<open>The transmit interrupt\<close>

text \<open>
  The card writes the completion buffer while the handler runs. \<open>dev t\<close> is what it does to the
  completion dwords and the garbage-collection address between the driver's accesses number
  \<open>t - 1\<close> and \<open>t\<close>; a round of the loop has four such points.
\<close>

type_synonym device = "nat \<Rightarrow> u32 list \<times> u64 \<Rightarrow> u32 list \<times> u64"

definition card_step :: "device \<Rightarrow> nat \<Rightarrow> nic \<Rightarrow> nic" where
  "card_step dev t s =
     (let (c, g) = dev t (completion s, last_gc s) in s\<lparr>completion := c, last_gc := g\<rparr>)"

partial_function (option) clean_tx_again ::
  "kapi \<Rightarrow> device \<Rightarrow> nat \<Rightarrow> nic \<Rightarrow> (fault + bool \<times> nic) option" where
  "clean_tx_again k dev t s =
     (case check_tx_completion k (card_step dev t s) of
        Inl e \<Rightarrow> Some (Inl e)
      | Inr s1 \<Rightarrow>
        (let s2 = card_step dev (t + 1) s1;
             tx_last_gc_addr = last_gc s2
         in case clean_tx_pending_gc k tx_last_gc_addr s2 of
              Inl e \<Rightarrow> Some (Inl e)
            | Inr (complete, s3) \<Rightarrow>
              (let s4 = card_step dev (t + 2) s3
               in if tx_last_gc_addr \<noteq> last_gc s4 then clean_tx_again k dev (t + 4) s4
                  else let s5 = card_step dev (t + 3) s4
                       in if last_gc s5 \<noteq> tx_last_gc_addr then clean_tx_again k dev (t + 4) s5
                          else Some (Inr (complete, s5\<lparr>last_gc := 0\<rparr>)))))"

definition nf10_lbuf_clean_tx_irq :: "kapi \<Rightarrow> device \<Rightarrow> nic \<Rightarrow> (fault + bool \<times> nic) option" where
  "nf10_lbuf_clean_tx_irq k dev s =
     (if last_gc s = 0 then Some (Inr (True, s)) else clean_tx_again k dev 0 s)"

definition IRQ_CTRL_ENABLE :: u64 where "IRQ_CTRL_ENABLE = push_bit 0 1"
definition IRQ_CTRL_RX :: u64 where "IRQ_CTRL_RX = push_bit 1 1"
definition IRQ_CTRL_MASK :: u64 where "IRQ_CTRL_MASK = push_bit 2 1 - 1"
definition IRQ_CTRL_TX_ENABLE :: u64 where
  "IRQ_CTRL_TX_ENABLE = (IRQ_CTRL_ENABLE AND NOT IRQ_CTRL_RX) AND IRQ_CTRL_MASK"

definition nf10_lbuf_ctrl_irq :: "u64 \<Rightarrow> nic \<Rightarrow> u64 \<times> nic" where
  "nf10_lbuf_ctrl_irq cmd s =
     (0, if cmd = IRQ_CTRL_TX_ENABLE then enable_tx_intr s else s)"

section \<open>The queue of outstanding descriptors\<close>

text \<open>
  \<open>tx_outstanding\<close> is the abstract state: first the descriptors waiting to be released, then those
  in flight. \<open>outstanding_ok\<close>: they name distinct live socket buffers and distinct live mappings,
  and every unmapping so far was of something mapped.
\<close>

definition tx_outstanding :: "nic \<Rightarrow> desc list" where
  "tx_outstanding s = map snd (pending_gc s) @ ring_descs TX s"

definition outstanding_ok :: "kapi \<Rightarrow> desc list \<Rightarrow> (u64 \<rightharpoonup> sk_buff) \<Rightarrow> history \<Rightarrow> bool" where
  "outstanding_ok k out S h \<longleftrightarrow>
     distinct (map skb out) \<and> distinct (map dma_addr out) \<and> unmaps_ok k h \<and>
     (\<forall>d \<in> set out. skb d \<in> dom S \<and> kern_addr d \<noteq> 0 \<and> dma_addr d \<in> live_dma k h)"

definition tx_inv :: "kapi \<Rightarrow> nic \<Rightarrow> bool" where
  "tx_inv k s \<longleftrightarrow> ring_wf TX s \<and> length (completion s) = NR_LBUF \<and>
     outstanding_ok k (tx_outstanding s) (skbs s) (hist s)"

text \<open>Completing a descriptor is clearing the consumer's slot and listing what was in it.\<close>

lemma complete_one_eq:
  "complete_one k s = (ring_clear TX s)\<lparr>
     pending_gc := pending_gc s @ (if k_kmem_alloc k (hist s) = 0 then []
                                   else [(k_kmem_alloc k (hist s), cons_desc TX s)]),
     completion := (completion s)[cons_ptr s TX := 0],
     hist := hist s @ [KmemAlloc PendingGcCache (k_kmem_alloc k (hist s))]\<rparr>"
  by (simp add: complete_one_def Let_def inc_cons_def set_desc_def add_to_pending_gc_list_def
      ring_clear_def emit_def cons_desc_def)

lemma complete_one_ring:
  assumes "ring_wf TX s" "\<not> desc_empty TX s"
  shows "ring_wf TX (complete_one k s)"
    "ring_descs TX s = cons_desc TX s # ring_descs TX (complete_one k s)"
proof -
  have e: "ring_descs TX s \<noteq> []" using assms ring.is_empty_iff by blast
  have "ring_descs TX (complete_one k s) = ring_descs TX (ring_clear TX s)"
    "ring_wf TX (complete_one k s) = ring_wf TX (ring_clear TX s)"
    by (rule ring_fields_cong; simp add: complete_one_eq)+
  then show "ring_wf TX (complete_one k s)"
    "ring_descs TX s = cons_desc TX s # ring_descs TX (complete_one k s)"
    using ring.deq_inv [OF assms(1) e] ring.deq_elems [OF assms(1) e] by simp_all
qed

lemma complete_one_fields [simp]:
  "skbs (complete_one k s) = skbs s"
  "hist (complete_one k s) = hist s @ [KmemAlloc PendingGcCache (k_kmem_alloc k (hist s))]"
  "prod_ptr (complete_one k s) = prod_ptr s" "last_gc (complete_one k s) = last_gc s"
  "cons_ptr (complete_one k s) TX = inc_pointer (cons_ptr s TX)"
  "debug_count (complete_one k s) = debug_count s" "descs (complete_one k s) RX = descs s RX"
  "cons_ptr (complete_one k s) RX = cons_ptr s RX"
  "tx_completion_kern_addr (complete_one k s) = tx_completion_kern_addr s"
  "tx_completion_dma_addr (complete_one k s) = tx_completion_dma_addr s"
  by (simp_all add: complete_one_eq ring_clear_def inc_cons_def set_desc_def)

lemma complete_one_pending:
  "k_kmem_alloc k (hist s) \<noteq> 0 \<Longrightarrow>
     map snd (pending_gc (complete_one k s)) = map snd (pending_gc s) @ [cons_desc TX s]"
  "k_kmem_alloc k (hist s) = 0 \<Longrightarrow> pending_gc (complete_one k s) = pending_gc s"
  by (simp_all add: complete_one_eq)

lemma complete_one_outstanding:
  assumes "ring_wf TX s" "\<not> desc_empty TX s"
  shows "tx_outstanding (complete_one k s) =
    (if k_kmem_alloc k (hist s) = 0 then map snd (pending_gc s) @ tl (ring_descs TX s)
     else tx_outstanding s)"
  using complete_one_ring(2) [OF assms, of k] complete_one_pending [of k s]
  by (auto simp: tx_outstanding_def)

lemma outstanding_ok_KmemAlloc:
  assumes "outstanding_ok k out S h"
  shows "outstanding_ok k out S (h @ [KmemAlloc c p])"
  using assms by (simp add: outstanding_ok_def hist_simps)

lemma outstanding_ok_remove:
  assumes "outstanding_ok k (xs @ d # ys) S h"
  shows "outstanding_ok k (xs @ ys) S h"
  using assms by (auto simp: outstanding_ok_def)

lemma complete_one_inv:
  assumes inv: "tx_inv k s" and ne: "\<not> desc_empty TX s"
  shows "tx_inv k (complete_one k s)"
proof -
  have wf: "ring_wf TX s" and ok: "outstanding_ok k (tx_outstanding s) (skbs s) (hist s)"
    and len: "length (completion s) = NR_LBUF"
    using inv by (auto simp: tx_inv_def)
  note r = complete_one_ring [OF wf ne, of k]
  have "outstanding_ok k (map snd (pending_gc s) @ tl (ring_descs TX s)) (skbs s) (hist s)"
    using ok r(2) outstanding_ok_remove [of k _ "cons_desc TX s"]
    by (auto simp: tx_outstanding_def)
  then have "outstanding_ok k (tx_outstanding (complete_one k s)) (skbs s) (hist s)"
    using ok by (simp add: complete_one_outstanding [OF wf ne])
  then show ?thesis using r(1) len
    by (simp add: tx_inv_def complete_one_completion outstanding_ok_KmemAlloc)
qed

text \<open>
  \<open>tx_done\<close>: how many descriptors in flight, from the consumer on without a gap, the card has
  completed. \<open>check_tx_completion\<close> moves exactly those.
\<close>

definition tx_done :: "nic \<Rightarrow> nat" where
  "tx_done s = length (takeWhile (\<lambda>j. completion s ! ((cons_ptr s TX + j) mod NR_LBUF) = TX_COMPLETION_OKAY)
     [0..<length (ring_descs TX s)])"

lemma takeWhile_upt_Suc:
  "length (takeWhile P [0..<Suc n]) = (if P 0 then Suc (length (takeWhile (P \<circ> Suc) [0..<n])) else 0)"
  by (simp add: upt_conv_Cons takeWhile_map map_Suc_upt [symmetric] del: upt_Suc)

lemma takeWhile_upt_cong:
  "(\<And>j. j < n \<Longrightarrow> P j = Q j) \<Longrightarrow> takeWhile P [0..<n] = takeWhile Q [0..<n]"
  by (rule takeWhile_cong) auto

lemma tx_done_complete_one:
  assumes inv: "tx_inv k s" and ne: "\<not> desc_empty TX s"
    and ok: "completion s ! cons_ptr s TX = TX_COMPLETION_OKAY"
  shows "tx_done s = Suc (tx_done (complete_one k s))"
proof -
  have wf: "ring_wf TX s" and len: "length (completion s) = NR_LBUF"
    using inv by (auto simp: tx_inv_def)
  note c = ring_wf_bounds(2) [OF wf]
  let ?n = "length (ring_descs TX (complete_one k s))"
  let ?Q = "\<lambda>j. completion (complete_one k s) ! ((cons_ptr (complete_one k s) TX + j) mod NR_LBUF)
    = TX_COMPLETION_OKAY"
  let ?P = "\<lambda>j. completion s ! ((cons_ptr s TX + j) mod NR_LBUF) = TX_COMPLETION_OKAY"
  have n: "length (ring_descs TX s) = Suc ?n"
    by (subst complete_one_ring(2) [OF wf ne, of k]) simp
  then have nN: "Suc ?n \<le> NR_LBUF" using ring_descs_le [OF wf] by simp
  have "?Q j = (?P \<circ> Suc) j" if j: "j < ?n" for j
  proof -
    have "(cons_ptr s TX + Suc j) mod NR_LBUF \<noteq> cons_ptr s TX"
      by (rule ring_offset_neq) (use c j nN in auto)
    then show ?thesis
      using ring_deq_offset [OF c, of j]
      by (simp add: complete_one_completion inc_pointer_ring del: add_Suc_right)
  qed
  then have "takeWhile ?Q [0..<?n] = takeWhile (?P \<circ> Suc) [0..<?n]" by (rule takeWhile_upt_cong)
  moreover have "?P 0" using ok c by simp
  ultimately show ?thesis unfolding tx_done_def n by (simp add: takeWhile_upt_Suc del: upt_Suc)
qed

lemma tx_done_stop:
  assumes "tx_inv k s" "completion s ! cons_ptr s TX \<noteq> TX_COMPLETION_OKAY \<or> desc_empty TX s"
  shows "tx_done s = 0"
proof -
  have wf: "ring_wf TX s" using assms by (auto simp: tx_inv_def)
  show ?thesis
  proof (cases "ring_descs TX s")
    case Nil
    then show ?thesis by (simp add: tx_done_def)
  next
    case (Cons d ds)
    then have "completion s ! cons_ptr s TX \<noteq> TX_COMPLETION_OKAY"
      using assms(2) desc_empty_iff [OF wf] by auto
    then show ?thesis using ring_wf_bounds(2) [OF wf] Cons
      by (simp add: tx_done_def takeWhile_upt_Suc del: upt_Suc)
  qed
qed

text \<open>What a call of \<open>check_tx_completion\<close> leaves alone.\<close>

definition rx_same :: "nic \<Rightarrow> nic \<Rightarrow> bool" where
  "rx_same s s' \<longleftrightarrow> descs s' RX = descs s RX \<and> prod_ptr s' RX = prod_ptr s RX \<and>
     cons_ptr s' RX = cons_ptr s RX \<and> tx_completion_kern_addr s' = tx_completion_kern_addr s \<and>
     tx_completion_dma_addr s' = tx_completion_dma_addr s"

definition same_but_tx_queue :: "nic \<Rightarrow> nic \<Rightarrow> bool" where
  "same_but_tx_queue s s' \<longleftrightarrow>
     skbs s' = skbs s \<and> prod_ptr s' = prod_ptr s \<and> last_gc s' = last_gc s \<and>
     debug_count s' = debug_count s \<and> rx_same s s' \<and>
     freed_skbs (hist s') = freed_skbs (hist s) \<and> live_mem (hist s') = live_mem (hist s) \<and>
     frees_ok (hist s') = frees_ok (hist s) \<and>
     (\<forall>k. live_dma k (hist s') = live_dma k (hist s))"

lemma same_but_tx_queue_complete_one:
  "same_but_tx_queue (complete_one k s) s' \<Longrightarrow> same_but_tx_queue s s'"
  by (simp add: same_but_tx_queue_def rx_same_def hist_simps)

lemma check_tx_completion_spec:
  assumes "tx_inv k s"
  shows "\<exists>s'. check_tx_completion k s = Inr s' \<and> tx_inv k s' \<and> same_but_tx_queue s s' \<and>
    ring_descs TX s' = drop (tx_done s) (ring_descs TX s) \<and>
    set (map snd (pending_gc s')) \<subseteq> set (map snd (pending_gc s)) \<union> set (take (tx_done s) (ring_descs TX s)) \<and>
    ((\<forall>h. k_kmem_alloc k h \<noteq> 0) \<longrightarrow>
       map snd (pending_gc s') = map snd (pending_gc s) @ take (tx_done s) (ring_descs TX s))"
  using assms
proof (induction k s rule: check_tx_completion.induct)
  case (1 k s)
  have wf: "ring_wf TX s" and len: "length (completion s) = NR_LBUF"
    using "1.prems" by (auto simp: tx_inv_def)
  have c: "\<not> length (completion s) \<le> cons_ptr s TX" using ring_wf_bounds(2) [OF wf] len by simp
  show ?case
  proof (cases "desc_empty TX s \<or> completion s ! cons_ptr s TX \<noteq> TX_COMPLETION_OKAY")
    case True
    then have "check_tx_completion k s = Inr s"
      using c by (auto simp: check_tx_completion.simps [of k s])
    moreover have "tx_done s = 0" using tx_done_stop [OF "1.prems"] True by blast
    ultimately show ?thesis using "1.prems" by (simp add: same_but_tx_queue_def rx_same_def)
  next
    case False
    then have ne: "\<not> desc_empty TX s" and ok: "completion s ! cons_ptr s TX = TX_COMPLETION_OKAY"
      by auto
    note r = complete_one_ring(2) [OF wf ne, of k]
    note d = tx_done_complete_one [OF "1.prems" ne ok]
    have e: "check_tx_completion k s = check_tx_completion k (complete_one k s)"
      using ne ok c by (simp add: check_tx_completion.simps [of k s])
    obtain s' where s': "check_tx_completion k (complete_one k s) = Inr s'" "tx_inv k s'"
      "same_but_tx_queue (complete_one k s) s'"
      "ring_descs TX s' = drop (tx_done (complete_one k s)) (ring_descs TX (complete_one k s))"
      "set (map snd (pending_gc s')) \<subseteq> set (map snd (pending_gc (complete_one k s))) \<union>
         set (take (tx_done (complete_one k s)) (ring_descs TX (complete_one k s)))"
      "(\<forall>h. k_kmem_alloc k h \<noteq> 0) \<longrightarrow> map snd (pending_gc s') = map snd (pending_gc (complete_one k s)) @
         take (tx_done (complete_one k s)) (ring_descs TX (complete_one k s))"
      using "1.IH" [OF ne c ok complete_one_inv [OF "1.prems" ne]] by blast
    have p: "set (map snd (pending_gc (complete_one k s))) \<subseteq> insert (cons_desc TX s) (set (map snd (pending_gc s)))"
      using complete_one_pending [of k s] by (cases "k_kmem_alloc k (hist s) = 0") auto
    have q: "set (take (tx_done s) (ring_descs TX s)) =
        insert (cons_desc TX s) (set (take (tx_done (complete_one k s)) (ring_descs TX (complete_one k s))))"
      "take (tx_done s) (ring_descs TX s) =
        cons_desc TX s # take (tx_done (complete_one k s)) (ring_descs TX (complete_one k s))"
      "drop (tx_done s) (ring_descs TX s) =
        drop (tx_done (complete_one k s)) (ring_descs TX (complete_one k s))"
      by (simp_all add: r d)
    have "set (map snd (pending_gc s')) \<subseteq> set (map snd (pending_gc s)) \<union> set (take (tx_done s) (ring_descs TX s))"
      using s'(5) p unfolding q(1) by blast
    moreover have "(\<forall>h. k_kmem_alloc k h \<noteq> 0) \<longrightarrow>
       map snd (pending_gc s') = map snd (pending_gc s) @ take (tx_done s) (ring_descs TX s)"
      using s'(6) complete_one_pending(1) [of k s] unfolding q(2) by simp
    ultimately show ?thesis
      using s' same_but_tx_queue_complete_one unfolding e q(3) by blast
  qed
qed

section \<open>Releasing up to the reported address\<close>

text \<open>
  The specification of one collection: everything pending through the first descriptor with the
  reported address is released (everything, when there is none), and the rest stays.
\<close>

definition gc_released :: "u64 \<Rightarrow> pdesc list \<Rightarrow> pdesc list" where
  "gc_released a ps = takeWhile (\<lambda>pd. dma_addr (snd pd) \<noteq> a) ps @
     take 1 (dropWhile (\<lambda>pd. dma_addr (snd pd) \<noteq> a) ps)"

definition gc_kept :: "u64 \<Rightarrow> pdesc list \<Rightarrow> pdesc list" where
  "gc_kept a ps = drop 1 (dropWhile (\<lambda>pd. dma_addr (snd pd) \<noteq> a) ps)"

lemma gc_released_kept: "gc_released a ps @ gc_kept a ps = ps"
  by (simp add: gc_released_def gc_kept_def)

lemma gc_kept_simps [simp]:
  "gc_kept a [] = []"
  "gc_kept a (pd # ps) = (if dma_addr (snd pd) = a then ps else gc_kept a ps)"
  by (simp_all add: gc_kept_def)

lemma gc_released_simps [simp]:
  "gc_released a [] = []"
  "gc_released a (pd # ps) = pd # (if dma_addr (snd pd) = a then [] else gc_released a ps)"
  by (simp_all add: gc_released_def)

text \<open>A kept descriptor has another address, where addresses are distinct.\<close>

lemma gc_kept_distinct:
  "distinct (map (dma_addr \<circ> snd) ps) \<Longrightarrow> a \<notin> (dma_addr \<circ> snd) ` set (gc_kept a ps)"
  by (induction ps) auto

text \<open>Operations that change nothing but what a collection may change.\<close>

definition gc_frame :: "nic \<Rightarrow> nic \<Rightarrow> bool" where
  "gc_frame s s' \<longleftrightarrow> (\<exists>ps S h. s' = s\<lparr>pending_gc := ps, skbs := S, hist := h\<rparr>)"

lemma gc_frameI: "s' = s\<lparr>pending_gc := ps, skbs := S, hist := h\<rparr> \<Longrightarrow> gc_frame s s'"
  unfolding gc_frame_def by blast

lemma gc_frame_refl [simp]: "gc_frame s s"
  by (rule gc_frameI [where ps = "pending_gc s" and S = "skbs s" and h = "hist s"]) simp

lemma gc_frame_trans:
  assumes "gc_frame s t" "gc_frame t u"
  shows "gc_frame s u"
proof -
  obtain ps S h ps' S' h' where "t = s\<lparr>pending_gc := ps, skbs := S, hist := h\<rparr>"
    "u = t\<lparr>pending_gc := ps', skbs := S', hist := h'\<rparr>"
    using assms unfolding gc_frame_def by blast
  then show ?thesis by (intro gc_frameI [where ps = ps' and S = S' and h = h']) simp
qed

lemma gc_frame_fields:
  assumes "gc_frame s s'"
  shows "descs s' = descs s" "prod_ptr s' = prod_ptr s" "cons_ptr s' = cons_ptr s"
    "completion s' = completion s" "last_gc s' = last_gc s" "debug_count s' = debug_count s"
    "ring_descs rx s' = ring_descs rx s" "ring_wf rx s' = ring_wf rx s"
    "tx_done s' = tx_done s"
  using assms
  by (auto simp: gc_frame_def ring_descs_def ring_wf_def tx_done_def)

text \<open>
  The exact behaviour of a collection on live entries: the calls that release one entry, and what the
  loop's comparison reads in entry \<open>i\<close>, freed by then, when it has released every entry up to it.
\<close>

definition gc_events :: "(u64 \<rightharpoonup> sk_buff) \<Rightarrow> pdesc \<Rightarrow> history" where
  "gc_events S pd =
     [UnmapSingle (dma_addr (snd pd)) (unat (skb_len (the (S (skb (snd pd)))))) TX,
      FreeSkb (skb (snd pd)), KmemFree PendingGcCache (fst pd)]"

definition gc_read :: "kapi \<Rightarrow> history \<Rightarrow> (u64 \<rightharpoonup> sk_buff) \<Rightarrow> pdesc list \<Rightarrow> nat \<Rightarrow> u64 option" where
  "gc_read k h S ps i =
     k_freed_gc k (h @ concat (map (gc_events S) (take (Suc i) ps))) (fst (ps ! i)) (dma_addr (snd (ps ! i)))"

lemma gc_read_keeps: "slab_keeps k \<Longrightarrow> gc_read k h S ps i = Some (dma_addr (snd (ps ! i)))"
  by (simp add: gc_read_def slab_keeps_def)

lemma freed_skbs_releases:
  "freed_skbs (concat (map (gc_events S) ps)) = map (skb \<circ> snd) ps"
  by (induction ps) (simp_all add: gc_events_def hist_simps)

lemma gc_events_cong:
  assumes "skb (snd pd) \<notin> (skb \<circ> snd) ` set ps"
  shows "map (gc_events (S(skb (snd pd) := None))) ps = map (gc_events S) ps"
  using assms by (auto simp: gc_events_def image_iff)

lemma gc_read_Cons:
  assumes "skb (snd pd) \<notin> (skb \<circ> snd) ` set ps"
  shows "gc_read k h S (pd # ps) 0 = k_freed_gc k (h @ gc_events S pd) (fst pd) (dma_addr (snd pd))"
    "gc_read k h S (pd # ps) (Suc i) =
       gc_read k (h @ gc_events S pd) (S(skb (snd pd) := None)) ps i"
proof -
  have "skb (snd pd) \<notin> (skb \<circ> snd) ` set (take (Suc i) ps)"
    using assms set_take_subset [of "Suc i" ps] by blast
  then have "map (gc_events (S(skb (snd pd) := None))) (take (Suc i) ps) =
      map (gc_events S) (take (Suc i) ps)"
    by (rule gc_events_cong)
  then show "gc_read k h S (pd # ps) (Suc i) =
      gc_read k (h @ gc_events S pd) (S(skb (snd pd) := None)) ps i"
    by (simp only: gc_read_def take_Suc_Cons list.map concat.simps append_assoc nth_Cons_Suc)
qed (simp add: gc_read_def)

lemma free_pdesc_live:
  assumes ok: "outstanding_ok k (snd pd # out) (skbs s) (hist s)"
  shows "free_pdesc pd s = Inr (s\<lparr>skbs := (skbs s)(skb (snd pd) := None),
      hist := hist s @ gc_events (skbs s) pd\<rparr>)" (is ?free)
    "outstanding_ok k out ((skbs s)(skb (snd pd) := None)) (hist s @ gc_events (skbs s) pd)" (is ?ok)
proof -
  obtain p d where pd: "pd = (p, d)" by (cases pd)
  obtain b where b: "skbs s (skb d) = Some b" using ok by (auto simp: outstanding_ok_def pd)
  have ka: "kern_addr d \<noteq> 0" using ok by (simp add: outstanding_ok_def pd)
  show ?free using b ka by (simp add: free_pdesc_def pd emit_def gc_events_def)
  show ?ok
    using ok by (auto simp: outstanding_ok_def pd hist_simps gc_events_def) (metis image_eqI)+
qed

text \<open>
  The collection stops at the first entry whose freed memory reads as the reported address, and
  faults where that read does before it has stopped.
\<close>

definition gc_result :: "kapi \<Rightarrow> u64 \<Rightarrow> pdesc list \<Rightarrow> nic \<Rightarrow> fault + nic \<Rightarrow> bool" where
  "gc_result k a ps s r \<longleftrightarrow>
     (case r of
        Inl e \<Rightarrow> \<exists>i < length ps. e = UseAfterFree (fst (ps ! i)) \<and> gc_read k (hist s) (skbs s) ps i = None \<and>
          (\<forall>j < i. gc_read k (hist s) (skbs s) ps j \<notin> {None, Some a})
      | Inr s' \<Rightarrow> \<exists>n \<le> length ps. (\<forall>j. Suc j < n \<longrightarrow> gc_read k (hist s) (skbs s) ps j \<notin> {None, Some a}) \<and>
          (n < length ps \<longrightarrow> 0 < n \<and> gc_read k (hist s) (skbs s) ps (n - 1) = Some a) \<and>
          s' = s\<lparr>pending_gc := drop n ps, skbs := skbs s |` (- set (map (skb \<circ> snd) (take n ps))),
            hist := hist s @ concat (map (gc_events (skbs s)) (take n ps))\<rparr>)"

lemma gc_result_Inl_Cons:
  assumes d: "skb (snd pd) \<notin> (skb \<circ> snd) ` set ps"
    and go: "gc_read k (hist s) (skbs s) (pd # ps) 0 \<notin> {None, Some a}"
    and r: "gc_result k a ps (s\<lparr>pending_gc := ps, skbs := (skbs s)(skb (snd pd) := None),
      hist := hist s @ gc_events (skbs s) pd\<rparr>) (Inl e)"
  shows "gc_result k a (pd # ps) s (Inl e)"
proof -
  obtain i where i: "i < length ps" "e = UseAfterFree (fst (ps ! i))"
    "gc_read k (hist s) (skbs s) (pd # ps) (Suc i) = None"
    "\<And>j. j < i \<Longrightarrow> gc_read k (hist s) (skbs s) (pd # ps) (Suc j) \<notin> {None, Some a}"
    using r by (auto simp: gc_result_def gc_read_Cons(2) [OF d])
  have "gc_read k (hist s) (skbs s) (pd # ps) j \<notin> {None, Some a}" if "j < Suc i" for j
    using that go i(4) by (cases j) auto
  then show ?thesis using i(1-3) by (auto simp: gc_result_def intro!: exI [of _ "Suc i"])
qed

lemma gc_result_Inr_Cons:
  assumes d: "skb (snd pd) \<notin> (skb \<circ> snd) ` set ps"
    and go: "gc_read k (hist s) (skbs s) (pd # ps) 0 \<notin> {None, Some a}"
    and r: "gc_result k a ps (s\<lparr>pending_gc := ps, skbs := (skbs s)(skb (snd pd) := None),
      hist := hist s @ gc_events (skbs s) pd\<rparr>) (Inr s')"
  shows "gc_result k a (pd # ps) s (Inr s')"
proof -
  let ?S = "(skbs s)(skb (snd pd) := None)"
  obtain n where n: "n \<le> length ps"
    "\<And>j. Suc j < n \<Longrightarrow> gc_read k (hist s) (skbs s) (pd # ps) (Suc j) \<notin> {None, Some a}"
    "n < length ps \<longrightarrow> 0 < n \<and> gc_read k (hist s) (skbs s) (pd # ps) (Suc (n - 1)) = Some a"
    "s' = s\<lparr>pending_gc := drop n ps, skbs := ?S |` (- set (map (skb \<circ> snd) (take n ps))),
       hist := (hist s @ gc_events (skbs s) pd) @ concat (map (gc_events ?S) (take n ps))\<rparr>"
    using r by (auto simp: gc_result_def gc_read_Cons(2) [OF d])
  have m: "map (gc_events ?S) (take n ps) = map (gc_events (skbs s)) (take n ps)"
    using gc_events_cong [of pd "take n ps"] d set_take_subset [of n ps] by blast
  have "gc_read k (hist s) (skbs s) (pd # ps) j \<notin> {None, Some a}" if "Suc j < Suc n" for j
    using that go n(2) by (cases j) auto
  moreover have "s' = s\<lparr>pending_gc := drop (Suc n) (pd # ps),
      skbs := skbs s |` (- set (map (skb \<circ> snd) (take (Suc n) (pd # ps)))),
      hist := hist s @ concat (map (gc_events (skbs s)) (take (Suc n) (pd # ps)))\<rparr>"
    unfolding n(4) upd_None_restrict_complement m by simp
  ultimately show ?thesis using n(1,3) by (auto simp: gc_result_def intro!: exI [of _ "Suc n"])
qed

lemma gc_list_result:
  assumes "outstanding_ok k (map snd ps @ out) (skbs s) (hist s)" "pending_gc s = ps"
  shows "gc_result k a ps s (gc_list k a ps s)"
  using assms
proof (induction ps arbitrary: s)
  case Nil
  then show ?case by (simp add: gc_result_def)
next
  case (Cons pd ps)
  let ?t = "s\<lparr>pending_gc := ps\<rparr>"
  let ?s1 = "?t\<lparr>skbs := (skbs s)(skb (snd pd) := None), hist := hist s @ gc_events (skbs s) pd\<rparr>"
  have live: "outstanding_ok k (snd pd # map snd ps @ out) (skbs ?t) (hist ?t)" using Cons.prems(1) by simp
  note f = free_pdesc_live [OF live, simplified]
  have d: "skb (snd pd) \<notin> (skb \<circ> snd) ` set ps" using Cons.prems(1) by (auto simp: outstanding_ok_def)
  note rd = gc_read_Cons(1) [OF d, of k "hist s" "skbs s", symmetric]
  have IH: "gc_result k a ps ?s1 (gc_list k a ps ?s1)"
    by (rule Cons.IH) (simp_all add: f(2) del: fun_upd_apply)
  show ?case
  proof (cases "gc_read k (hist s) (skbs s) (pd # ps) 0")
    case None
    then show ?thesis using f(1) rd by (auto simp: gc_result_def intro!: exI [of _ 0])
  next
    case (Some v)
    show ?thesis
    proof (cases "v = a")
      case True
      then show ?thesis using f(1) rd Some
        by (auto simp: gc_result_def restrict_complement_singleton intro!: exI [of _ 1])
    next
      case False
      then have e: "gc_list k a (pd # ps) s = gc_list k a ps ?s1" using f(1) rd Some by simp
      show ?thesis
        using IH gc_result_Inl_Cons [OF d, of k s a] gc_result_Inr_Cons [OF d, of k s a] Some False
        unfolding e by (cases "gc_list k a ps ?s1") simp_all
    qed
  qed
qed

text \<open>What is left is live, and where nothing overwrites a freed entry the stop is the first reported one.\<close>

lemma releases_outstanding:
  assumes "outstanding_ok k (map snd ps @ out) S h"
  shows "outstanding_ok k out (S |` (- set (map (skb \<circ> snd) ps))) (h @ concat (map (gc_events S) ps))"
  using assms
proof (induction ps arbitrary: S h)
  case (Cons pd ps)
  let ?S = "S(skb (snd pd) := None)"
  have d: "skb (snd pd) \<notin> (skb \<circ> snd) ` set ps" using Cons.prems(1) by (auto simp: outstanding_ok_def)
  have "outstanding_ok k (map snd ps @ out) ?S (h @ gc_events S pd)"
    using free_pdesc_live(2) [of k pd "map snd ps @ out" "nic_init\<lparr>skbs := S, hist := h\<rparr>"] Cons.prems by simp
  note Cons.IH [OF this, unfolded gc_events_cong [OF d] upd_None_restrict_complement]
  then show ?case by simp
qed simp

lemma first_reported:
  assumes "n \<le> length ps" "\<And>j. Suc j < n \<Longrightarrow> dma_addr (snd (ps ! j)) \<noteq> a"
    and "n < length ps \<longrightarrow> 0 < n \<and> dma_addr (snd (ps ! (n - 1))) = a"
  shows "take n ps = gc_released a ps \<and> drop n ps = gc_kept a ps"
  using assms
proof (induction ps arbitrary: n)
  case (Cons pd ps)
  then obtain m where n: "n = Suc m" by (cases n) auto
  show ?case
  proof (cases "dma_addr (snd pd) = a")
    case True
    then have "m = 0" using Cons.prems(2) [of 0] n by (cases m) auto
    then show ?thesis using True n by simp
  next
    case False
    have "dma_addr (snd (ps ! j)) \<noteq> a" if "Suc j < m" for j
      using Cons.prems(2) [of "Suc j"] n that by simp
    moreover have "m < length ps \<longrightarrow> 0 < m \<and> dma_addr (snd (ps ! (m - 1))) = a"
      using Cons.prems(3) n False by (cases m) auto
    ultimately have "take m ps = gc_released a ps \<and> drop m ps = gc_kept a ps"
      using Cons.prems(1) n by (intro Cons.IH) auto
    then show ?thesis using False n by simp
  qed
qed simp

text \<open>A read of a freed entry that traps, and entries whose freed memory never reads as \<open>a\<close>.\<close>

definition slab_traps :: "kapi \<Rightarrow> bool" where
  "slab_traps k \<longleftrightarrow> (\<exists>h p v. k_freed_gc k h p v = None)"

definition slab_hides :: "u64 \<Rightarrow> kapi \<Rightarrow> bool" where
  "slab_hides a k \<longleftrightarrow> (\<forall>h p v. k_freed_gc k h p v \<notin> {None, Some a})"

lemma slab_keeps_no_trap: "slab_keeps k \<Longrightarrow> \<not> slab_traps k"
  by (simp add: slab_keeps_def slab_traps_def)

lemma demo_no_trap: "\<not> slab_traps demo_kapi"
  by (rule slab_keeps_no_trap [OF demo_slab_keeps])

lemma clean_tx_pending_gc_cases:
  assumes inv: "tx_inv k s"
  obtains (faults) i where "slab_traps k" "i < length (pending_gc s)"
      "gc_read k (hist s) (skbs s) (pending_gc s) i = None"
      "\<And>j. j < i \<Longrightarrow> gc_read k (hist s) (skbs s) (pending_gc s) j \<notin> {None, Some a}"
      "clean_tx_pending_gc k a s = Inl (UseAfterFree (fst (pending_gc s ! i)))"
  | (releases) n s' where "clean_tx_pending_gc k a s = Inr (drop n (pending_gc s) = [], s')"
      "s' = s\<lparr>pending_gc := drop n (pending_gc s),
         skbs := skbs s |` (- set (map (skb \<circ> snd) (take n (pending_gc s)))),
         hist := hist s @ concat (map (gc_events (skbs s)) (take n (pending_gc s)))\<rparr>"
      "tx_inv k s'" "gc_frame s s'" "n \<le> length (pending_gc s)"
      "\<And>j. Suc j < n \<Longrightarrow> gc_read k (hist s) (skbs s) (pending_gc s) j \<notin> {None, Some a}"
      "n < length (pending_gc s) \<longrightarrow> 0 < n \<and> gc_read k (hist s) (skbs s) (pending_gc s) (n - 1) = Some a"
      "slab_keeps k \<Longrightarrow> take n (pending_gc s) = gc_released a (pending_gc s) \<and>
         drop n (pending_gc s) = gc_kept a (pending_gc s)"
      "slab_hides a k \<Longrightarrow> n = length (pending_gc s)"
proof (cases "gc_list k a (pending_gc s) s")
  case (Inl e)
  let ?ps = "pending_gc s"
  have live: "outstanding_ok k (map snd ?ps @ ring_descs TX s) (skbs s) (hist s)"
    using inv by (simp add: tx_inv_def tx_outstanding_def)
  from gc_list_result [OF live refl, of a] obtain i where i: "i < length ?ps"
    "e = UseAfterFree (fst (?ps ! i))" "gc_read k (hist s) (skbs s) ?ps i = None"
    "\<And>j. j < i \<Longrightarrow> gc_read k (hist s) (skbs s) ?ps j \<notin> {None, Some a}"
    by (auto simp: gc_result_def Inl)
  then show ?thesis using faults [of i] Inl by (auto simp: slab_traps_def gc_read_def clean_tx_pending_gc_def)
next
  case (Inr s')
  let ?ps = "pending_gc s"
  have live: "outstanding_ok k (map snd ?ps @ ring_descs TX s) (skbs s) (hist s)"
    using inv by (simp add: tx_inv_def tx_outstanding_def)
  from gc_list_result [OF live refl, of a] obtain n where n: "n \<le> length ?ps"
    "\<And>j. Suc j < n \<Longrightarrow> gc_read k (hist s) (skbs s) ?ps j \<notin> {None, Some a}"
    "n < length ?ps \<longrightarrow> 0 < n \<and> gc_read k (hist s) (skbs s) ?ps (n - 1) = Some a"
    "s' = s\<lparr>pending_gc := drop n ?ps, skbs := skbs s |` (- set (map (skb \<circ> snd) (take n ?ps))),
      hist := hist s @ concat (map (gc_events (skbs s)) (take n ?ps))\<rparr>"
    by (auto simp: gc_result_def Inr)
  have g: "gc_frame s s'" using n(4) by (rule gc_frameI)
  have split: "map snd ?ps @ ring_descs TX s = map snd (take n ?ps) @ map snd (drop n ?ps) @ ring_descs TX s"
    by (metis append.assoc append_take_drop_id map_append)
  have "outstanding_ok k (map snd (drop n ?ps) @ ring_descs TX s) (skbs s') (hist s')"
    using releases_outstanding [OF live [unfolded split]] n(4) by simp
  moreover have "tx_outstanding s' = map snd (drop n ?ps) @ ring_descs TX s"
    unfolding tx_outstanding_def gc_frame_fields(7) [OF g] by (simp add: n(4))
  ultimately have "tx_inv k s'" using inv gc_frame_fields [OF g] by (simp add: tx_inv_def)
  moreover have "take n ?ps = gc_released a ?ps \<and> drop n ?ps = gc_kept a ?ps" if "slab_keeps k"
    using n(1-3) by (intro first_reported) (auto simp: gc_read_keeps [OF that])
  moreover have "n = length ?ps" if "slab_hides a k"
    using that n(1,3) by (auto simp: slab_hides_def gc_read_def)
  moreover have "clean_tx_pending_gc k a s = Inr (drop n ?ps = [], s')"
    using Inr n(4) by (simp add: clean_tx_pending_gc_def)
  ultimately show ?thesis using releases n g by blast
qed

section \<open>Room for the header\<close>

text \<open>
  A socket buffer as the stack hands it in: its head is not at address 0, its data not at the very
  end of the address space, and its headroom is small. \<open>expand_ok\<close>: a new head leaves room for
  as much before the end of the address space.
\<close>

definition skb_wf :: "sk_buff \<Rightarrow> bool" where
  "skb_wf b \<longleftrightarrow> skb_headroom b < unat (skb_data b) \<and> unat (skb_data b) + 4 \<le> 2 ^ 64 \<and>
     skb_headroom b < 2 ^ 31"

definition expand_ok :: "kapi \<Rightarrow> bool" where
  "expand_ok k \<longleftrightarrow> (\<forall>h. unat (k_expand_head k h) + 2 ^ 32 \<le> 2 ^ 64)"

lemma three_mask: "(3 :: u64) = mask 2"
  by (simp add: mask_eq_exp_minus_1)

lemma is_aligned4_iff: "is_aligned4 a \<longleftrightarrow> unat a mod 4 = 0"
  using unat_and_mask [of a 2] by (simp add: is_aligned4_def three_mask word_unat_eq_iff)

lemma unat_align4: "unat a + 4 \<le> 2 ^ 64 \<Longrightarrow> unat (align4 a) = (unat a + 3) div 4 * 4"
proof -
  assume a: "unat a + 4 \<le> 2 ^ 64"
  have "unat (a + 3) = unat a + 3" using a by (subst unat_add_no_wrap) auto
  moreover have "align4 a = (a + 3) AND NOT (mask 2)"
    by (simp only: align4_def three_mask [symmetric])
  ultimately show ?thesis by (simp add: unat_and_not_mask)
qed

lemma unat_align4_diff:
  assumes "unat a + 4 \<le> 2 ^ 64"
  shows "unat (align4 a - a) = (4 - unat a mod 4) mod 4"
proof -
  define q r where "q = unat a div 4" and "r = unat a mod 4"
  have a: "unat a = 4 * q + r" and r: "r < 4" by (auto simp: q_def r_def)
  have u: "unat (align4 a) = (4 * q + r + 3) div 4 * 4" using unat_align4 [OF assms] a by simp
  have "(4 * q + r + 3) div 4 * 4 = 4 * q + r + (4 - r) mod 4"
    using r by (cases "r = 0") (auto simp: add.assoc)
  with u a have e: "unat (align4 a) = unat a + (4 - r) mod 4" by simp
  then have "a \<le> align4 a" by (simp add: word_le_nat_alt)
  then have "unat (align4 a - a) = unat (align4 a) - unat a" by (simp add: unat_sub)
  then show ?thesis using e r_def by simp
qed

lemma unat_add_of_nat:
  assumes "unat (w :: u64) + n < 2 ^ 64"
  shows "unat (w + of_nat n) = unat w + n"
proof -
  have "unat (of_nat n :: u64) = n" using assms by (simp add: unat_of_nat)
  then show ?thesis using assms by (simp add: unat_add_no_wrap)
qed

text \<open>\<open>make_headroom\<close> changes only the history, and keeps a buffer well-formed.\<close>

lemma make_headroom_hist:
  assumes "make_headroom k p b s = (b1, s1)"
  shows "\<exists>es. s1 = s\<lparr>hist := hist s @ es\<rparr> \<and> (es = [] \<or> (\<exists>n a. es = [ExpandHead p n a]))"
proof -
  have "s1 = s \<or> (\<exists>n a. s1 = emit (ExpandHead p n a) s)"
    using assms by (auto simp: make_headroom_def pskb_expand_head_def Let_def split: if_splits)
  then show ?thesis
  proof
    assume "s1 = s"
    then show ?thesis by (intro exI [of _ "[]"]) simp
  qed (auto simp: emit_def)
qed

lemma make_headroom_wf:
  assumes k: "expand_ok k" and wf: "skb_wf b" and eq: "make_headroom k p b s = (b1, s1)"
  shows "skb_headroom b1 < unat (skb_data b1) \<and> skb_len b1 = skb_len b \<and>
    skb_hdr b1 = skb_hdr b \<and> skb_headroom b \<le> skb_headroom b1"
proof -
  let ?h = "k_expand_head k (hist s)"
  let ?n = "if skb_headroom b < 8 then 8 - skb_headroom b
    else unat (align4 (skb_data b) - skb_data b)"
  have "unat (align4 (skb_data b) - skb_data b) < 4"
    using unat_align4_diff [of "skb_data b"] wf by (simp add: skb_wf_def)
  then have n: "skb_headroom b + ?n < 2 ^ 32" using wf by (auto simp: skb_wf_def)
  moreover have "unat ?h + 2 ^ 32 \<le> 2 ^ 64" using k by (simp add: expand_ok_def)
  ultimately have u: "unat (?h + of_nat (skb_headroom b + ?n)) = unat ?h + (skb_headroom b + ?n)"
    by (intro unat_add_of_nat) linarith
  have pos: "?h \<noteq> 0 \<Longrightarrow> 0 < unat ?h" by (simp add: unat_gt_0)
  show ?thesis
    using eq u pos wf
    by (auto simp: make_headroom_def pskb_expand_head_def Let_def skb_wf_def split: if_splits
        simp del: of_nat_add)
qed

lemma round_up4_dvd: "4 dvd m + (4 - m mod 4) mod 4" for m :: nat
proof -
  define q r where "q = m div 4" and "r = m mod 4"
  have m: "m = 4 * q + r" and r: "r < 4" by (auto simp: q_def r_def)
  show ?thesis
  proof (cases "r = 0")
    case True
    then show ?thesis by (simp add: m)
  next
    case False
    then have "m + (4 - m mod 4) mod 4 = 4 * (q + 1)" using r by (simp add: m)
    then show ?thesis by (metis dvd_triv_left)
  qed
qed

lemma make_headroom_aligned:
  assumes wf: "skb_wf b" and ns: "\<not> skb_shared b"
    and head: "4 dvd unat (skb_data b) - skb_headroom b"
    and h: "k_expand_head k (hist s) \<noteq> 0" "4 dvd unat (k_expand_head k (hist s))" "expand_ok k"
    and eq: "make_headroom k p b s = (b1, s1)"
  shows "8 \<le> skb_headroom b1 \<and> 4 dvd unat (skb_data b1)"
proof -
  let ?h = "k_expand_head k (hist s)" and ?a = "skb_data b"
  let ?n = "unat (align4 ?a - ?a)"
  have n: "?n = (4 - unat ?a mod 4) mod 4" using unat_align4_diff [of ?a] wf by (simp add: skb_wf_def)
  then have n4: "?n < 4" by simp
  have hb: "unat ?h + 2 ^ 32 \<le> 2 ^ 64" using h(3) by (simp add: expand_ok_def)
  consider "8 \<le> skb_headroom b" "is_aligned4 ?a" | "skb_headroom b < 8"
    | "8 \<le> skb_headroom b" "\<not> is_aligned4 ?a" by fastforce
  then show ?thesis
  proof cases
    case 1
    then show ?thesis using eq by (auto simp: make_headroom_def Let_def is_aligned4_iff)
  next
    case 2
    have "unat (?h + of_nat 8) = unat ?h + 8" using hb by (intro unat_add_of_nat) simp
    then have "4 dvd unat (?h + 8)" using h(2) by simp
    then show ?thesis using 2 eq ns h(1)
      by (auto simp: make_headroom_def pskb_expand_head_def Let_def)
  next
    case 3
    have u: "unat (?h + of_nat (skb_headroom b + ?n)) = unat ?h + (skb_headroom b + ?n)"
      using hb n4 wf by (intro unat_add_of_nat) (simp add: skb_wf_def)
    have "unat ?a + ?n = (unat ?a - skb_headroom b) + (skb_headroom b + ?n)"
      using wf by (simp add: skb_wf_def)
    moreover have "4 dvd unat ?a + ?n" unfolding n by (rule round_up4_dvd)
    ultimately have "4 dvd skb_headroom b + ?n" using head by (metis dvd_add_right_iff)
    then have "4 dvd unat (?h + of_nat (skb_headroom b + ?n))" unfolding u using h(2) by simp
    then show ?thesis using 3 eq ns h(1)
      by (auto simp: make_headroom_def pskb_expand_head_def Let_def simp del: of_nat_add)
  qed
qed

section \<open>Handing a buffer to the card\<close>

text \<open>A mapping that fails stores its address in a free slot and reports \<open>-EIO\<close>.\<close>

lemma lbuf_xmit_fail:
  assumes "ring_wf TX s" "\<not> desc_full TX s" "k_mapping_error k (k_map_single k (hist s) a)"
  shows "\<exists>s'. lbuf_xmit k a len p s = (- EIO, s') \<and> ring_wf TX s' \<and>
    ring_descs TX s' = ring_descs TX s \<and> pending_gc s' = pending_gc s \<and> skbs s' = skbs s \<and>
    completion s' = completion s \<and>
    hist s' = hist s @ [MapSingle a (unat len) TX (k_map_single k (hist s) a)]"
proof -
  let ?d = "(prod_desc TX s)\<lparr>dma_addr := k_map_single k (hist s) a\<rparr>"
  note r = not_full_room [OF assms(1,2)]
  have "\<not> in_use ?d" using r(3) by (simp add: in_use_def)
  note st = ring_store_unused [OF r(1,2) this]
  define s' where "s' = set_desc TX (prod_ptr s TX) ?d
    (emit (MapSingle a (unat len) TX (k_map_single k (hist s) a)) s)"
  have "lbuf_xmit k a len p s = (- EIO, s')"
    using assms(3) by (simp add: lbuf_xmit_def Let_def s'_def prod_desc_def)
  moreover have "ring_wf TX s'" "ring_descs TX s' = ring_descs TX s"
    using st assms(1) by (simp_all add: ring_wf_def ring_descs_def s'_def set_desc_def emit_def)
  ultimately show ?thesis by (simp add: s'_def set_desc_def)
qed

text \<open>A mapping that succeeds puts one descriptor in flight and tells the card.\<close>

definition xmit_desc :: "u64 \<Rightarrow> u64 \<Rightarrow> u64 \<Rightarrow> nic \<Rightarrow> desc" where
  "xmit_desc a dma p s = (prod_desc TX s)\<lparr>dma_addr := dma, kern_addr := a, skb := p\<rparr>"

lemma xmit_desc_fields [simp]:
  "kern_addr (xmit_desc a dma p s) = a" "dma_addr (xmit_desc a dma p s) = dma"
  "skb (xmit_desc a dma p s) = p"
  by (simp_all add: xmit_desc_def)

lemma lbuf_xmit_ok:
  assumes "ring_wf TX s" "\<not> desc_full TX s" "a \<noteq> 0"
    and "\<not> k_mapping_error k (k_map_single k (hist s) a)"
  shows "\<exists>s'. lbuf_xmit k a len p s = (0, s') \<and> ring_wf TX s' \<and>
    ring_descs TX s' = ring_descs TX s @ [xmit_desc a (k_map_single k (hist s) a) p s] \<and>
    pending_gc s' = pending_gc s \<and> skbs s' = skbs s \<and> completion s' = completion s \<and>
    hist s' = hist s @ [MapSingle a (unat len) TX (k_map_single k (hist s) a),
      Writeq (tx_addr_off (prod_ptr s TX)) (k_map_single k (hist s) a),
      Writel (tx_stat_off (prod_ptr s TX)) (drop_bit 3 ((len + 7) AND NOT 7))]"
proof -
  let ?dma = "k_map_single k (hist s) a"
  let ?d = "xmit_desc a ?dma p s"
  have d: "in_use ?d" using assms(3) by (simp add: in_use_def)
  define s' where "s' = snd (lbuf_xmit k a len p s)"
  have s': "s' = (ring_fill TX ?d s)\<lparr>hist := hist s @ [MapSingle a (unat len) TX ?dma] @
      [Writeq (tx_addr_off (prod_ptr s TX)) ?dma] @
      [Writel (tx_stat_off (prod_ptr s TX)) (drop_bit 3 ((len + 7) AND NOT 7))]\<rparr>"
    using assms(4) by (simp add: s'_def lbuf_xmit_def Let_def ring_fill_def inc_prod_def
        set_desc_def emit_def nf10_writeq_def nf10_writel_def xmit_desc_def prod_desc_def)
  have "ring_wf TX s' = ring_wf TX (ring_fill TX ?d s)"
    "ring_descs TX s' = ring_descs TX (ring_fill TX ?d s)"
    by (rule ring_fields_cong; simp add: s')+
  then have "ring_wf TX s'" "ring_descs TX s' = ring_descs TX s @ [?d]"
    using ring.enq_inv [OF assms(1,2) d] ring.enq_elems [OF assms(1,2) d] by simp_all
  moreover have "lbuf_xmit k a len p s = (0, s')"
    using assms(4) by (simp add: s'_def lbuf_xmit_def Let_def)
  ultimately show ?thesis
    by (intro exI [of _ s']) (simp add: s' ring_fill_def inc_prod_def set_desc_def)
qed

lemma outstanding_ok_hist:
  assumes "outstanding_ok k out S h" "live_dma k h' = live_dma k h" "unmaps_ok k h'"
  shows "outstanding_ok k out S h'"
  using assms by (simp add: outstanding_ok_def)

lemma outstanding_ok_upd:
  assumes "outstanding_ok k out S h"
  shows "outstanding_ok k out (S(p \<mapsto> b)) h"
  using assms by (auto simp: outstanding_ok_def)

text \<open>One new mapping, that did not fail, of a buffer that is not outstanding yet.\<close>

lemma outstanding_ok_add:
  assumes ok: "outstanding_ok k out S h" and k: "kernel_ok k"
    and d: "kern_addr d \<noteq> 0" "dma_addr d = k_map_single k h (kern_addr d)"
      "\<not> k_mapping_error k (dma_addr d)" "skb d \<in> dom S" "skb d \<notin> skb ` set out"
  shows "outstanding_ok k (out @ [d]) S
    (h @ [MapSingle (kern_addr d) n TX (dma_addr d), Writeq o1 v, Writel o2 w])"
proof -
  have "dma_addr d \<notin> live_dma k h"
    using k d(2,3) unfolding kernel_ok_def by metis
  then show ?thesis using ok d by (auto simp: outstanding_ok_def hist_simps)
qed

lemma outstanding_ok_map_failed:
  assumes "outstanding_ok k out S h" "k_mapping_error k dma"
  shows "outstanding_ok k out S (h @ [MapSingle a n TX dma])"
  using assms by (simp add: outstanding_ok_def hist_simps)

lemma push_header_Inr:
  assumes "8 \<le> skb_headroom b" "skb_headroom b < unat (skb_data b)"
  shows "\<exists>b'. push_header b = Inr b' \<and> skb_data b' \<noteq> 0 \<and> skb_data b' = skb_data b - 8 \<and>
    skb_len b' = skb_len b + 8 \<and> skb_hdr b' = [0, skb_len b] @ skb_hdr b"
proof -
  have "skb_data b \<noteq> 8" using assms by auto
  then show ?thesis using assms(1) by (auto simp: push_header_def Let_def)
qed

text \<open>
  What has happened when the buffer, with its header pushed, was handed to \<open>lbuf_xmit\<close> after the calls
  \<open>h\<close>: the mapping of its data over its length, and, where that did not fail, the descriptor in the
  ring and the two registers of the producer's slot.
\<close>

definition xmit_result ::
  "kapi \<Rightarrow> u64 \<Rightarrow> sk_buff \<Rightarrow> nic \<Rightarrow> history \<Rightarrow> netdev_tx \<Rightarrow> nic \<Rightarrow> bool" where
  "xmit_result k p b2 s1 h r s' \<longleftrightarrow> tx_inv k s' \<and> skbs s' = (skbs s1)(p \<mapsto> b2) \<and> rx_same s1 s' \<and>
     (let dma = k_map_single k h (skb_data b2);
          h1 = h @ [MapSingle (skb_data b2) (unat (skb_len b2)) TX dma]
      in if k_mapping_error k dma then
           r = NETDEV_TX_BUSY \<and> tx_outstanding s' = tx_outstanding s1 \<and> hist s' = h1
         else r = NETDEV_TX_OK \<and>
           (\<exists>d. skb d = p \<and> kern_addr d = skb_data b2 \<and> dma_addr d = dma \<and>
              tx_outstanding s' = tx_outstanding s1 @ [d]) \<and>
           hist s' = h1 @ [Writeq (tx_addr_off (prod_ptr s1 TX)) dma,
             Writel (tx_stat_off (prod_ptr s1 TX)) (drop_bit 3 ((skb_len b2 + 7) AND NOT 7))])"

lemma lbuf_xmit_rx_same: "lbuf_xmit k a len p s = (ret, s') \<Longrightarrow> rx_same s s'"
  by (auto simp: lbuf_xmit_def Let_def rx_same_def set_desc_def inc_prod_def nf10_writeq_def
      nf10_writel_def split: if_splits)

lemma lbuf_xmit_result:
  assumes inv: "tx_inv k s" and k: "kernel_ok k" and nf: "\<not> desc_full TX s"
    and p: "p \<notin> skb ` set (tx_outstanding s)" and a: "skb_data b2 \<noteq> 0"
    and eq: "lbuf_xmit k (skb_data b2) (skb_len b2) p (s\<lparr>skbs := (skbs s)(p \<mapsto> b2)\<rparr>) = (ret, s')"
  shows "xmit_result k p b2 s (hist s) (if ret = 0 then NETDEV_TX_OK else NETDEV_TX_BUSY) s'"
proof -
  let ?s = "s\<lparr>skbs := (skbs s)(p \<mapsto> b2)\<rparr>"
  let ?dma = "k_map_single k (hist s) (skb_data b2)"
  have wf: "ring_wf TX ?s" and nf': "\<not> desc_full TX ?s" and len: "length (completion s) = NR_LBUF"
    and ok: "outstanding_ok k (tx_outstanding s) ((skbs s)(p \<mapsto> b2)) (hist s)"
    using inv nf ring_fields_cong [of ?s TX s] outstanding_ok_upd by (auto simp: tx_inv_def)
  have rd: "ring_descs TX ?s = ring_descs TX s" by (rule ring_fields_cong) simp_all
  have rs: "rx_same s s'" using lbuf_xmit_rx_same [OF eq] by (simp add: rx_same_def)
  show ?thesis
  proof (cases "k_mapping_error k ?dma")
    case True
    then have "xmit_result k p b2 s (hist s) NETDEV_TX_BUSY s'" and "ret = - EIO"
      using lbuf_xmit_fail [OF wf nf', of k "skb_data b2" "skb_len b2" p] eq rd len rs
        outstanding_ok_map_failed [OF ok True]
      by (auto simp: xmit_result_def tx_inv_def tx_outstanding_def Let_def)
    then show ?thesis by (simp add: errno_defs)
  next
    case False
    let ?d = "xmit_desc (skb_data b2) ?dma p ?s"
    obtain t where t: "lbuf_xmit k (skb_data b2) (skb_len b2) p ?s = (0, t)" "ring_wf TX t"
      "ring_descs TX t = ring_descs TX s @ [?d]" "pending_gc t = pending_gc s"
      "skbs t = (skbs s)(p \<mapsto> b2)" "completion t = completion s"
      "hist t = hist s @ [MapSingle (skb_data b2) (unat (skb_len b2)) TX ?dma,
        Writeq (tx_addr_off (prod_ptr s TX)) ?dma,
        Writel (tx_stat_off (prod_ptr s TX)) (drop_bit 3 ((skb_len b2 + 7) AND NOT 7))]"
      using lbuf_xmit_ok [OF wf nf' a, of k "skb_len b2" p] False rd by auto
    have "outstanding_ok k (tx_outstanding s @ [?d]) ((skbs s)(p \<mapsto> b2)) (hist t)"
      unfolding t(7)
      using outstanding_ok_add [OF ok k, of ?d "unat (skb_len b2)"] False a p by simp
    moreover have "tx_outstanding t = tx_outstanding s @ [?d]" using t(3,4) by (simp add: tx_outstanding_def)
    moreover have "t = s'" "ret = 0" using eq t(1) by simp_all
    ultimately show ?thesis using t len rs False by (auto simp: xmit_result_def tx_inv_def Let_def)
  qed
qed

lemma outstanding_ok_mono:
  assumes "outstanding_ok k out S h" "dom S \<subseteq> dom S'" "live_dma k h' = live_dma k h"
    "unmaps_ok k h' = unmaps_ok k h"
  shows "outstanding_ok k out S' h'"
  using assms unfolding outstanding_ok_def by blast

lemma tx_inv_cong:
  assumes "descs s' TX = descs s TX" "prod_ptr s' TX = prod_ptr s TX" "cons_ptr s' TX = cons_ptr s TX"
    and "length (completion s') = length (completion s)" "pending_gc s' = pending_gc s"
    and "dom (skbs s) \<subseteq> dom (skbs s')" "live_dma k (hist s') = live_dma k (hist s)"
    and "unmaps_ok k (hist s') = unmaps_ok k (hist s)"
  shows "tx_inv k s \<Longrightarrow> tx_inv k s'"
  using assms(4-) ring_fields_cong(1,2) [OF assms(1-3)] outstanding_ok_mono
    [of k "map snd (pending_gc s) @ ring_descs TX s" "skbs s" "hist s" "skbs s'" "hist s'"]
  by (simp add: tx_inv_def tx_outstanding_def)

lemma make_headroom_fields:
  assumes "make_headroom k p b s = (b1, s1)"
  shows "descs s1 = descs s" "prod_ptr s1 = prod_ptr s" "cons_ptr s1 = cons_ptr s"
    "completion s1 = completion s" "pending_gc s1 = pending_gc s" "skbs s1 = skbs s"
    "live_dma k' (hist s1) = live_dma k' (hist s)" "unmaps_ok k' (hist s1) = unmaps_ok k' (hist s)"
  using make_headroom_hist [OF assms] by (auto simp: hist_simps)

lemma make_headroom_room:
  "skb_headroom (fst (make_headroom k p b s)) < 8 \<longleftrightarrow>
     skb_headroom b < 8 \<and> (skb_shared b \<or> k_expand_head k (hist s) = 0)"
  by (auto simp: make_headroom_def pskb_expand_head_def Let_def)

text \<open>
  Every outcome of a transmission, after collecting completions: no free slot; no room for the header;
  otherwise the buffer goes through \<open>make_headroom\<close> (whose calls are \<open>es\<close>), gets its header, and
  \<open>xmit_result\<close> holds.
\<close>

lemma start_xmit_cases:
  assumes inv: "tx_inv k s" and k: "kernel_ok k" "expand_ok k"
    and b: "skbs s p = Some b" "skb_wf b" and p: "p \<notin> skb ` set (tx_outstanding s)"
  shows "\<exists>s1. check_tx_completion k s = Inr s1 \<and> tx_inv k s1 \<and> same_but_tx_queue s s1 \<and>
    set (tx_outstanding s1) \<subseteq> set (tx_outstanding s) \<and>
    (if desc_full TX s1 then \<exists>c. nf10_lbuf_start_xmit k p s = Inr (NETDEV_TX_BUSY, s1\<lparr>debug_count := c\<rparr>)
     else if skb_headroom b < 8 \<and> (skb_shared b \<or> k_expand_head k (hist s1) = 0)
       then nf10_lbuf_start_xmit k p s = Inl SkbUnderPanic
     else \<exists>b1 es b2 r s'.
       make_headroom k p b (s1\<lparr>debug_count := 0\<rparr>) = (b1, s1\<lparr>debug_count := 0, hist := hist s1 @ es\<rparr>) \<and>
       (es = [] \<or> (\<exists>n a. es = [ExpandHead p n a])) \<and> push_header b1 = Inr b2 \<and>
       skb_data b2 = skb_data b1 - 8 \<and> skb_len b2 = skb_len b + 8 \<and>
       skb_hdr b2 = [0, skb_len b] @ skb_hdr b \<and>
       nf10_lbuf_start_xmit k p s = Inr (r, s') \<and> xmit_result k p b2 s1 (hist s1 @ es) r s')"
proof -
  obtain s1 where c: "check_tx_completion k s = Inr s1" "tx_inv k s1" "same_but_tx_queue s s1"
    "ring_descs TX s1 = drop (tx_done s) (ring_descs TX s)"
    "set (map snd (pending_gc s1)) \<subseteq>
       set (map snd (pending_gc s)) \<union> set (take (tx_done s) (ring_descs TX s))"
    using check_tx_completion_spec [OF inv] by blast
  have sub: "set (tx_outstanding s1) \<subseteq> set (tx_outstanding s)"
    using c(5) set_take_subset [of "tx_done s" "ring_descs TX s"]
      set_drop_subset [of "tx_done s" "ring_descs TX s"]
    unfolding tx_outstanding_def set_append c(4) by blast
  then have p1: "p \<notin> skb ` set (tx_outstanding s1)" using p by blast
  have b1: "skbs s1 p = Some b" using c(3) b(1) by (simp add: same_but_tx_queue_def)
  let ?s2 = "s1\<lparr>debug_count := 0\<rparr>"
  obtain b1 s3 where m: "make_headroom k p b ?s2 = (b1, s3)" by fastforce
  obtain es where es: "s3 = ?s2\<lparr>hist := hist s1 @ es\<rparr>" "es = [] \<or> (\<exists>n a. es = [ExpandHead p n a])"
    using make_headroom_hist [OF m] by auto
  note mf = make_headroom_fields [OF m]
  have i3: "tx_inv k s3" and nf3: "desc_full TX s3 = desc_full TX s1"
    and r3: "ring_descs TX s3 = ring_descs TX s1"
    using c(2) tx_inv_cong [of s3 s1 k] ring_fields_cong [of s3 TX s1] mf by auto
  have o3: "tx_outstanding s3 = tx_outstanding s1" using r3 mf(5) by (simp add: tx_outstanding_def)
  note w = make_headroom_wf [OF k(2) b(2) m]
  note room = make_headroom_room [of k p b ?s2, unfolded m fst_conv]
  have fits: "\<exists>b2 r s'. push_header b1 = Inr b2 \<and> skb_data b2 = skb_data b1 - 8 \<and> skb_len b2 = skb_len b + 8 \<and>
      skb_hdr b2 = [0, skb_len b] @ skb_hdr b \<and>
      nf10_lbuf_start_xmit k p s = Inr (r, s') \<and> xmit_result k p b2 s1 (hist s1 @ es) r s'"
    if nf: "\<not> desc_full TX s1" and r8: "\<not> skb_headroom b1 < 8"
  proof -
    obtain b2 where b2: "push_header b1 = Inr b2" "skb_data b2 \<noteq> 0" "skb_data b2 = skb_data b1 - 8"
      "skb_len b2 = skb_len b + 8" "skb_hdr b2 = [0, skb_len b] @ skb_hdr b"
      using push_header_Inr [of b1] r8 w by auto
    obtain ret s5 where x:
      "lbuf_xmit k (skb_data b2) (skb_len b2) p (s3\<lparr>skbs := (skbs s3)(p \<mapsto> b2)\<rparr>) = (ret, s5)"
      by fastforce
    let ?r = "if ret = 0 then NETDEV_TX_OK else NETDEV_TX_BUSY"
    let ?s' = "s5\<lparr>tx_packets := tx_packets s5 + 1\<rparr>"
    have x5: "xmit_result k p b2 s3 (hist s3) ?r s5"
      using lbuf_xmit_result [OF i3 k(1) _ _ b2(2) x] nf nf3 p1 o3 by simp
    have "tx_inv k ?s'" using x5 tx_inv_cong [of ?s' s5 k] by (auto simp: xmit_result_def)
    moreover have "tx_outstanding ?s' = tx_outstanding s5"
      using ring_fields_cong(1) [of ?s' TX s5] by (simp add: tx_outstanding_def)
    moreover have "rx_same s1 s3" by (simp add: es(1) rx_same_def)
    ultimately have "xmit_result k p b2 s1 (hist s1 @ es) ?r ?s'"
      using x5 unfolding xmit_result_def o3 mf(2,6) by (simp add: es(1) Let_def rx_same_def)
    moreover have "nf10_lbuf_start_xmit k p s = Inr (?r, ?s')"
      using c(1) nf b1 m b2(1) x by (simp add: nf10_lbuf_start_xmit_def Let_def)
    ultimately show ?thesis using b2 by blast
  qed
  have full: "\<exists>d. nf10_lbuf_start_xmit k p s = Inr (NETDEV_TX_BUSY, s1\<lparr>debug_count := d\<rparr>)"
    if "desc_full TX s1"
    using that c(1) by (auto simp: nf10_lbuf_start_xmit_def Let_def)
  have panic: "nf10_lbuf_start_xmit k p s = Inl SkbUnderPanic"
    if "\<not> desc_full TX s1" "skb_headroom b1 < 8"
    using that c(1) b1 m by (simp add: nf10_lbuf_start_xmit_def Let_def push_header_def)
  have m': "make_headroom k p b ?s2 = (b1, s1\<lparr>debug_count := 0, hist := hist s1 @ es\<rparr>)"
    using m es(1) by simp
  show ?thesis
  proof (intro exI [of _ s1] conjI c(1-3) sub, cases "desc_full TX s1", goal_cases)
    case 1
    then show ?case using full by simp
  next
    case 2
    then show ?case
    proof (cases "skb_headroom b1 < 8")
      case True
      then show ?thesis using 2 panic room by simp
    next
      case False
      obtain b2 r s' where "push_header b1 = Inr b2 \<and> skb_data b2 = skb_data b1 - 8 \<and>
          skb_len b2 = skb_len b + 8 \<and> skb_hdr b2 = [0, skb_len b] @ skb_hdr b \<and>
          nf10_lbuf_start_xmit k p s = Inr (r, s') \<and> xmit_result k p b2 s1 (hist s1 @ es) r s'"
        using fits [OF 2 False] by blast
      moreover have "\<not> (skb_headroom b < 8 \<and> (skb_shared b \<or> k_expand_head k (hist s1) = 0))"
        using False room by simp
      ultimately show ?thesis using 2 m' es(2) by (simp only: if_False) blast
    qed
  qed
qed

lemma start_xmit_fits:
  assumes "tx_inv k s" "kernel_ok k" "expand_ok k" "skbs s p = Some b" "skb_wf b"
    and "p \<notin> skb ` set (tx_outstanding s)" and c: "check_tx_completion k s = Inr s1"
    and nf: "\<not> desc_full TX s1"
    and room: "\<not> (skb_headroom b < 8 \<and> (skb_shared b \<or> k_expand_head k (hist s1) = 0))"
  obtains b1 es b2 r s' where "same_but_tx_queue s s1"
    "make_headroom k p b (s1\<lparr>debug_count := 0\<rparr>) = (b1, s1\<lparr>debug_count := 0, hist := hist s1 @ es\<rparr>)"
    "es = [] \<or> (\<exists>n a. es = [ExpandHead p n a])" "push_header b1 = Inr b2"
    "skb_data b2 = skb_data b1 - 8" "skb_len b2 = skb_len b + 8" "skb_hdr b2 = [0, skb_len b] @ skb_hdr b"
    "nf10_lbuf_start_xmit k p s = Inr (r, s')" "xmit_result k p b2 s1 (hist s1 @ es) r s'"
  using start_xmit_cases [OF assms(1-6), unfolded c sum.inject] nf room that
  by (elim exE conjE) (simp only: if_False, blast)

section \<open>The interrupt loop\<close>

text \<open>A card that keeps the completion array's length; one that is quiet from point \<open>T\<close> on.\<close>

definition device_ok :: "device \<Rightarrow> bool" where
  "device_ok dev \<longleftrightarrow> (\<forall>t x. length (fst (dev t x)) = length (fst x))"

definition quiet_from :: "nat \<Rightarrow> device \<Rightarrow> bool" where
  "quiet_from T dev \<longleftrightarrow> (\<forall>t x. T \<le> t \<longrightarrow> dev t x = x)"

lemma card_step_fields [simp]:
  "pending_gc (card_step dev t s) = pending_gc s" "hist (card_step dev t s) = hist s"
  "skbs (card_step dev t s) = skbs s" "descs (card_step dev t s) = descs s"
  "prod_ptr (card_step dev t s) = prod_ptr s" "cons_ptr (card_step dev t s) = cons_ptr s"
  by (simp_all add: card_step_def split: prod.split)

lemma card_step_inv: "device_ok dev \<Longrightarrow> tx_inv k s \<Longrightarrow> tx_inv k (card_step dev t s)"
  by (rule tx_inv_cong [of "card_step dev t s" s k])
    (simp_all add: card_step_def device_ok_def case_prod_beta)

lemma card_step_quiet: "quiet_from T dev \<Longrightarrow> T \<le> t \<Longrightarrow> card_step dev t s = s"
  by (simp add: card_step_def quiet_from_def)

text \<open>
  One round: it does not fault but where the allocator traps the read of a freed entry, keeps the
  invariant and ends the loop exactly when the report has not changed since. Where the freed entries
  are left alone it has released through the reported address.
\<close>

lemma clean_tx_round:
  assumes dev: "device_ok dev" and inv: "tx_inv k s"
  shows "(\<exists>p. slab_traps k \<and> clean_tx_again k dev t s = Some (Inl (UseAfterFree p))) \<or>
    (\<exists>s3. tx_inv k s3 \<and> (slab_keeps k \<longrightarrow> last_gc s3 \<notin> dma_addr ` snd ` set (pending_gc s3)) \<and>
      clean_tx_again k dev t s =
        (let s4 = card_step dev (t + 2) s3; s5 = card_step dev (t + 3) s4
         in if last_gc s3 \<noteq> last_gc s4 then clean_tx_again k dev (t + 4) s4
            else if last_gc s5 \<noteq> last_gc s3 then clean_tx_again k dev (t + 4) s5
            else Some (Inr (pending_gc s3 = [], s5\<lparr>last_gc := 0\<rparr>))))"
proof -
  obtain s1 where s1: "check_tx_completion k (card_step dev t s) = Inr s1" "tx_inv k s1"
    using check_tx_completion_spec [OF card_step_inv [OF dev inv]] by blast
  let ?s2 = "card_step dev (t + 1) s1"
  have i2: "tx_inv k ?s2" by (rule card_step_inv [OF dev s1(2)])
  note e = clean_tx_again.simps [of k dev t s, unfolded s1(1) sum.case Let_def]
  show ?thesis
  proof (cases rule: clean_tx_pending_gc_cases [OF i2, of "last_gc ?s2", case_names faults releases])
    case (faults i)
    then show ?thesis unfolding e faults(5) by simp
  next
    case (releases n s3)
    have p3: "pending_gc s3 = drop n (pending_gc ?s2)" unfolding releases(2) by simp
    have g3: "last_gc s3 = last_gc ?s2" by (rule gc_frame_fields(5) [OF releases(4)])
    have "distinct (map (dma_addr \<circ> snd) (pending_gc ?s2))"
      using i2 by (simp add: tx_inv_def tx_outstanding_def outstanding_ok_def)
    note gc_kept_distinct [OF this, of "last_gc ?s2"]
    then have "slab_keeps k \<longrightarrow> last_gc s3 \<notin> dma_addr ` snd ` set (pending_gc s3)"
      using releases(8) unfolding p3 g3 by (auto simp: image_comp)
    moreover note e [unfolded releases(1) sum.case prod.case, folded p3 g3]
    ultimately show ?thesis using releases(3) unfolding Let_def by blast
  qed
qed

text \<open>Once the card is quiet the loop ends.\<close>

definition irq_result :: "kapi \<Rightarrow> (fault + bool \<times> nic) option \<Rightarrow> bool" where
  "irq_result k r \<longleftrightarrow>
     (\<exists>p. slab_traps k \<and> r = Some (Inl (UseAfterFree p))) \<or>
     (\<exists>s'. r = Some (Inr (pending_gc s' = [], s'\<lparr>last_gc := 0\<rparr>)) \<and> tx_inv k s' \<and>
        (slab_keeps k \<longrightarrow> last_gc s' \<notin> dma_addr ` snd ` set (pending_gc s')))"

lemma clean_tx_again_ends:
  assumes dev: "device_ok dev" and "tx_inv k s" and quiet: "quiet_from T dev"
  shows "irq_result k (clean_tx_again k dev t s)"
  using assms(2)
proof (induction "T - t" arbitrary: s t rule: less_induct)
  case less
  consider (faults) p where "slab_traps k" "clean_tx_again k dev t s = Some (Inl (UseAfterFree p))"
  | (ends) s3 where "tx_inv k s3" "slab_keeps k \<longrightarrow> last_gc s3 \<notin> dma_addr ` snd ` set (pending_gc s3)"
      "clean_tx_again k dev t s =
        (let s4 = card_step dev (t + 2) s3; s5 = card_step dev (t + 3) s4
         in if last_gc s3 \<noteq> last_gc s4 then clean_tx_again k dev (t + 4) s4
            else if last_gc s5 \<noteq> last_gc s3 then clean_tx_again k dev (t + 4) s5
            else Some (Inr (pending_gc s3 = [], s5\<lparr>last_gc := 0\<rparr>)))"
    using clean_tx_round [OF dev less.prems, of t] by blast
  then show ?case
  proof cases
    case faults
    then show ?thesis by (simp add: irq_result_def)
  next
    case ends
    define s4 s5 where "s4 = card_step dev (t + 2) s3" and "s5 = card_step dev (t + 3) s4"
    have i4: "tx_inv k s4" "tx_inv k s5" using card_step_inv [OF dev] ends(1) by (auto simp: s4_def s5_def)
    have p: "pending_gc s5 = pending_gc s3" by (simp add: s4_def s5_def)
    note e' = ends(3) [unfolded Let_def, folded s4_def, folded s5_def]
    show ?thesis
    proof (cases "last_gc s4 = last_gc s3 \<and> last_gc s5 = last_gc s3")
      case True
      then have "clean_tx_again k dev t s = Some (Inr (pending_gc s5 = [], s5\<lparr>last_gc := 0\<rparr>))"
        by (simp add: e' p)
      then show ?thesis using i4(2) ends(2) True p
        by (simp add: irq_result_def) (metis (no_types))
    next
      case False
      then have "t < T"
        using card_step_quiet [OF quiet, of "t + 2" s3] card_step_quiet [OF quiet, of "t + 3" s4]
        by (cases "t < T") (auto simp: s4_def s5_def)
      then have lt: "T - (t + 4) < T - t" by simp
      show ?thesis
        using less.hyps [OF lt i4(1)] less.hyps [OF lt i4(2)] False by (auto simp: e')
    qed
  qed
qed

text \<open>Without assuming that the loop ends: if it does, its result is one of those two.\<close>

lemma clean_tx_again_partial:
  assumes run: "clean_tx_again k dev t s = Some r" and dev: "device_ok dev" and inv: "tx_inv k s"
    and step: "\<And>t s. P s \<Longrightarrow> P (card_step dev t s)"
    and check: "\<And>s s'. tx_inv k s \<Longrightarrow> P s \<Longrightarrow> check_tx_completion k s = Inr s' \<Longrightarrow> P s'"
    and gc: "\<And>a s c s'. tx_inv k s \<Longrightarrow> P s \<Longrightarrow> clean_tx_pending_gc k a s = Inr (c, s') \<Longrightarrow> P s'"
    and ack: "\<And>s. P s \<Longrightarrow> P (s\<lparr>last_gc := 0\<rparr>)" and start: "P s"
  shows "(\<exists>p. slab_traps k \<and> r = Inl (UseAfterFree p)) \<or> (\<exists>c s'. r = Inr (c, s') \<and> tx_inv k s' \<and> P s')"
proof -
  let ?P = "\<lambda>k' dev' (t :: nat) s r. k' = k \<longrightarrow> dev' = dev \<longrightarrow> tx_inv k s \<longrightarrow> P s \<longrightarrow>
    (\<exists>p. slab_traps k \<and> r = Inl (UseAfterFree p)) \<or>
    (\<exists>(c :: bool) s'. r = (Inr (c, s') :: fault + bool \<times> nic) \<and> tx_inv k s' \<and> P s')"
  have "?P k dev t s r"
  proof (rule clean_tx_again.raw_induct [where P = ?P, OF _ run], intro impI, goal_cases)
    case (1 again k' dev' t s r)
    note inv = 1(5) and Ps = 1(6)
    have IH: "again k dev t s = Some r \<Longrightarrow> tx_inv k s \<Longrightarrow> P s \<Longrightarrow>
        (\<exists>p. slab_traps k \<and> r = Inl (UseAfterFree p)) \<or> (\<exists>c s'. r = Inr (c, s') \<and> tx_inv k s' \<and> P s')"
      for t s r using 1(1) by blast
    obtain s1 where s1: "check_tx_completion k (card_step dev t s) = Inr s1" "tx_inv k s1"
      using check_tx_completion_spec [OF card_step_inv [OF dev inv]] by blast
    have P1: "P s1" by (rule check [OF card_step_inv [OF dev inv] step [OF Ps] s1(1)])
    let ?s2 = "card_step dev (t + 1) s1"
    have i2: "tx_inv k ?s2" by (rule card_step_inv [OF dev s1(2)])
    note body = 1(2) [unfolded 1(3,4) s1(1) sum.case Let_def]
    show ?case
    proof (cases rule: clean_tx_pending_gc_cases [OF i2, of "last_gc ?s2", case_names faults releases])
      case (faults i)
      then show ?thesis using body [unfolded faults(5) sum.case option.inject, symmetric] faults(1) by blast
    next
      case (releases n s3)
      define s4 s5 where "s4 = card_step dev (t + 2) s3" and "s5 = card_step dev (t + 3) s4"
      have P3: "P s3" by (rule gc [OF i2 step [OF P1] releases(1)])
      have i: "tx_inv k s4" "tx_inv k s5" "tx_inv k (s5\<lparr>last_gc := 0\<rparr>)"
        using card_step_inv [OF dev] releases(3) tx_inv_cong [of "s5\<lparr>last_gc := 0\<rparr>" s5 k]
        by (auto simp: s4_def s5_def)
      have P: "P s4" "P s5" "P (s5\<lparr>last_gc := 0\<rparr>)" using step ack P3 by (auto simp: s4_def s5_def)
      note h = body [unfolded releases(1) sum.case prod.case, folded s4_def, folded s5_def]
      show ?thesis using h i P IH by (auto split: if_splits)
    qed
  qed
  then show ?thesis using inv start by simp
qed

section \<open>Every state the driver can reach\<close>

text \<open>
  The transmit side as a transition system, from loading the driver on; the flag says whether the
  interface is up. It is brought up, which may fail, and down again, any number of times; while it is
  up the card writes the completion buffer, the stack hands in a socket buffer for the first time or
  again after a \<open>NETDEV_TX_BUSY\<close>, and the interrupt handler runs. It is brought up again only when
  no descriptor is left in the TX ring: the code does not see to that, and
  \<open>leftover_descriptor_blocks_tx\<close> below is the other case. The receive ring stays as it was armed.
\<close>

inductive tx_reach :: "config \<Rightarrow> kapi \<Rightarrow> bool \<Rightarrow> nic \<Rightarrow> bool" for cfg k where
  load: "tx_reach cfg k False nic_init"
| up: "tx_reach cfg k False s \<Longrightarrow> ring_descs TX s = [] \<Longrightarrow>
    nf10_lbuf_init_buffers cfg k s = Inr (err, s') \<Longrightarrow> tx_reach cfg k (err = 0) s'"
| down: "tx_reach cfg k True s \<Longrightarrow> tx_reach cfg k False (nf10_lbuf_free_buffers cfg s)"
| card_writes: "tx_reach cfg k True s \<Longrightarrow> length c = NR_LBUF \<Longrightarrow>
    tx_reach cfg k True (s\<lparr>completion := c, last_gc := g\<rparr>)"
| new_skb: "tx_reach cfg k u s \<Longrightarrow> p \<notin> dom (skbs s) \<Longrightarrow>
    tx_reach cfg k u (s\<lparr>skbs := (skbs s)(p \<mapsto> b)\<rparr>)"
| xmit: "tx_reach cfg k True s \<Longrightarrow> skbs s p = Some b \<Longrightarrow> skb_wf b \<Longrightarrow>
    p \<notin> skb ` set (tx_outstanding s) \<Longrightarrow> nf10_lbuf_start_xmit k p s = Inr (r, s') \<Longrightarrow>
    tx_reach cfg k True s'"
| tx_irq: "tx_reach cfg k True s \<Longrightarrow> device_ok dev \<Longrightarrow>
    nf10_lbuf_clean_tx_irq k dev s = Some (Inr (c, s')) \<Longrightarrow> tx_reach cfg k True s'"

text \<open>
  What bringing the interface down relies on: the memory and the DMA addresses of the RX ring and of
  the completion buffer are live, and none of those addresses belongs to an outstanding transmission.
\<close>

definition rx_kern :: "nic \<Rightarrow> u64 set" where
  "rx_kern s = insert (tx_completion_kern_addr s) (kern_addr ` set (ring_descs RX s))"

definition rx_dma :: "nic \<Rightarrow> u64 set" where
  "rx_dma s = insert (tx_completion_dma_addr s) (dma_addr ` set (ring_descs RX s))"

definition rx_apart :: "kapi \<Rightarrow> nic \<Rightarrow> bool" where
  "rx_apart k s \<longleftrightarrow> desc_full RX s \<and>
     (\<exists>M D. rx_ready k (insert (tx_completion_kern_addr s) M) (insert (tx_completion_dma_addr s) D) s \<and>
        tx_completion_kern_addr s \<notin> M \<and> tx_completion_dma_addr s \<notin> D) \<and>
     dma_addr ` set (tx_outstanding s) \<inter> rx_dma s = {}"

lemma rx_ring_same:
  assumes "rx_same s s'"
  shows "ring_descs RX s' = ring_descs RX s" "ring_wf RX s' = ring_wf RX s"
    "desc_full RX s' = desc_full RX s" "rx_kern s' = rx_kern s" "rx_dma s' = rx_dma s"
  using assms ring_fields_cong [of s' RX s] by (simp_all add: rx_same_def rx_kern_def rx_dma_def)

lemma rx_apart_step:
  assumes ap: "rx_apart k s" and same: "rx_same s s'"
    and mem: "live_mem (hist s') = live_mem (hist s)" "frees_ok (hist s')" "unmaps_ok k (hist s')"
    and dma: "rx_dma s \<subseteq> live_dma k (hist s')"
    and out: "dma_addr ` set (tx_outstanding s') \<inter> rx_dma s = {}"
  shows "rx_apart k s'"
proof -
  obtain M D where r: "rx_ready k (insert (tx_completion_kern_addr s) M) (insert (tx_completion_dma_addr s) D) s"
    "tx_completion_kern_addr s \<notin> M" "tx_completion_dma_addr s \<notin> D"
    using ap by (auto simp: rx_apart_def)
  let ?D = "live_dma k (hist s') - rx_dma s"
  have c: "tx_completion_kern_addr s' = tx_completion_kern_addr s"
    "tx_completion_dma_addr s' = tx_completion_dma_addr s"
    using same by (simp_all add: rx_same_def)
  have "rx_ready k (insert (tx_completion_kern_addr s) M) (insert (tx_completion_dma_addr s) ?D) s'"
    using r dma mem unfolding rx_ready_def bufs_owned_def rx_ring_same(1,2) [OF same] rx_dma_def by auto
  moreover have "tx_completion_dma_addr s \<notin> ?D" by (simp add: rx_dma_def)
  ultimately show ?thesis
    using ap out r(2) unfolding rx_apart_def rx_ring_same [OF same] c by blast
qed

lemma rx_apart_live:
  assumes "rx_apart k s"
  shows "rx_dma s \<subseteq> live_dma k (hist s)" "frees_ok (hist s)" "unmaps_ok k (hist s)"
  using assms by (auto simp: rx_apart_def rx_ready_def bufs_owned_def rx_dma_def)

text \<open>Each operation of the transmit half keeps it.\<close>

lemma releases_live:
  "live_mem (h @ concat (map (gc_events B) ps)) = live_mem h \<and>
   frees_ok (h @ concat (map (gc_events B) ps)) = frees_ok h \<and>
   live_dma k (h @ concat (map (gc_events B) ps)) = live_dma k h - (dma_addr \<circ> snd) ` set ps"
proof (induction ps arbitrary: h)
  case (Cons pd ps)
  have "live_mem (h @ gc_events B pd) = live_mem h" "frees_ok (h @ gc_events B pd) = frees_ok h"
    "live_dma k (h @ gc_events B pd) = live_dma k h - {dma_addr (snd pd)}"
    by (simp_all add: gc_events_def hist_simps)
  then show ?case using Cons.IH [of "h @ gc_events B pd"] by auto
qed simp

lemma check_rx_apart:
  assumes "tx_inv k s" "rx_apart k s" "check_tx_completion k s = Inr s'"
  shows "rx_apart k s'"
proof -
  obtain s'' where c: "check_tx_completion k s = Inr s''" "tx_inv k s''" "same_but_tx_queue s s''"
    "ring_descs TX s'' = drop (tx_done s) (ring_descs TX s)"
    "set (map snd (pending_gc s'')) \<subseteq>
       set (map snd (pending_gc s)) \<union> set (take (tx_done s) (ring_descs TX s))"
    using check_tx_completion_spec [OF assms(1)] by blast
  have e: "s'' = s'" using c(1) assms(3) by simp
  have sub: "set (tx_outstanding s') \<subseteq> set (tx_outstanding s)"
    using c(5) set_take_subset [of "tx_done s" "ring_descs TX s"]
      set_drop_subset [of "tx_done s" "ring_descs TX s"]
    unfolding tx_outstanding_def set_append e [symmetric] c(4) by blast
  show ?thesis
  proof (rule rx_apart_step [OF assms(2)])
    show "dma_addr ` set (tx_outstanding s') \<inter> rx_dma s = {}"
      using sub assms(2) unfolding rx_apart_def by blast
  qed (use c(2,3) e rx_apart_live [OF assms(2)] in
      \<open>auto simp: same_but_tx_queue_def tx_inv_def outstanding_ok_def\<close>)
qed

lemma gc_rx_apart:
  assumes "tx_inv k s" "rx_apart k s" "clean_tx_pending_gc k a s = Inr (c, s')"
  shows "rx_apart k s'"
proof (cases rule: clean_tx_pending_gc_cases [OF assms(1), of a, case_names faults releases])
  case (faults i)
  then show ?thesis using assms(3) by simp
next
  case (releases n s'')
  let ?ps = "pending_gc s" and ?out = "tx_outstanding s"
  have e: "s'' = s'" using releases(1) assms(3) by simp
  note live = releases_live [of "hist s" "skbs s" "take n ?ps" k]
  have h: "hist s' = hist s @ concat (map (gc_events (skbs s)) (take n ?ps))"
    unfolding e [symmetric] releases(2) by simp
  have apart: "dma_addr ` set ?out \<inter> rx_dma s = {}" using assms(2) by (simp add: rx_apart_def)
  have "tx_outstanding s' = map snd (drop n ?ps) @ ring_descs TX s"
    using gc_frame_fields(7) [OF releases(4)] unfolding e tx_outstanding_def
    by (simp add: releases(2) [unfolded e])
  then have sub: "set (tx_outstanding s') \<subseteq> set ?out"
    using set_drop_subset [of n ?ps] by (auto simp: tx_outstanding_def)
  have "(dma_addr \<circ> snd) ` set (take n ?ps) \<subseteq> dma_addr ` set ?out"
    using set_take_subset [of n ?ps] by (force simp: tx_outstanding_def)
  then have dma: "rx_dma s \<subseteq> live_dma k (hist s')"
    using apart rx_apart_live(1) [OF assms(2)] live unfolding h by blast
  show ?thesis
  proof (rule rx_apart_step [OF assms(2) _ _ _ _ dma])
    show "rx_same s s'" unfolding e [symmetric] releases(2) by (simp add: rx_same_def)
    show "live_mem (hist s') = live_mem (hist s)" "frees_ok (hist s')"
      using live rx_apart_live(2) [OF assms(2)] unfolding h by simp_all
    show "unmaps_ok k (hist s')" using releases(3) e by (simp add: tx_inv_def outstanding_ok_def)
    show "dma_addr ` set (tx_outstanding s') \<inter> rx_dma s = {}" using sub apart by blast
  qed
qed

lemma start_xmit_keeps:
  assumes inv: "tx_inv k s" and k: "kernel_ok k" "expand_ok k"
    and b: "skbs s p = Some b" "skb_wf b" and p: "p \<notin> skb ` set (tx_outstanding s)"
    and eq: "nf10_lbuf_start_xmit k p s = Inr (r, s')"
  shows "tx_inv k s'" "rx_apart k s \<Longrightarrow> rx_apart k s'"
proof -
  obtain s1 where s1: "check_tx_completion k s = Inr s1" "tx_inv k s1" and
    c: "if desc_full TX s1 then \<exists>c. nf10_lbuf_start_xmit k p s = Inr (NETDEV_TX_BUSY, s1\<lparr>debug_count := c\<rparr>)
     else if skb_headroom b < 8 \<and> (skb_shared b \<or> k_expand_head k (hist s1) = 0)
       then nf10_lbuf_start_xmit k p s = Inl SkbUnderPanic
     else \<exists>b1 es b2 r s'.
       make_headroom k p b (s1\<lparr>debug_count := 0\<rparr>) = (b1, s1\<lparr>debug_count := 0, hist := hist s1 @ es\<rparr>) \<and>
       (es = [] \<or> (\<exists>n a. es = [ExpandHead p n a])) \<and> push_header b1 = Inr b2 \<and>
       skb_data b2 = skb_data b1 - 8 \<and> skb_len b2 = skb_len b + 8 \<and>
       skb_hdr b2 = [0, skb_len b] @ skb_hdr b \<and>
       nf10_lbuf_start_xmit k p s = Inr (r, s') \<and> xmit_result k p b2 s1 (hist s1 @ es) r s'"
    using start_xmit_cases [OF inv k b p] by blast
  have "(\<exists>c. s' = s1\<lparr>debug_count := c\<rparr>) \<or>
    (\<exists>es b2. (es = [] \<or> (\<exists>n a. es = [ExpandHead p n a])) \<and> xmit_result k p b2 s1 (hist s1 @ es) r s')"
  proof (cases "desc_full TX s1")
    case True
    then show ?thesis using c eq by auto
  next
    case False
    then show ?thesis using c eq by (simp split: if_splits) blast
  qed
  then consider (busy) c where "s' = s1\<lparr>debug_count := c\<rparr>"
  | (sent) es b2 where "es = [] \<or> (\<exists>n a. es = [ExpandHead p n a])" "xmit_result k p b2 s1 (hist s1 @ es) r s'"
    by blast
  then have "tx_inv k s' \<and> (rx_apart k s \<longrightarrow> rx_apart k s')"
  proof cases
    case busy
    have "tx_outstanding s' = tx_outstanding s1"
      using ring_fields_cong(1) [of s' TX s1] busy by (simp add: tx_outstanding_def)
    then have "rx_apart k s1 \<Longrightarrow> rx_apart k s'"
      using rx_apart_step [of k s1 s'] rx_apart_live [of k s1] busy by (simp add: rx_same_def rx_apart_def)
    then show ?thesis using busy s1 tx_inv_cong [of s' s1 k] check_rx_apart [OF inv _ s1(1)] by simp
  next
    case sent
    let ?dma = "k_map_single k (hist s1 @ es) (skb_data b2)"
    note x = sent(2) [unfolded xmit_result_def Let_def]
    have l: "live_dma k (hist s1 @ es) = live_dma k (hist s1)" "live_mem (hist s1 @ es) = live_mem (hist s1)"
      "frees_ok (hist s1 @ es) = frees_ok (hist s1)"
      using sent(1) by (auto simp: hist_simps)
    have fresh: "\<not> k_mapping_error k ?dma \<Longrightarrow> ?dma \<notin> live_dma k (hist s1)"
      using k(1) l(1) unfolding kernel_ok_def by metis
    have h: "live_mem (hist s') = live_mem (hist s1)" "frees_ok (hist s') = frees_ok (hist s1)"
      "live_dma k (hist s1) \<subseteq> live_dma k (hist s')"
      using x l by (auto simp: hist_simps simp flip: append_assoc split: if_splits)
    have out: "dma_addr ` set (tx_outstanding s') \<subseteq>
        dma_addr ` set (tx_outstanding s1) \<union> (- live_dma k (hist s1))"
      using x fresh by (auto split: if_splits)
    have "rx_apart k s'" if "rx_apart k s"
    proof -
      have a1: "rx_apart k s1" by (rule check_rx_apart [OF inv that s1(1)])
      note v = rx_apart_live [OF a1]
      show ?thesis
      proof (rule rx_apart_step [OF a1])
        show "dma_addr ` set (tx_outstanding s') \<inter> rx_dma s1 = {}"
          using a1 out v(1) unfolding rx_apart_def by blast
        show "unmaps_ok k (hist s')" using x by (simp add: tx_inv_def outstanding_ok_def)
        show "rx_same s1 s'" "live_mem (hist s') = live_mem (hist s1)" "frees_ok (hist s')"
          "rx_dma s1 \<subseteq> live_dma k (hist s')"
          using x h v(1,2) by blast+
      qed
    qed
    then show ?thesis using x by simp
  qed
  then show "tx_inv k s'" "rx_apart k s \<Longrightarrow> rx_apart k s'" by simp_all
qed

text \<open>Up and down.\<close>

lemma unused_ring:
  assumes "length (descs s rx) = NR_LBUF" "\<forall>d \<in> set (descs s rx). \<not> in_use d"
    and "prod_ptr s rx = 0" "cons_ptr s rx = 0"
  shows "ring_wf rx s \<and> ring_descs rx s = []"
  using assms by (simp add: ring_wf_def ring_ok_def ring_descs_def ring_list_def ring_occ_def)

lemma drained_ring:
  assumes "ring_wf rx s" "ring_descs rx s = []"
  shows "\<forall>d \<in> set (descs s rx). \<not> in_use d"
proof -
  have "ring_occ in_use (descs s rx) (prod_ptr s rx) (cons_ptr s rx) = 0"
    using assms(2) by (simp flip: length_ring_descs)
  moreover have "(cons_ptr s rx + (i + NR_LBUF - cons_ptr s rx) mod NR_LBUF) mod NR_LBUF = i"
    if "i < NR_LBUF" "cons_ptr s rx < NR_LBUF" for i
    using that by (simp add: mod_add_right_eq)
  ultimately have "\<not> in_use (descs s rx ! i)" if "i < NR_LBUF" for i
    using assms(1) that mod_less_divisor [OF NR_LBUF_pos, of "i + NR_LBUF - cons_ptr s rx"]
    unfolding ring_wf_def ring_ok_def by (metis not_less_zero)
  then show ?thesis using assms(1) by (auto simp: ring_wf_def in_set_conv_nth)
qed

lemma init_tx_inv:
  assumes inv: "tx_inv k s" and e: "ring_descs TX s = []" and k: "kernel_ok k"
    and ok: "frees_ok (hist s)" "length (descs s RX) = NR_LBUF"
    and i: "nf10_lbuf_init_buffers cfg k s = Inr (err, s')"
  shows "tx_inv k s'" "frees_ok (hist s')" "length (descs s' RX) = NR_LBUF" "err = 0 \<Longrightarrow> rx_apart k s'"
proof -
  note f = init_buffers_keeps [OF i]
  have wf: "ring_wf TX s" and len: "length (completion s) = NR_LBUF"
    and o: "outstanding_ok k (map snd (pending_gc s)) (skbs s) (hist s)"
    using inv e by (simp_all add: tx_inv_def tx_outstanding_def)
  have u: "unmaps_ok k (hist s)" using o by (simp add: outstanding_ok_def)
  have t: "ring_wf TX s'" "ring_descs TX s' = []"
    using unused_ring [of s' TX] drained_ring [OF wf e] f(1-3) wf by (auto simp: ring_wf_def)
  have c: "if err = 0 then
       rx_ready k (insert (tx_completion_kern_addr s') (live_mem (hist s)))
                  (insert (tx_completion_dma_addr s') (live_dma k (hist s))) s' \<and>
       rx_armed s' \<and> tx_completion_kern_addr s' \<notin> live_mem (hist s) \<and>
       tx_completion_dma_addr s' \<notin> live_dma k (hist s)
     else bufs_owned k (live_mem (hist s)) (live_dma k (hist s)) (hist s') []"
    using init_buffers_cases [OF k ok(1) u ok(2), of cfg] i by auto
  have d: "live_dma k (hist s) \<subseteq> live_dma k (hist s')" "unmaps_ok k (hist s')" "frees_ok (hist s')"
    using c by (auto simp: rx_ready_def bufs_owned_def split: if_splits)
  show "tx_inv k s'"
    using t f(4-6) len o d(1,2) by (auto simp: tx_inv_def tx_outstanding_def outstanding_ok_def)
  show "frees_ok (hist s')" by (rule d(3))
  show "length (descs s' RX) = NR_LBUF"
    using c f(7) ok(2) by (cases "err = 0") (auto simp: rx_ready_def ring_wf_def)
  show "rx_apart k s'" if z: "err = 0"
  proof -
    have "dma_addr ` set (tx_outstanding s') \<subseteq> live_dma k (hist s)"
      using o t(2) f(4) by (auto simp: tx_outstanding_def outstanding_ok_def)
    moreover have "rx_dma s' \<inter> live_dma k (hist s) = {}"
      using c z by (auto simp: rx_dma_def rx_ready_def bufs_owned_def)
    ultimately show ?thesis using c z unfolding rx_apart_def rx_armed_def by auto
  qed
qed

lemma free_tx_inv:
  assumes inv: "tx_inv k s" and ap: "rx_apart k s"
  shows "tx_inv k (nf10_lbuf_free_buffers cfg s)" "frees_ok (hist (nf10_lbuf_free_buffers cfg s))"
    "length (descs (nf10_lbuf_free_buffers cfg s) RX) = NR_LBUF"
proof -
  let ?s = "nf10_lbuf_free_buffers cfg s"
  obtain M D where r: "rx_ready k (insert (tx_completion_kern_addr s) M) (insert (tx_completion_dma_addr s) D) s"
    "tx_completion_kern_addr s \<notin> M" "tx_completion_dma_addr s \<notin> D" and full: "desc_full RX s"
    and out: "dma_addr ` set (tx_outstanding s) \<inter> rx_dma s = {}"
    using ap by (auto simp: rx_apart_def)
  note o = free_buffers_releases [OF r(1) full r(2,3), of cfg]
  note f = hist_only_fields [OF free_buffers_hist_only [of s cfg]]
  have rd: "ring_descs TX ?s = ring_descs TX s" "ring_wf TX ?s = ring_wf TX s"
    by (rule ring_fields_cong; simp add: f)+
  have "live_dma k (hist s) = D \<union> rx_dma s"
    using r(1) by (auto simp: rx_ready_def bufs_owned_def rx_dma_def)
  moreover have "dma_addr ` set (tx_outstanding s) \<subseteq> live_dma k (hist s)"
    using inv by (auto simp: tx_inv_def outstanding_ok_def)
  ultimately have "dma_addr ` set (tx_outstanding s) \<subseteq> D" using out by blast
  then have "outstanding_ok k (tx_outstanding s) (skbs s) (hist ?s)"
    using inv o by (auto simp: tx_inv_def outstanding_ok_def bufs_owned_def)
  then show "tx_inv k ?s" using inv rd f(5,7,8) by (simp add: tx_inv_def tx_outstanding_def)
  show "frees_ok (hist ?s)" using o by (simp add: bufs_owned_def)
  show "length (descs ?s RX) = NR_LBUF" using r(1) f(1) by (simp add: rx_ready_def ring_wf_def)
qed

lemma tx_reach_inv:
  assumes "tx_reach cfg k u s" and k: "kernel_ok k" "expand_ok k"
  shows "tx_inv k s \<and> frees_ok (hist s) \<and> length (descs s RX) = NR_LBUF \<and> (u \<longrightarrow> rx_apart k s)"
  using assms(1)
proof induction
  case load
  have "ring_wf TX nic_init \<and> ring_descs TX nic_init = []"
    by (rule unused_ring) (simp_all add: in_use_def desc_zero_def)
  then show ?case by (simp add: tx_inv_def tx_outstanding_def outstanding_ok_def hist_simps)
next
  case (up s err s')
  then show ?case using init_tx_inv [OF _ up.hyps(2) k(1) _ _ up.hyps(3)] by simp
next
  case (down s)
  then show ?case using free_tx_inv [of k s cfg] by simp
next
  case (card_writes s c g)
  let ?s' = "s\<lparr>completion := c, last_gc := g\<rparr>"
  have "tx_inv k ?s'" using card_writes tx_inv_cong [of ?s' s k] by (simp add: tx_inv_def)
  moreover have "tx_outstanding ?s' = tx_outstanding s"
    using ring_fields_cong(1) [of ?s' TX s] by (simp add: tx_outstanding_def)
  ultimately show ?case
    using card_writes rx_apart_step [of k s ?s'] rx_apart_live [of k s] by (simp add: rx_same_def rx_apart_def)
next
  case (new_skb u s p b)
  let ?s' = "s\<lparr>skbs := (skbs s)(p \<mapsto> b)\<rparr>"
  have "tx_inv k ?s'" using new_skb tx_inv_cong [of ?s' s k] by auto
  moreover have "tx_outstanding ?s' = tx_outstanding s"
    using ring_fields_cong(1) [of ?s' TX s] by (simp add: tx_outstanding_def)
  ultimately show ?case
    using new_skb rx_apart_step [of k s ?s'] rx_apart_live [of k s] by (auto simp: rx_same_def rx_apart_def)
next
  case (xmit s p b r s')
  then have "tx_inv k s'" "rx_apart k s'"
    using start_xmit_keeps [OF _ k xmit.hyps(2-5)] by simp_all
  then show ?case using rx_apart_live(2) by (auto simp: rx_apart_def rx_ready_def ring_wf_def)
next
  case (tx_irq s dev c s')
  have "tx_inv k s' \<and> rx_apart k s'"
  proof (cases "last_gc s = 0")
    case True
    then show ?thesis using tx_irq by (simp add: nf10_lbuf_clean_tx_irq_def)
  next
    case False
    then have run: "clean_tx_again k dev 0 s = Some (Inr (c, s'))"
      using tx_irq by (simp add: nf10_lbuf_clean_tx_irq_def)
    have same: "rx_apart k s \<Longrightarrow> rx_apart k s'" if "rx_same s s'" "hist s' = hist s"
      "tx_outstanding s' = tx_outstanding s" for s s'
      using that rx_apart_step [of k s s'] rx_apart_live [of k s] by (simp add: rx_apart_def)
    have st: "rx_apart k s \<Longrightarrow> rx_apart k (card_step dev t s)" for t s
      by (rule same [of s])
        (simp_all add: rx_same_def tx_outstanding_def card_step_def ring_descs_def case_prod_beta)
    have ack: "rx_apart k s \<Longrightarrow> rx_apart k (s\<lparr>last_gc := 0\<rparr>)" for s
      by (rule same [of s]) (simp_all add: rx_same_def tx_outstanding_def ring_descs_def)
    show ?thesis
      using clean_tx_again_partial [where P = "rx_apart k", OF run tx_irq.hyps(2) _ st check_rx_apart
          gc_rx_apart ack] tx_irq by auto
  qed
  then show ?case using rx_apart_live(2) by (auto simp: rx_apart_def rx_ready_def ring_wf_def)
qed

section \<open>A concrete transmit state\<close>

text \<open>Two buffers in flight in a full ring, the first completed and reported; a third one waiting.\<close>

definition demo_skb :: sk_buff where
  "demo_skb = \<lparr>skb_data = 0x1040, skb_len = 60, skb_headroom = 0x40, skb_shared = False, skb_hdr = []\<rparr>"

definition demo_desc :: "u64 \<Rightarrow> u64 \<Rightarrow> u64 \<Rightarrow> desc" where
  "demo_desc a dma p = \<lparr>kern_addr = a, dma_addr = dma, skb = p, desc_size = 0, desc_offset = 0\<rparr>"

definition demo_tx :: nic where
  "demo_tx = nic_init\<lparr>
     descs := (\<lambda>_. [demo_desc 0x1038 0x200000 1, demo_desc 0x2038 0x400000 2]),
     completion := [TX_COMPLETION_OKAY, 0], last_gc := 0x200000,
     skbs := [1 \<mapsto> demo_skb, 2 \<mapsto> demo_skb, 3 \<mapsto> demo_skb],
     hist := [MapSingle 0x1038 68 TX 0x200000, MapSingle 0x2038 68 TX 0x400000]\<rparr>"

lemma demo_tx_fields [simp]:
  "descs demo_tx rx = [demo_desc 0x1038 0x200000 1, demo_desc 0x2038 0x400000 2]"
  "prod_ptr demo_tx rx = 0" "cons_ptr demo_tx rx = 0" "completion demo_tx = [TX_COMPLETION_OKAY, 0]"
  "last_gc demo_tx = 0x200000" "pending_gc demo_tx = []"
  "skbs demo_tx = [1 \<mapsto> demo_skb, 2 \<mapsto> demo_skb, 3 \<mapsto> demo_skb]"
  "hist demo_tx = [MapSingle 0x1038 68 TX 0x200000, MapSingle 0x2038 68 TX 0x400000]"
  by (simp_all add: demo_tx_def)

lemma demo_tx_ring:
  "ring_descs TX demo_tx = [demo_desc 0x1038 0x200000 1, demo_desc 0x2038 0x400000 2]"
  "ring_wf TX demo_tx"
  by (simp_all add: ring_descs_def ring_list_def ring_occ_def ring_wf_def ring_ok_def in_use_def
      demo_desc_def NR_LBUF_def upt_conv_Cons All_less_Suc)

lemma demo_tx_inv: "tx_inv demo_kapi demo_tx"
  by (simp add: tx_inv_def tx_outstanding_def outstanding_ok_def demo_tx_ring NR_LBUF_def
      demo_desc_def hist_simps demo_kapi_def)

lemma demo_expand_ok: "expand_ok demo_kapi"
  by (simp add: expand_ok_def demo_kapi_def)

lemma demo_skb_wf: "skb_wf demo_skb"
  by (simp add: skb_wf_def demo_skb_def)

lemma demo_tx_fresh: "3 \<notin> skb ` set (tx_outstanding demo_tx)"
  by (simp add: tx_outstanding_def demo_tx_ring demo_desc_def)

lemma demo_tx_complete:
  "check_tx_completion demo_kapi demo_tx = Inr (complete_one demo_kapi demo_tx)"
  "\<not> desc_full TX (complete_one demo_kapi demo_tx)"
proof -
  let ?s = "complete_one demo_kapi demo_tx"
  have f: "completion ?s = [0, 0]" "cons_ptr ?s TX = 1" "prod_ptr ?s TX = 0"
    by (simp_all add: complete_one_completion inc_pointer_def NR_LBUF_def)
  then show "check_tx_completion demo_kapi demo_tx = Inr ?s"
    by (simp add: check_tx_completion.simps [of demo_kapi demo_tx]
        check_tx_completion.simps [of demo_kapi ?s] desc_empty_def cons_desc_def demo_desc_def
        TX_COMPLETION_OKAY_def)
  show "\<not> desc_full TX ?s" using f by (simp add: desc_full_def)
qed

lemma demo_tx_xmit: "\<exists>s'. nf10_lbuf_start_xmit demo_kapi 3 demo_tx = Inr (NETDEV_TX_OK, s')"
proof -
  let ?s = "complete_one demo_kapi demo_tx"
  have "make_headroom demo_kapi 3 demo_skb (?s\<lparr>debug_count := 0\<rparr>) = (demo_skb, ?s\<lparr>debug_count := 0\<rparr>)"
    by (simp add: make_headroom_def demo_skb_def is_aligned4_def)
  moreover obtain b2 where "push_header demo_skb = Inr b2"
    using push_header_Inr [of demo_skb] by (auto simp: demo_skb_def)
  moreover have "fst (lbuf_xmit demo_kapi a len p (?s\<lparr>debug_count := 0, skbs := S\<rparr>)) = 0" for a len p S
    by (simp add: lbuf_xmit_def Let_def demo_kapi_def hist_simps pool_def demo_errors_def)
  ultimately show ?thesis
    by (simp add: nf10_lbuf_start_xmit_def demo_tx_complete case_prod_beta Let_def)
qed

section \<open>Properties\<close>

text \<open>
  C3: collecting completions implements a step of the abstract queue. When the slab allocator does
  not fail, exactly the leading completed descriptors leave the ring and join the pending list, in
  order; the queue of outstanding descriptors, seen as one list, is unchanged, and the invariant
  (distinct live buffers, distinct live mappings) holds again.
\<close>

theorem check_tx_completion_moves:
  assumes "tx_inv k s" "\<forall>h. k_kmem_alloc k h \<noteq> 0"
  shows "\<exists>s'. check_tx_completion k s = Inr s' \<and>
    ring_descs TX s' = drop (tx_done s) (ring_descs TX s) \<and>
    map snd (pending_gc s') = map snd (pending_gc s) @ take (tx_done s) (ring_descs TX s) \<and>
    tx_outstanding s' = tx_outstanding s \<and> tx_inv k s'"
  using check_tx_completion_spec [OF assms(1)] assms(2)
  unfolding tx_outstanding_def by (metis append.assoc append_take_drop_id)

theorem check_tx_completion_moves_witness:
  "\<exists>s'. check_tx_completion demo_kapi demo_tx = Inr s' \<and>
    ring_descs TX s' = drop (tx_done demo_tx) (ring_descs TX demo_tx) \<and>
    map snd (pending_gc s') = map snd (pending_gc demo_tx) @ take (tx_done demo_tx) (ring_descs TX demo_tx) \<and>
    tx_outstanding s' = tx_outstanding demo_tx \<and> tx_inv demo_kapi s'"
  by (rule check_tx_completion_moves [OF demo_tx_inv]) (simp add: demo_kapi_def)

text \<open>
  C4: a garbage collection up to an address releases the pending descriptors in order, from the first
  one on and through the first one whose entry reads as that address (all of them, when there is none):
  each socket buffer is unmapped over its length and freed, once, nothing in flight is touched, every
  unmapping is of something mapped, and the answer says whether anything is left. The entry is read
  after it has been freed: where the allocator leaves freed entries alone the stop is the first
  descriptor with the address and nothing faults; a fault is the read of a freed entry that traps;
  where freed entries never read as the address, everything pending is released.
\<close>

theorem clean_tx_pending_gc_releases:
  fixes k s a
  defines "ps \<equiv> pending_gc s" and "reads \<equiv> gc_read k (hist s) (skbs s) (pending_gc s)"
  assumes "tx_inv k s"
  shows "case clean_tx_pending_gc k a s of
      Inl e \<Rightarrow> slab_traps k \<and> (\<exists>i < length ps. e = UseAfterFree (fst (ps ! i)) \<and> reads i = None \<and>
        (\<forall>j < i. reads j \<notin> {None, Some a}))
    | Inr (all, s') \<Rightarrow> tx_inv k s' \<and> unmaps_ok k (hist s') \<and> ring_descs TX s' = ring_descs TX s \<and>
        (\<exists>n \<le> length ps. (all \<longleftrightarrow> n = length ps) \<and> pending_gc s' = drop n ps \<and>
          (\<forall>j. Suc j < n \<longrightarrow> reads j \<notin> {None, Some a}) \<and>
          (n < length ps \<longrightarrow> 0 < n \<and> reads (n - 1) = Some a) \<and>
          hist s' = hist s @ concat (map (gc_events (skbs s)) (take n ps)) \<and>
          freed_skbs (hist s') = freed_skbs (hist s) @ map (skb \<circ> snd) (take n ps) \<and>
          skbs s' = skbs s |` (- set (map (skb \<circ> snd) (take n ps))) \<and>
          (slab_keeps k \<longrightarrow> take n ps = gc_released a ps \<and> drop n ps = gc_kept a ps) \<and>
          (slab_hides a k \<longrightarrow> all))"
proof (cases rule: clean_tx_pending_gc_cases [OF assms(3), of a, case_names faults releases])
  case (faults i)
  then show ?thesis unfolding faults(5) ps_def reads_def sum.case by blast
next
  case (releases n s')
  have h: "hist s' = hist s @ concat (map (gc_events (skbs s)) (take n ps))"
    unfolding releases(2) ps_def by simp
  have "freed_skbs (hist s') = freed_skbs (hist s) @ map (skb \<circ> snd) (take n ps)"
    unfolding h freed_skbs_append freed_skbs_releases by (rule refl)
  moreover have "drop n ps = [] \<longleftrightarrow> n = length ps" using releases(5) by (auto simp: ps_def)
  moreover have "pending_gc s' = drop n ps" "skbs s' = skbs s |` (- set (map (skb \<circ> snd) (take n ps)))"
    unfolding releases(2) ps_def by simp_all
  ultimately show ?thesis
    unfolding releases(1) sum.case prod.case
    using h releases(3,5-9) gc_frame_fields(7) [OF releases(4)]
    by (auto simp: ps_def reads_def tx_inv_def outstanding_ok_def intro!: exI [of _ n])
qed

theorem clean_tx_pending_gc_releases_witness:
  "\<exists>s'. clean_tx_pending_gc demo_kapi 0x200000 (complete_one demo_kapi demo_tx) = Inr (True, s') \<and>
    freed_skbs (hist s') = [1]"
proof -
  let ?s = "complete_one demo_kapi demo_tx"
  have ne: "\<not> desc_empty TX demo_tx" by (simp add: desc_empty_def cons_desc_def demo_desc_def)
  have p: "pending_gc ?s = [(0xF000, demo_desc 0x1038 0x200000 1)]"
    by (simp add: complete_one_eq demo_kapi_def cons_desc_def)
  have g: "gc_released 0x200000 (pending_gc ?s) = pending_gc ?s" by (simp add: p demo_desc_def)
  note r = clean_tx_pending_gc_releases [OF complete_one_inv [OF demo_tx_inv ne], of "0x200000"]
  obtain c s' where c: "clean_tx_pending_gc demo_kapi 0x200000 ?s = Inr (c, s')"
    using r demo_no_trap by (cases "clean_tx_pending_gc demo_kapi 0x200000 ?s") auto
  then obtain n where "n \<le> length (pending_gc ?s)" "c \<longleftrightarrow> n = length (pending_gc ?s)"
    "take n (pending_gc ?s) = pending_gc ?s"
    "freed_skbs (hist s') = freed_skbs (hist ?s) @ map (skb \<circ> snd) (take n (pending_gc ?s))"
    using r demo_slab_keeps g by auto
  then show ?thesis using c by (auto simp: p demo_desc_def hist_simps split: if_splits)
qed

text \<open>
  C5: transmission, completely. After collecting completions, a call that finds no free slot returns
  \<open>NETDEV_TX_BUSY\<close> and changes nothing but the debug counter; one whose buffer has no room for the
  header, and is shared or cannot be expanded, faults in \<open>skb_push\<close>. Otherwise the 8-byte header (a
  zero dword and the frame's length) is pushed in front of the data, and the header and the frame, from
  the new data address over the new length, are mapped. If the mapping fails the call returns
  \<open>NETDEV_TX_BUSY\<close> and nothing is outstanding that was not; else it returns \<open>NETDEV_TX_OK\<close> and exactly
  one descriptor, for this buffer, with the mapped address, is appended to the queue of outstanding
  descriptors, and the card is given that address and the size in qwords at the producer's registers.
  The invariant holds again.
\<close>

theorem start_xmit_appends:
  assumes "tx_inv k s" "kernel_ok k" "expand_ok k" "skbs s p = Some b" "skb_wf b"
    and "p \<notin> skb ` set (tx_outstanding s)"
  shows "\<exists>s1. check_tx_completion k s = Inr s1 \<and> tx_inv k s1 \<and>
    (if desc_full TX s1 then \<exists>c. nf10_lbuf_start_xmit k p s = Inr (NETDEV_TX_BUSY, s1\<lparr>debug_count := c\<rparr>)
     else if skb_headroom b < 8 \<and> (skb_shared b \<or> k_expand_head k (hist s1) = 0)
       then nf10_lbuf_start_xmit k p s = Inl SkbUnderPanic
     else \<exists>b1 es b2 r s'.
       make_headroom k p b (s1\<lparr>debug_count := 0\<rparr>) = (b1, s1\<lparr>debug_count := 0, hist := hist s1 @ es\<rparr>) \<and>
       (es = [] \<or> (\<exists>n a. es = [ExpandHead p n a])) \<and>
       skb_data b2 = skb_data b1 - 8 \<and> skb_len b2 = skb_len b + 8 \<and>
       skb_hdr b2 = [0, skb_len b] @ skb_hdr b \<and>
       nf10_lbuf_start_xmit k p s = Inr (r, s') \<and> tx_inv k s' \<and> skbs s' = (skbs s)(p \<mapsto> b2) \<and>
       (let dma = k_map_single k (hist s1 @ es) (skb_data b2);
            h = hist s1 @ es @ [MapSingle (skb_data b2) (unat (skb_len b2)) TX dma]
        in if k_mapping_error k dma then
             r = NETDEV_TX_BUSY \<and> tx_outstanding s' = tx_outstanding s1 \<and> hist s' = h
           else r = NETDEV_TX_OK \<and>
             (\<exists>d. skb d = p \<and> kern_addr d = skb_data b2 \<and> dma_addr d = dma \<and>
                tx_outstanding s' = tx_outstanding s1 @ [d]) \<and>
             hist s' = h @ [Writeq (tx_addr_off (prod_ptr s TX)) dma,
               Writel (tx_stat_off (prod_ptr s TX)) (drop_bit 3 ((skb_len b2 + 7) AND NOT 7))]))"
proof -
  obtain s1 where s1: "check_tx_completion k s = Inr s1" "tx_inv k s1" "same_but_tx_queue s s1" and
    c: "if desc_full TX s1 then \<exists>c. nf10_lbuf_start_xmit k p s = Inr (NETDEV_TX_BUSY, s1\<lparr>debug_count := c\<rparr>)
     else if skb_headroom b < 8 \<and> (skb_shared b \<or> k_expand_head k (hist s1) = 0)
       then nf10_lbuf_start_xmit k p s = Inl SkbUnderPanic
     else \<exists>b1 es b2 r s'.
       make_headroom k p b (s1\<lparr>debug_count := 0\<rparr>) = (b1, s1\<lparr>debug_count := 0, hist := hist s1 @ es\<rparr>) \<and>
       (es = [] \<or> (\<exists>n a. es = [ExpandHead p n a])) \<and> push_header b1 = Inr b2 \<and>
       skb_data b2 = skb_data b1 - 8 \<and> skb_len b2 = skb_len b + 8 \<and>
       skb_hdr b2 = [0, skb_len b] @ skb_hdr b \<and>
       nf10_lbuf_start_xmit k p s = Inr (r, s') \<and> xmit_result k p b2 s1 (hist s1 @ es) r s'"
    using start_xmit_cases [OF assms] by blast
  have f: "skbs s1 = skbs s" "prod_ptr s1 = prod_ptr s" using s1(3) by (simp_all add: same_but_tx_queue_def)
  note c' = c [unfolded xmit_result_def f Let_def append_assoc]
  show ?thesis
    unfolding Let_def append_assoc
    by (rule exI [of _ s1], intro conjI s1(1,2), use c' in \<open>simp only: split: if_splits\<close>) blast+
qed

theorem start_xmit_appends_witness:
  "\<exists>s' d. nf10_lbuf_start_xmit demo_kapi 3 demo_tx = Inr (NETDEV_TX_OK, s') \<and> tx_inv demo_kapi s' \<and>
    d \<in> set (tx_outstanding s') \<and> skb d = 3 \<and> kern_addr d = 0x1038 \<and> dma_addr d = 0x600000"
proof -
  let ?s1 = "complete_one demo_kapi demo_tx"
  have b: "skbs demo_tx 3 = Some demo_skb" by simp
  have r: "\<not> (skb_headroom demo_skb < 8 \<and> (skb_shared demo_skb \<or> k_expand_head demo_kapi (hist ?s1) = 0))"
    by (simp add: demo_skb_def)
  have m: "make_headroom demo_kapi 3 demo_skb s = (demo_skb, s)" for s
    by (simp add: make_headroom_def demo_skb_def is_aligned4_def)
  note x = start_xmit_appends [OF demo_tx_inv demo_kernel_ok demo_expand_ok b demo_skb_wf demo_tx_fresh,
      unfolded demo_tx_complete(1) sum.inject simp_thms if_not_P [OF demo_tx_complete(2)] if_not_P [OF r]
        m Let_def prod.inject]
  from x show ?thesis
  proof (elim exE conjE, goal_cases)
    case (1 b1 es b2 r s')
    have "es = []" using arg_cong [OF 1(3), of hist] by simp
    moreover have "k_map_single demo_kapi (hist ?s1) a = 0x600000" for a
      by (simp add: demo_kapi_def demo_errors_def hist_simps pool_def)
    moreover have "b1 = demo_skb" using 1 by simp
    ultimately show ?thesis using 1 by (auto simp: demo_skb_def demo_kapi_def)
  qed
qed

text \<open>
  The only way a transmission faults is \<open>skb_push\<close> without room: the ring had a free slot, the
  buffer came with fewer than 8 bytes of headroom, and either it is shared, so the driver does not
  expand it, or the expansion, whose result the driver ignores, failed.
\<close>

theorem start_xmit_panics_iff:
  assumes "tx_inv k s" "kernel_ok k" "expand_ok k" "skbs s p = Some b" "skb_wf b"
    and "p \<notin> skb ` set (tx_outstanding s)" "check_tx_completion k s = Inr s1"
  shows "nf10_lbuf_start_xmit k p s = Inl e \<longleftrightarrow> e = SkbUnderPanic \<and> \<not> desc_full TX s1 \<and>
    skb_headroom b < 8 \<and> (skb_shared b \<or> k_expand_head k (hist s1) = 0)"
proof -
  have c: "if desc_full TX s1 then \<exists>c. nf10_lbuf_start_xmit k p s = Inr (NETDEV_TX_BUSY, s1\<lparr>debug_count := c\<rparr>)
     else if skb_headroom b < 8 \<and> (skb_shared b \<or> k_expand_head k (hist s1) = 0)
       then nf10_lbuf_start_xmit k p s = Inl SkbUnderPanic
     else \<exists>r s'. nf10_lbuf_start_xmit k p s = Inr (r, s')"
    using start_xmit_cases [OF assms(1-6)] unfolding assms(7) sum.inject by (auto split: if_splits)
  then show ?thesis by (auto split: if_splits)
qed

theorem start_xmit_panics_iff_witness:
  "nf10_lbuf_start_xmit demo_kapi 4
     (demo_tx\<lparr>skbs := (skbs demo_tx)(4 \<mapsto> demo_skb\<lparr>skb_headroom := 4, skb_shared := True\<rparr>)\<rparr>) =
   Inl SkbUnderPanic"
proof -
  let ?b = "demo_skb\<lparr>skb_headroom := 4, skb_shared := True\<rparr>"
  let ?s = "demo_tx\<lparr>skbs := (skbs demo_tx)(4 \<mapsto> ?b)\<rparr>"
  have inv: "tx_inv demo_kapi ?s"
    by (rule tx_inv_cong [OF _ _ _ _ _ _ _ _ demo_tx_inv]) auto
  obtain s1 where s1: "check_tx_completion demo_kapi ?s = Inr s1"
    "ring_descs TX s1 = drop (tx_done ?s) (ring_descs TX ?s)" "ring_wf TX s1"
    using check_tx_completion_spec [OF inv] by (auto simp: tx_inv_def)
  have "tx_done ?s = tx_done demo_tx" "ring_descs TX ?s = ring_descs TX demo_tx"
    by (simp_all add: tx_done_def ring_descs_def)
  moreover have "tx_done demo_tx = Suc (tx_done (complete_one demo_kapi demo_tx))"
    by (rule tx_done_complete_one [OF demo_tx_inv]) (simp_all add: desc_empty_def cons_desc_def demo_desc_def)
  ultimately have "length (ring_descs TX s1) < NR_LBUF" using s1(2) by (simp add: demo_tx_ring NR_LBUF_def)
  then have nf: "\<not> desc_full TX s1" using desc_full_iff [OF s1(3)] by simp
  have w: "skb_wf ?b" "skbs ?s 4 = Some ?b" "4 \<notin> skb ` set (tx_outstanding ?s)"
    using demo_tx_ring(1) by (simp_all add: skb_wf_def demo_skb_def tx_outstanding_def ring_descs_def demo_desc_def)
  show ?thesis
    using start_xmit_panics_iff [OF inv demo_kernel_ok demo_expand_ok w(2,1,3) s1(1), of SkbUnderPanic] nf
    by simp
qed

text \<open>
  C6: transmitting a buffer that is not shared and whose head is dword-aligned, whatever its headroom
  and the alignment of its data, when the ring has room and the new head, if one is needed, is
  allocated and dword-aligned. The call does not fault: making headroom succeeds in what it is for, and
  the address that is mapped is dword-aligned (so \<open>lbuf_xmit\<close>'s warning is not printed). Where mapping
  keeps alignment, the address written to the card's register is dword-aligned, too.
\<close>

theorem xmit_address_aligned:
  assumes "tx_inv k s" "kernel_ok k" "expand_ok k" "skbs s p = Some b" "skb_wf b"
    and "p \<notin> skb ` set (tx_outstanding s)" "check_tx_completion k s = Inr s1" "\<not> desc_full TX s1"
    and "\<not> skb_shared b" "4 dvd unat (skb_data b) - skb_headroom b"
    and "k_expand_head k (hist s1) \<noteq> 0" "4 dvd unat (k_expand_head k (hist s1))"
  shows "\<exists>r s' a dma. nf10_lbuf_start_xmit k p s = Inr (r, s') \<and> is_aligned4 a \<and>
    (\<exists>es. hist s' = hist s1 @ es \<and>
       filter (\<lambda>e. \<exists>a n d. e = MapSingle a n TX d) es = [MapSingle a (unat (skb_len b + 8)) TX dma]) \<and>
    (r = NETDEV_TX_OK \<longleftrightarrow> \<not> k_mapping_error k dma) \<and>
    (r = NETDEV_TX_OK \<longrightarrow> last_writeq (tx_addr_off (prod_ptr s TX)) (hist s') = Some dma \<and>
       ((\<forall>h a. is_aligned4 a \<longrightarrow> is_aligned4 (k_map_single k h a)) \<longrightarrow> is_aligned4 dma))"
proof -
  have room: "\<not> (skb_headroom b < 8 \<and> (skb_shared b \<or> k_expand_head k (hist s1) = 0))"
    using assms(9,11) by simp
  obtain b1 es b2 r s' where same: "same_but_tx_queue s s1" and x:
    "make_headroom k p b (s1\<lparr>debug_count := 0\<rparr>) = (b1, s1\<lparr>debug_count := 0, hist := hist s1 @ es\<rparr>)"
    "es = [] \<or> (\<exists>n a. es = [ExpandHead p n a])" "push_header b1 = Inr b2"
    "skb_data b2 = skb_data b1 - 8" "skb_len b2 = skb_len b + 8" "skb_hdr b2 = [0, skb_len b] @ skb_hdr b"
    "nf10_lbuf_start_xmit k p s = Inr (r, s')" "xmit_result k p b2 s1 (hist s1 @ es) r s'"
    by (rule start_xmit_fits [OF assms(1-8) room])
  have al: "is_aligned4 (skb_data b2)"
  proof -
    have a: "8 \<le> skb_headroom b1" "4 dvd unat (skb_data b1)"
      using make_headroom_aligned [OF assms(5,9,10) _ _ assms(3) x(1)] assms(11,12) by simp_all
    have lt: "skb_headroom b1 < unat (skb_data b1)" using make_headroom_wf [OF assms(3,5) x(1)] by blast
    have "(8 :: u64) \<le> skb_data b1" using a(1) lt by (simp add: word_le_nat_alt)
    then have "unat (skb_data b2) = unat (skb_data b1) - 8" unfolding x(4) by (simp add: unat_sub)
    then have "4 dvd unat (skb_data b2)" using a(2) by (simp add: dvd_diff_nat)
    then show ?thesis by (simp add: is_aligned4_iff)
  qed
  let ?dma = "k_map_single k (hist s1 @ es) (skb_data b2)"
  note y = x(8) [unfolded xmit_result_def Let_def]
  have p: "prod_ptr s1 = prod_ptr s" using same by (simp add: same_but_tx_queue_def)
  have f: "filter (\<lambda>e. \<exists>a n d. e = MapSingle a n TX d) es = []" using x(2) by auto
  have "\<exists>es. hist s' = hist s1 @ es \<and> filter (\<lambda>e. \<exists>a n d. e = MapSingle a n TX d) es =
      [MapSingle (skb_data b2) (unat (skb_len b + 8)) TX ?dma]"
    using y f by (cases "k_mapping_error k ?dma") (auto simp: x(5))
  moreover have "r = NETDEV_TX_OK \<longleftrightarrow> \<not> k_mapping_error k ?dma" using y by (auto split: if_splits)
  moreover have "last_writeq (tx_addr_off (prod_ptr s TX)) (hist s') = Some ?dma" if "r = NETDEV_TX_OK"
    using y that by (auto simp: hist_simps p split: if_splits)
  ultimately show ?thesis using x(7) al by blast
qed

theorem xmit_address_aligned_witness:
  "\<exists>r s' a dma. nf10_lbuf_start_xmit demo_kapi 4
      (demo_tx\<lparr>skbs := (skbs demo_tx)(4 \<mapsto> demo_skb\<lparr>skb_data := 0x1042, skb_headroom := 0x42\<rparr>)\<rparr>) = Inr (r, s') \<and>
    is_aligned4 a \<and> MapSingle a 68 TX dma \<in> set (hist s')"
proof -
  let ?b = "demo_skb\<lparr>skb_data := 0x1042, skb_headroom := 0x42\<rparr>"
  let ?s = "demo_tx\<lparr>skbs := (skbs demo_tx)(4 \<mapsto> ?b)\<rparr>"
  have inv: "tx_inv demo_kapi ?s"
    by (rule tx_inv_cong [OF _ _ _ _ _ _ _ _ demo_tx_inv]) auto
  obtain s1 where s1: "check_tx_completion demo_kapi ?s = Inr s1"
    "ring_descs TX s1 = drop (tx_done ?s) (ring_descs TX ?s)" "ring_wf TX s1"
    using check_tx_completion_spec [OF inv] by (auto simp: tx_inv_def)
  have "tx_done ?s = tx_done demo_tx" "ring_descs TX ?s = ring_descs TX demo_tx"
    by (simp_all add: tx_done_def ring_descs_def)
  moreover have "tx_done demo_tx = Suc (tx_done (complete_one demo_kapi demo_tx))"
    by (rule tx_done_complete_one [OF demo_tx_inv]) (simp_all add: desc_empty_def cons_desc_def demo_desc_def)
  ultimately have "length (ring_descs TX s1) < NR_LBUF" using s1(2) by (simp add: demo_tx_ring NR_LBUF_def)
  then have nf: "\<not> desc_full TX s1" using desc_full_iff [OF s1(3)] by simp
  have w: "skbs ?s 4 = Some ?b" "skb_wf ?b" "4 \<notin> skb ` set (tx_outstanding ?s)"
    using demo_tx_ring(1) by (simp_all add: skb_wf_def demo_skb_def tx_outstanding_def ring_descs_def demo_desc_def)
  have e: "\<not> skb_shared ?b" "4 dvd unat (skb_data ?b) - skb_headroom ?b"
    "k_expand_head demo_kapi (hist s1) \<noteq> 0" "4 dvd unat (k_expand_head demo_kapi (hist s1))"
    by (simp_all add: demo_kapi_def demo_skb_def)
  have u: "unat (skb_len ?b + 8) = 68" by (simp add: demo_skb_def)
  obtain r s' a dma es where x: "nf10_lbuf_start_xmit demo_kapi 4 ?s = Inr (r, s')" "is_aligned4 a"
    "hist s' = hist s1 @ es" "filter (\<lambda>e. \<exists>a n d. e = MapSingle a n TX d) es = [MapSingle a (unat (skb_len ?b + 8)) TX dma]"
    using xmit_address_aligned [OF inv demo_kernel_ok demo_expand_ok w s1(1) nf e] by blast
  have "MapSingle a 68 TX dma \<in> set (filter (\<lambda>e. \<exists>a n d. e = MapSingle a n TX d) es)"
    unfolding x(4) u by simp
  then show ?thesis using x(1-3) by auto
qed

text \<open>
  A transmission whose DMA mapping fails returns \<open>NETDEV_TX_BUSY\<close>, which makes the stack hand
  the same buffer in again, but has already pushed the header into the buffer and counted the frame:
  the buffer the stack retries is 8 bytes longer and carries a header the next call sends as data.
\<close>

theorem failed_mapping_keeps_header:
  assumes "tx_inv k s" "kernel_ok k" "expand_ok k" "skbs s p = Some b" "skb_wf b"
    and "p \<notin> skb ` set (tx_outstanding s)" "check_tx_completion k s = Inr s1"
    and "\<not> desc_full TX s1" "8 \<le> skb_headroom b" "\<forall>h a. k_mapping_error k (k_map_single k h a)"
  shows "\<exists>b2 s'. nf10_lbuf_start_xmit k p s = Inr (NETDEV_TX_BUSY, s') \<and> skbs s' p = Some b2 \<and>
    skb_len b2 = skb_len b + 8 \<and> skb_hdr b2 = [0, skb_len b] @ skb_hdr b"
proof -
  have room: "\<not> (skb_headroom b < 8 \<and> (skb_shared b \<or> k_expand_head k (hist s1) = 0))"
    using assms(9) by simp
  obtain b1 es b2 r s' where "same_but_tx_queue s s1"
    "make_headroom k p b (s1\<lparr>debug_count := 0\<rparr>) = (b1, s1\<lparr>debug_count := 0, hist := hist s1 @ es\<rparr>)"
    "es = [] \<or> (\<exists>n a. es = [ExpandHead p n a])" "push_header b1 = Inr b2" "skb_data b2 = skb_data b1 - 8"
    "skb_len b2 = skb_len b + 8" "skb_hdr b2 = [0, skb_len b] @ skb_hdr b"
    "nf10_lbuf_start_xmit k p s = Inr (r, s')" "xmit_result k p b2 s1 (hist s1 @ es) r s'"
    by (rule start_xmit_fits [OF assms(1-8) room])
  then show ?thesis using assms(10) by (auto simp: xmit_result_def Let_def)
qed

theorem failed_mapping_keeps_header_witness:
  "\<exists>b2 s'. nf10_lbuf_start_xmit (demo_errors\<lparr>k_mapping_error := (\<lambda>_. True)\<rparr>) 1
      (nic_init\<lparr>skbs := [1 \<mapsto> demo_skb]\<rparr>) = Inr (NETDEV_TX_BUSY, s') \<and> skbs s' 1 = Some b2 \<and>
    skb_len b2 = 68 \<and> skb_hdr b2 = [0, 60]"
proof -
  let ?k = "demo_errors\<lparr>k_mapping_error := (\<lambda>_. True)\<rparr>" and ?s = "nic_init\<lparr>skbs := [1 \<mapsto> demo_skb]\<rparr>"
  have k: "kernel_ok ?k" "expand_ok ?k" by (simp_all add: kernel_ok_def expand_ok_def demo_errors_def)
  have e: "desc_empty TX ?s" by (simp add: desc_empty_def cons_desc_def desc_zero_def NR_LBUF_def)
  have r: "ring_descs TX ?s = []" "ring_wf TX ?s"
    by (simp_all add: ring_wf_def ring_ok_def ring_descs_def ring_list_def ring_occ_def in_use_def
        desc_zero_def NR_LBUF_def)
  have inv: "tx_inv ?k ?s"
    by (simp add: tx_inv_def tx_outstanding_def outstanding_ok_def r hist_simps)
  have c: "check_tx_completion ?k ?s = Inr ?s" using e by (simp add: check_tx_completion.simps [of _ ?s])
  have nf: "\<not> desc_full TX ?s" using e by (simp add: desc_full_def desc_empty_def)
  show ?thesis
    using failed_mapping_keeps_header [OF inv k _ demo_skb_wf _ c nf, of 1] r
    by (simp add: tx_outstanding_def demo_skb_def demo_errors_def)
qed





text \<open>
  Bringing the buffers up resets the TX pointers but not the TX descriptors. If the descriptor
  of slot 0 was still in flight when the interface went down, then after the next successful
  \<open>init_buffers\<close> the TX ring looks full, although nothing the new completion buffer knows of is in
  flight: every transmission returns \<open>NETDEV_TX_BUSY\<close> and changes nothing but the debug counter.
\<close>

theorem leftover_descriptor_blocks_tx:
  assumes "nf10_lbuf_init_buffers cfg k s = Inr (0, s')"
    and "in_use (descs s TX ! 0)"
  shows "\<exists>c. nf10_lbuf_start_xmit k p s' = Inr (NETDEV_TX_BUSY, s'\<lparr>debug_count := c\<rparr>)"
proof -
  note f = init_buffers_tx [OF assms(1)]
  have c: "cons_desc TX s' = descs s TX ! 0" using f(1,3) by (simp add: cons_desc_def)
  then have full: "desc_full TX s'" and ne: "\<not> desc_empty TX s'"
    using assms(2) f(2,3) by (simp_all add: desc_full_def desc_empty_def in_use_def)
  have "check_tx_completion k s' = Inr s'"
    using ne f(3,6) by (simp add: check_tx_completion.simps [of k s'] NR_LBUF_def TX_COMPLETION_OKAY_def)
  then show ?thesis using full by (auto simp: nf10_lbuf_start_xmit_def Let_def)
qed

theorem leftover_descriptor_blocks_tx_witness:
  "\<exists>s' c. nf10_lbuf_init_buffers plain_cfg demo_kapi (demo_tx\<lparr>hist := []\<rparr>) = Inr (0, s') \<and>
    nf10_lbuf_start_xmit demo_kapi 3 s' = Inr (NETDEV_TX_BUSY, s'\<lparr>debug_count := c\<rparr>)"
proof -
  obtain s' where s': "nf10_lbuf_init_buffers plain_cfg demo_kapi (demo_tx\<lparr>hist := []\<rparr>) = Inr (0, s')"
    using demo_init_succeeds [of "demo_tx\<lparr>hist := []\<rparr>"] by (auto simp: NR_LBUF_def)
  show ?thesis
    using s' leftover_descriptor_blocks_tx [OF s', of 3]
    by (auto simp: in_use_def demo_desc_def)
qed

end
