(* ===== verification/Mdio.thy ===== *)
theory Mdio
  imports Ael2005_Tables "HOL-Library.Sublist"
begin

text \<open>
  Configuration of the PHY over MDIO (\<open>sw/driver/ael2005_conf.c\<close>, and its copy in
  \<open>sw/my_driver\<close>): every register is written by two commands to the card, each followed by a wait
  for the interrupt that says the command is done. The theorems show what the PHY receives, for
  every behaviour of the card; when the waits end; and where they do not.
\<close>

section \<open>State\<close>

text \<open>
  \<open>mdio_access_rdy\<close> is the flag of the adapter; \<open>bar0_words\<close> are the words written to the command
  register (\<open>bar0 + 16\<close>), in order; \<open>slept\<close> counts the sleeps since the last of them. The card is a
  parameter \<open>hw\<close> of the model: \<open>hw ws n\<close> says whether its interrupt arrives during sleep \<open>n\<close>
  (from 0) after the last word of \<open>ws\<close>.
\<close>

record mdio =
  mdio_access_rdy :: bool
  bar0_words :: "u32 list"
  slept :: nat

type_synonym mdio_card = "u32 list \<Rightarrow> nat \<Rightarrow> bool"

definition MDIO_MMD_PMAPMD :: u8 where "MDIO_MMD_PMAPMD = 1"

definition mdio_access_interrupt_handler :: "mdio \<Rightarrow> mdio" where
  "mdio_access_interrupt_handler s = s\<lparr>mdio_access_rdy := True\<rparr>"

definition msleep :: "mdio_card \<Rightarrow> mdio \<Rightarrow> mdio" where
  "msleep hw s =
     (let s1 = s\<lparr>slept := slept s + 1\<rparr>
      in if hw (bar0_words s) (slept s) then mdio_access_interrupt_handler s1 else s1)"

section \<open>Commands\<close>

definition mdio_word :: "u8 \<Rightarrow> u8 \<Rightarrow> u8 \<Rightarrow> u16 \<Rightarrow> u32" where
  "mdio_word OP_CODE PRTAD DEVAD data =
     push_bit 26 (ucast OP_CODE) OR push_bit 21 (ucast PRTAD) OR push_bit 16 (ucast DEVAD) OR ucast data"

text \<open>Clear the flag, then write the command.\<close>

definition mdio_command :: "u8 \<Rightarrow> u8 \<Rightarrow> u16 \<Rightarrow> mdio \<Rightarrow> mdio" where
  "mdio_command OP_CODE PRTAD data s =
     s\<lparr>mdio_access_rdy := False, slept := 0,
       bar0_words := bar0_words s @ [mdio_word OP_CODE PRTAD MDIO_MMD_PMAPMD data]\<rparr>"

text \<open>
  The wait without a limit may never end, so it is a partial function. The wait with a limit, in
  the first step only, counts the sleeps in \<open>timeout\<close>, which is never reset: \<open>None\<close> when it gives up.
\<close>

partial_function (option) wait_rdy :: "mdio_card \<Rightarrow> mdio \<Rightarrow> mdio option" where
  "wait_rdy hw s =
     (let s1 = msleep hw s in if mdio_access_rdy s1 then Some s1 else wait_rdy hw s1)"

function wait_rdy_limited :: "mdio_card \<Rightarrow> nat \<Rightarrow> mdio \<Rightarrow> nat option \<times> mdio" where
  "wait_rdy_limited hw timeout s =
     (let s1 = msleep hw s; timeout = timeout + 1
      in if 20 < timeout then (None, s1)
         else if mdio_access_rdy s1 then (Some timeout, s1)
         else wait_rdy_limited hw timeout s1)"
  by pat_completeness auto
termination by (relation "measure (\<lambda>(hw, timeout, s). 20 - timeout)") auto

declare wait_rdy_limited.simps [simp del]

section \<open>The three steps\<close>

fun write_reset_regs ::
  "mdio_card \<Rightarrow> u8 \<Rightarrow> u16 list \<Rightarrow> nat \<Rightarrow> mdio \<Rightarrow> (nat option \<times> mdio) option" where
  "write_reset_regs hw PRTAD (ADDR # WRITE_DATA # rest) timeout s =
     (case wait_rdy_limited hw timeout (mdio_command 0 PRTAD ADDR s) of
        (None, s1) \<Rightarrow> Some (None, s1)
      | (Some timeout, s1) \<Rightarrow>
          Option.bind (wait_rdy hw (mdio_command 1 PRTAD WRITE_DATA s1)) (\<lambda>s2.
            write_reset_regs hw PRTAD rest timeout s2))"
| "write_reset_regs hw PRTAD _ timeout s = Some (Some timeout, s)"

fun write_regs :: "mdio_card \<Rightarrow> u8 \<Rightarrow> u16 list \<Rightarrow> mdio \<Rightarrow> mdio option" where
  "write_regs hw PRTAD (ADDR # WRITE_DATA # rest) s =
     Option.bind (wait_rdy hw (mdio_command 0 PRTAD ADDR s)) (\<lambda>s1.
       Option.bind (wait_rdy hw (mdio_command 1 PRTAD WRITE_DATA s1)) (\<lambda>s2.
         write_regs hw PRTAD rest s2))"
| "write_regs hw PRTAD _ s = Some s"

text \<open>The loop over the ports has one turn, with \<open>PRTAD = 3\<close>.\<close>

definition configure_ael2005_phy_chips :: "mdio_card \<Rightarrow> mdio \<Rightarrow> (int \<times> mdio) option" where
  "configure_ael2005_phy_chips hw s =
     Option.bind (write_reset_regs hw 3 reset_regs 0 s) (\<lambda>(timeout, s1).
       case timeout of
         None \<Rightarrow> Some (- ENODEV, s1)
       | Some _ \<Rightarrow>
           Option.bind (write_regs hw 3 sr_edc s1) (\<lambda>s2.
             Option.bind (write_regs hw 3 regs1 s2) (\<lambda>s3. Some (0, s3))))"

text \<open>The copy of \<open>my_driver\<close>.\<close>

definition my_configure_ael2005_phy_chips :: "mdio_card \<Rightarrow> mdio \<Rightarrow> (int \<times> mdio) option" where
  "my_configure_ael2005_phy_chips hw s =
     Option.bind (write_reset_regs hw 3 my_reset_regs 0 s) (\<lambda>(timeout, s1).
       case timeout of
         None \<Rightarrow> Some (- ENODEV, s1)
       | Some _ \<Rightarrow>
           Option.bind (write_regs hw 3 my_sr_edc s1) (\<lambda>s2.
             Option.bind (write_regs hw 3 my_regs1 s2) (\<lambda>s3. Some (0, s3))))"

section \<open>The PHY\<close>

text \<open>
  The specification of the other end, from the MDIO frame (IEEE 802.3, clause 45): a command names
  the operation, the port and the device; an address command latches the register address, a write
  command writes the latched register. \<open>phy_log\<close> lists the writes of device 1 at port 3.
\<close>

definition op_field :: "u32 \<Rightarrow> u32" where "op_field w = drop_bit 26 w"
definition port_field :: "u32 \<Rightarrow> u32" where "port_field w = drop_bit 21 w AND 31"
definition dev_field :: "u32 \<Rightarrow> u32" where "dev_field w = drop_bit 16 w AND 31"
definition data_field :: "u32 \<Rightarrow> u16" where "data_field w = ucast w"

lemmas field_defs = op_field_def port_field_def dev_field_def data_field_def

definition phy_step :: "u32 \<Rightarrow> u16 \<times> (u16 \<times> u16) list \<Rightarrow> u16 \<times> (u16 \<times> u16) list" where
  "phy_step w = (\<lambda>(latch, log).
     if port_field w \<noteq> 3 \<or> dev_field w \<noteq> 1 then (latch, log)
     else if op_field w = 0 then (data_field w, log)
     else if op_field w = 1 then (latch, log @ [(latch, data_field w)])
     else (latch, log))"

definition phy_run :: "u32 list \<Rightarrow> u16 \<times> (u16 \<times> u16) list" where
  "phy_run ws = fold phy_step ws (0, [])"

definition phy_log :: "u32 list \<Rightarrow> (u16 \<times> u16) list" where
  "phy_log ws = snd (phy_run ws)"

lemma phy_run_append: "phy_run (ws @ vs) = fold phy_step vs (phy_run ws)"
  by (simp add: phy_run_def)

section \<open>What the card receives\<close>

lemma drop_ucast_u16: "16 \<le> n \<Longrightarrow> drop_bit n (ucast (d :: u16) :: u32) = 0"
  by (rule bit_word_eqI) (auto simp: bit_simps dest: bit_imp_le_length)

lemma mdio_word_const:
  "mdio_word 0 3 1 d = 0x610000 OR ucast d" "mdio_word 1 3 1 d = 0x4610000 OR ucast d"
  by (simp_all add: mdio_word_def flip: or.assoc)

text \<open>The fields of a command are read back, whatever its data.\<close>

lemma mdio_word_fields [simp]:
  "op_field (mdio_word 0 3 1 d) = 0" "op_field (mdio_word 1 3 1 d) = 1"
  "port_field (mdio_word 0 3 1 d) = 3" "port_field (mdio_word 1 3 1 d) = 3"
  "dev_field (mdio_word 0 3 1 d) = 1" "dev_field (mdio_word 1 3 1 d) = 1"
  by (simp_all add: mdio_word_const field_defs drop_bit_or drop_ucast_u16)

lemma data_field_word [simp]: "data_field (mdio_word op port dv d) = d"
  by (rule bit_word_eqI) (auto simp: data_field_def mdio_word_def bit_simps dest: bit_imp_le_length)

text \<open>The commands that write a list of registers.\<close>

definition commands :: "(u16 \<times> u16) list \<Rightarrow> u32 list" where
  "commands ps = concat (map (\<lambda>(a, d). [mdio_word 0 3 MDIO_MMD_PMAPMD a, mdio_word 1 3 MDIO_MMD_PMAPMD d]) ps)"

lemma commands_simps [simp]:
  "commands [] = []" "commands (ps @ qs) = commands ps @ commands qs"
  "commands ((a, d) # ps) =
    mdio_word 0 3 MDIO_MMD_PMAPMD a # mdio_word 1 3 MDIO_MMD_PMAPMD d # commands ps"
  by (simp_all add: commands_def)

lemma phy_run_commands: "snd (fold phy_step (commands ps) x) = snd x @ ps"
proof (induction ps arbitrary: x)
  case (Cons p ps)
  obtain a d where "p = (a, d)" by (cases p)
  then show ?case using Cons by (simp add: phy_step_def MDIO_MMD_PMAPMD_def split: prod.splits)
qed simp

lemma phy_log_commands: "phy_log (commands ps) = ps"
  by (simp add: phy_log_def phy_run_def phy_run_commands)

lemma phy_log_address: "phy_log (ws @ [mdio_word 0 3 MDIO_MMD_PMAPMD a]) = phy_log ws"
  by (simp add: phy_log_def phy_run_def phy_step_def MDIO_MMD_PMAPMD_def split: prod.splits)

section \<open>The waits\<close>

lemma msleep_fields [simp]:
  "bar0_words (msleep hw s) = bar0_words s" "slept (msleep hw s) = Suc (slept s)"
  "mdio_access_rdy (msleep hw s) \<longleftrightarrow> mdio_access_rdy s \<or> hw (bar0_words s) (slept s)"
  by (simp_all add: msleep_def mdio_access_interrupt_handler_def Let_def)

lemma mdio_command_fields [simp]:
  "bar0_words (mdio_command op port d s) = bar0_words s @ [mdio_word op port MDIO_MMD_PMAPMD d]"
  "slept (mdio_command op port d s) = 0" "\<not> mdio_access_rdy (mdio_command op port d s)"
  by (simp_all add: mdio_command_def)

text \<open>A wait that returns was answered.\<close>

lemma wait_rdy_Some:
  assumes run: "wait_rdy hw s = Some r"
  shows "mdio_access_rdy r \<and> bar0_words r = bar0_words s \<and>
    (mdio_access_rdy s \<or> (\<exists>n \<ge> slept s. hw (bar0_words s) n))"
    (is "?P hw s r")
proof (rule wait_rdy.raw_induct [where P = ?P, OF _ run])
  fix wait hw s r
  assume IH: "\<And>hw s r. wait hw s = Some r \<Longrightarrow> ?P hw s r"
    and body: "(let s1 = msleep hw s in if mdio_access_rdy s1 then Some s1 else wait hw s1) = Some r"
  show "?P hw s r"
  proof (cases "mdio_access_rdy (msleep hw s)")
    case True
    then show ?thesis using body by (auto simp: Let_def)
  next
    case False
    then have "wait hw (msleep hw s) = Some r" using body by (simp add: Let_def)
    from IH [OF this] show ?thesis using False by (auto intro: Suc_leD)
  qed
qed

lemma wait_rdy_returns:
  assumes "hw (bar0_words s) n" "slept s \<le> n"
  shows "\<exists>r. wait_rdy hw s = Some r"
  using assms(2,1)
proof (induction "n - slept s" arbitrary: s)
  case 0
  then show ?case by (subst wait_rdy.simps) (simp add: Let_def)
next
  case (Suc m)
  then have "\<exists>r. wait_rdy hw (msleep hw s) = Some r" by (intro Suc.hyps(1)) auto
  then show ?case by (subst wait_rdy.simps) (simp add: Let_def)
qed

lemma wait_rdy_limited_words: "bar0_words (snd (wait_rdy_limited hw t s)) = bar0_words s"
proof (induction hw t s rule: wait_rdy_limited.induct)
  case (1 hw t s)
  then show ?case by (subst wait_rdy_limited.simps) (simp add: Let_def)
qed

text \<open>The limited wait counts the sleeps to the answer, if it comes before the limit.\<close>

lemma wait_rdy_limited_bounds:
  "fst (wait_rdy_limited hw t s) = Some t' \<Longrightarrow> \<not> mdio_access_rdy s \<Longrightarrow>
    t < t' \<and> t' \<le> 20 \<and> hw (bar0_words s) (slept s + (t' - t) - 1)"
proof (induction hw t s arbitrary: t' rule: wait_rdy_limited.induct)
  case (1 hw t s)
  show ?case
  proof (cases "20 < t + 1 \<or> mdio_access_rdy (msleep hw s)")
    case True
    then show ?thesis using "1.prems"
      by (auto simp: wait_rdy_limited.simps [of hw t s] Let_def split: if_splits)
  next
    case False
    then have "fst (wait_rdy_limited hw (t + 1) (msleep hw s)) = Some t'"
      using "1.prems" by (simp add: wait_rdy_limited.simps [of hw t s] Let_def)
    then show ?thesis using "1.IH" [of "msleep hw s" "t + 1" t'] False by (auto simp: Suc_diff_Suc)
  qed
qed

lemma wait_rdy_limited_answer:
  "hw (bar0_words s) n \<Longrightarrow> slept s \<le> n \<Longrightarrow> t + Suc (n - slept s) \<le> 20 \<Longrightarrow>
    \<exists>t' s1. wait_rdy_limited hw t s = (Some t', s1) \<and> t' \<le> t + Suc (n - slept s)"
proof (induction hw t s rule: wait_rdy_limited.induct)
  case (1 hw t s)
  show ?case
  proof (cases "mdio_access_rdy (msleep hw s)")
    case True
    then show ?thesis using "1.prems" by (auto simp: wait_rdy_limited.simps [of hw t s] Let_def)
  next
    case False
    then have "slept s < n" using "1.prems"(1,2) by (cases "slept s = n") auto
    then show ?thesis using "1.IH" [of "msleep hw s" "t + 1"] "1.prems" False
      by (auto simp: wait_rdy_limited.simps [of hw t s] Let_def Suc_diff_Suc)
  qed
qed

section \<open>The loops\<close>

text \<open>What the first step has written when it ends, in either way.\<close>

lemma write_reset_regs_words:
  assumes "write_reset_regs hw 3 tbl t s = Some (r, s')"
  shows "case r of
      Some t' \<Rightarrow> bar0_words s' = bar0_words s @ commands (reg_pairs tbl)
    | None \<Rightarrow> (\<exists>ps a d qs. reg_pairs tbl = ps @ (a, d) # qs \<and>
        bar0_words s' = bar0_words s @ commands ps @ [mdio_word 0 3 MDIO_MMD_PMAPMD a])"
  using assms
proof (induction tbl arbitrary: t s rule: reg_pairs.induct)
  case (1 a d rest)
  let ?c = "mdio_command 0 3 a s"
  obtain r1 s1 where w: "wait_rdy_limited hw t ?c = (r1, s1)" by fastforce
  have b: "bar0_words s1 = bar0_words s @ [mdio_word 0 3 MDIO_MMD_PMAPMD a]"
    using wait_rdy_limited_words [of hw t ?c] w by simp
  show ?case
  proof (cases r1)
    case None
    then have "r = None" "s' = s1" using "1.prems" w by auto
    then show ?thesis using b by (auto intro: exI [of _ "[]"])
  next
    case (Some t1)
    then obtain s2 where s2: "wait_rdy hw (mdio_command 1 3 d s1) = Some s2"
      and rest: "write_reset_regs hw 3 rest t1 s2 = Some (r, s')"
      using "1.prems" w by (auto simp: bind_eq_Some_conv)
    have b2: "bar0_words s2 = bar0_words s @ commands [(a, d)]"
      using wait_rdy_Some [OF s2] b by simp
    show ?thesis
    proof (cases r)
      case None
      then obtain ps a' d' qs where "reg_pairs rest = ps @ (a', d') # qs"
        "bar0_words s' = bar0_words s2 @ commands ps @ [mdio_word 0 3 MDIO_MMD_PMAPMD a']"
        using "1.IH" [OF rest] by auto
      then have "reg_pairs (a # d # rest) = ((a, d) # ps) @ (a', d') # qs"
        "bar0_words s' = bar0_words s @ commands ((a, d) # ps) @ [mdio_word 0 3 MDIO_MMD_PMAPMD a']"
        using b2 by simp_all
      then show ?thesis unfolding None option.case by blast
    next
      case (Some t')
      then show ?thesis using "1.IH" [OF rest] b2 by simp
    qed
  qed
qed auto

lemma write_regs_words:
  assumes "write_regs hw 3 tbl s = Some s'"
  shows "bar0_words s' = bar0_words s @ commands (reg_pairs tbl)"
  using assms
proof (induction tbl arbitrary: s rule: reg_pairs.induct)
  case (1 a d rest)
  obtain s1 s2 where s1: "wait_rdy hw (mdio_command 0 3 a s) = Some s1"
    and s2: "wait_rdy hw (mdio_command 1 3 d s1) = Some s2" and rest: "write_regs hw 3 rest s2 = Some s'"
    using "1.prems" by (auto simp: bind_eq_Some_conv)
  show ?case using "1.IH" [OF rest] wait_rdy_Some [OF s1] wait_rdy_Some [OF s2] by simp
qed auto

text \<open>A card that answers every command in the end lets every loop end.\<close>

lemma wait_command_returns:
  assumes "\<forall>ws. \<exists>n. hw ws n"
  obtains s1 where "wait_rdy hw (mdio_command op port d s) = Some s1"
proof -
  obtain n where "hw (bar0_words (mdio_command op port d s)) n" using assms by blast
  from wait_rdy_returns [of hw, OF this] show ?thesis using that by auto
qed

lemma write_regs_returns:
  assumes "\<forall>ws. \<exists>n. hw ws n"
  shows "\<exists>s'. write_regs hw port tbl s = Some s'"
proof (induction tbl arbitrary: s rule: reg_pairs.induct)
  case (1 a d rest)
  obtain s1 where s1: "wait_rdy hw (mdio_command 0 port a s) = Some s1"
    using wait_command_returns [OF assms] .
  obtain s2 where "wait_rdy hw (mdio_command 1 port d s1) = Some s2"
    using wait_command_returns [OF assms] .
  then show ?case using s1 "1.IH" by simp
qed auto

lemma write_reset_regs_returns:
  assumes "\<forall>ws. \<exists>n. hw ws n"
  shows "\<exists>r s'. write_reset_regs hw port tbl t s = Some (r, s')"
proof (induction tbl arbitrary: s t rule: reg_pairs.induct)
  case (1 a d rest)
  obtain r1 s1 where w: "wait_rdy_limited hw t (mdio_command 0 port a s) = (r1, s1)" by fastforce
  obtain s2 where "wait_rdy hw (mdio_command 1 port d s1) = Some s2"
    using wait_command_returns [OF assms] .
  then show ?case using w "1.IH" by (cases r1) auto
qed auto

text \<open>
  The sleeps of the first step add up: at least \<open>k + 1\<close> for every register where no answer comes in
  the first \<open>k\<close> sleeps, and at most \<open>k\<close> where all answers come in that time.
\<close>

lemma write_reset_regs_slow:
  assumes "\<forall>ws. \<forall>n < k. \<not> hw ws n"
  shows "write_reset_regs hw port tbl t s = Some (Some t', s') \<Longrightarrow>
    t + Suc k * length (reg_pairs tbl) \<le> t' \<and> (t \<le> 20 \<longrightarrow> t' \<le> 20)"
proof (induction tbl arbitrary: s t rule: reg_pairs.induct)
  case (1 a d rest)
  let ?c = "mdio_command 0 port a s"
  obtain t1 s1 s2 where w: "wait_rdy_limited hw t ?c = (Some t1, s1)"
    and rest: "write_reset_regs hw port rest t1 s2 = Some (Some t', s')"
    using "1.prems" by (auto simp: bind_eq_Some_conv split: prod.splits option.splits)
  have t1: "t < t1" "t1 \<le> 20" "hw (bar0_words ?c) (t1 - t - 1)"
    using wait_rdy_limited_bounds [of hw t ?c t1] w by auto
  then have "k \<le> t1 - t - 1" using assms not_less by blast
  then show ?case using "1.IH" [OF rest] t1 by auto
qed auto

lemma write_reset_regs_fast:
  assumes "\<forall>ws. \<exists>n < k. hw ws n"
  shows "t + k * length (reg_pairs tbl) \<le> 20 \<Longrightarrow>
    \<exists>t' s'. write_reset_regs hw port tbl t s = Some (Some t', s')"
proof (induction tbl arbitrary: s t rule: reg_pairs.induct)
  case (1 a d rest)
  let ?c = "mdio_command 0 port a s"
  obtain n where n: "hw (bar0_words ?c) n" "n < k" using assms by blast
  obtain t1 s1 where w: "wait_rdy_limited hw t ?c = (Some t1, s1)" "t1 \<le> t + Suc n"
    using wait_rdy_limited_answer [of hw ?c n t] n "1.prems" by auto
  obtain s2 where s2: "wait_rdy hw (mdio_command 1 port d s1) = Some s2"
    using wait_command_returns [of hw] assms by blast
  have "t1 + k * length (reg_pairs rest) \<le> 20" using w(2) n(2) "1.prems" by simp
  from "1.IH" [OF this, of s2] show ?case using w(1) s2 by simp
qed auto

section \<open>Properties\<close>

lemma length_reset_pairs: "length (reg_pairs reset_regs) = 8"
  by (simp add: reset_regs_def)

lemma configure_answered:
  assumes "\<forall>ws. \<exists>n. hw ws n"
  shows "\<exists>ret s'. configure_ael2005_phy_chips hw s = Some (ret, s') \<and>
    ((\<forall>ws. \<exists>n < 2. hw ws n) \<longrightarrow> ret = 0)"
proof -
  obtain r s1 where w: "write_reset_regs hw 3 reset_regs 0 s = Some (r, s1)"
    using write_reset_regs_returns [OF assms] by blast
  obtain s2 where s2: "write_regs hw 3 sr_edc s1 = Some s2" using write_regs_returns [OF assms] by blast
  obtain s3 where s3: "write_regs hw 3 regs1 s2 = Some s3" using write_regs_returns [OF assms] by blast
  have "r \<noteq> None" if "\<forall>ws. \<exists>n < 2. hw ws n"
    using write_reset_regs_fast [OF that, of 0 reset_regs 3 s] w by (auto simp: length_reset_pairs)
  then show ?thesis using w s2 s3 by (cases r) (auto simp: configure_ael2005_phy_chips_def)
qed

text \<open>The state before the driver is probed.\<close>

definition mdio_init :: mdio where
  "mdio_init = \<lparr>mdio_access_rdy = False, bar0_words = [], slept = 0\<rparr>"

text \<open>
  C17: whatever the card does, a configuration that returns 0 has written exactly the three tables
  into the PHY (the reset registers, the EDC program, then the registers that unpause the
  microprocessor), in this order; one that fails returns \<open>-ENODEV\<close> and has written a proper prefix
  of the reset registers; there is no other outcome.
\<close>

theorem configure_programs_phy:
  assumes "configure_ael2005_phy_chips hw s = Some (ret, s')" "bar0_words s = []"
  shows "ret = 0 \<and> phy_log (bar0_words s') = reg_pairs reset_regs @ reg_pairs sr_edc @ reg_pairs regs1 \<or>
    ret = - ENODEV \<and> strict_prefix (phy_log (bar0_words s')) (reg_pairs reset_regs)"
proof -
  obtain r s1 where w: "write_reset_regs hw 3 reset_regs 0 s = Some (r, s1)"
    using assms(1) by (auto simp: configure_ael2005_phy_chips_def bind_eq_Some_conv)
  note words = write_reset_regs_words [OF w]
  show ?thesis
  proof (cases r)
    case None
    then show ?thesis using assms words w
      by (auto simp: configure_ael2005_phy_chips_def phy_log_commands phy_log_address
          simp flip: append_assoc intro: strict_prefixI')
  next
    case (Some t)
    then obtain s2 s3 where "write_regs hw 3 sr_edc s1 = Some s2" "write_regs hw 3 regs1 s2 = Some s3"
      "ret = 0" "s' = s3"
      using assms(1) w by (auto simp: configure_ael2005_phy_chips_def bind_eq_Some_conv)
    then show ?thesis using words Some assms(2)
      by (simp add: write_regs_words phy_log_commands flip: commands_simps(2))
  qed
qed

theorem configure_programs_phy_witness:
  "\<exists>s'. configure_ael2005_phy_chips (\<lambda>ws n. n = 0) mdio_init = Some (0, s') \<and>
    phy_log (bar0_words s') = reg_pairs reset_regs @ reg_pairs sr_edc @ reg_pairs regs1"
proof -
  obtain ret s' where "configure_ael2005_phy_chips (\<lambda>ws n. n = 0) mdio_init = Some (ret, s')" "ret = 0"
    using configure_answered [of "\<lambda>ws n. n = 0" mdio_init] by auto
  then show ?thesis
    using configure_programs_phy [of "\<lambda>ws n. n = 0" mdio_init ret s'] by (auto simp: mdio_init_def ENODEV_def)
qed

text \<open>
  C18: a card that answers every command in the end lets the configuration return; if it answers
  each within two sleeps, the configuration succeeds.
\<close>

theorem configure_returns:
  assumes "\<forall>ws. \<exists>n. hw ws n"
  shows "\<exists>ret s'. configure_ael2005_phy_chips hw s = Some (ret, s') \<and>
    ((\<forall>ws. \<exists>n < 2. hw ws n) \<longrightarrow> ret = 0)"
  using configure_answered [OF assms] .

theorem configure_returns_witness:
  "\<exists>s'. configure_ael2005_phy_chips (\<lambda>ws n. n = 1) mdio_init = Some (0, s')"
  using configure_returns [of "\<lambda>ws n. n = 1" mdio_init] by auto

text \<open>
  The limit of 20 sleeps is for all reset registers together. A card that answers every command,
  but never in the first two sleeps, is given up with \<open>-ENODEV\<close>.
\<close>

theorem slow_card_given_up:
  assumes "\<forall>ws. \<exists>n. hw ws n" "\<forall>ws. \<forall>n < 2. \<not> hw ws n"
  shows "\<exists>s'. configure_ael2005_phy_chips hw s = Some (- ENODEV, s')"
proof -
  obtain r s1 where w: "write_reset_regs hw 3 reset_regs 0 s = Some (r, s1)"
    using write_reset_regs_returns [OF assms(1)] by blast
  have "r = None"
    using write_reset_regs_slow [OF assms(2), of 3 reset_regs 0 s _ s1] w
    by (cases r) (auto simp: length_reset_pairs)
  then show ?thesis using w by (simp add: configure_ael2005_phy_chips_def)
qed

theorem slow_card_given_up_witness:
  "\<exists>s'. configure_ael2005_phy_chips (\<lambda>ws n. n = 2) mdio_init = Some (- ENODEV, s')"
  using slow_card_given_up [of "\<lambda>ws n. n = 2" mdio_init] by auto

text \<open>
  C19: only the address commands of the first step have a limit. If the card answers the first
  address in time and never the data that follows, the configuration does not return.
\<close>

theorem unanswered_write_hangs:
  assumes "bar0_words s = []"
    and "\<exists>n < 20. hw [mdio_word 0 3 MDIO_MMD_PMAPMD 0] n"
    and "\<forall>n. \<not> hw [mdio_word 0 3 MDIO_MMD_PMAPMD 0, mdio_word 1 3 MDIO_MMD_PMAPMD 0xa040] n"
  shows "configure_ael2005_phy_chips hw s = None"
proof -
  obtain rest where tbl: "reset_regs = 0 # 0xa040 # rest" by (simp add: reset_regs_def)
  let ?c = "mdio_command 0 3 0 s"
  obtain n where n: "n < 20" "hw (bar0_words ?c) n" using assms(1,2) by auto
  obtain t1 s1 where w: "wait_rdy_limited hw 0 ?c = (Some t1, s1)"
    using wait_rdy_limited_answer [of hw ?c n 0] n by auto
  have "bar0_words s1 = bar0_words ?c" using wait_rdy_limited_words [of hw 0 ?c] w by simp
  then have "wait_rdy hw (mdio_command 1 3 0xa040 s1) = None"
    using wait_rdy_Some [of hw "mdio_command 1 3 0xa040 s1"] assms(1,3)
    by (cases "wait_rdy hw (mdio_command 1 3 0xa040 s1)") auto
  then show ?thesis using w by (simp add: configure_ael2005_phy_chips_def tbl)
qed

theorem unanswered_write_hangs_witness:
  "configure_ael2005_phy_chips (\<lambda>ws n. length ws \<noteq> 2) mdio_init = None"
proof -
  have "bar0_words mdio_init = []" by (simp add: mdio_init_def)
  moreover have "\<exists>n < (20 :: nat). length [w :: u32] \<noteq> 2" for w by (rule exI [of _ 0]) simp
  ultimately show ?thesis
    using unanswered_write_hangs [of mdio_init "\<lambda>ws n. length ws \<noteq> 2"] by simp
qed

text \<open>
  The EDC programs the tables carry are whole. After the three set-up registers, the words of the
  SR program have the consecutive addresses \<open>0xcc00\<close> to \<open>0xcd0e\<close>, and, after one, those of the
  twinax program \<open>0xcc00\<close> to \<open>0xcd6d\<close>: no word of the microcode is missing, repeated or out of place.
\<close>

theorem edc_programs_contiguous:
  "map (unat \<circ> fst) (drop 3 (reg_pairs sr_edc)) = [0xcc00..<0xcd0f] \<and>
   map (unat \<circ> fst) (drop 1 (reg_pairs twinax_edc)) = [0xcc00..<0xcd6e]"
  by (simp add: table_parts upt_rec)

text \<open>
  \<open>my_driver\<close>'s copy of the configuration behaves as the driver's on every card: the same
  result, the same commands in the same order.
\<close>

theorem my_configure_same:
  "my_configure_ael2005_phy_chips hw s = configure_ael2005_phy_chips hw s"
  by (simp only: my_configure_ael2005_phy_chips_def configure_ael2005_phy_chips_def my_tables_same)

end
