(* ===== verification/Ledger.thy ===== *)
theory Ledger
  imports Prelude
begin

text \<open>
  Resources and their ledger, for the probe and remove functions of both drivers. The ledger lists
  the acquisitions and releases in order; \<open>held\<close> is what is held after them, and \<open>stray\<close> what was
  released without being held (or acquired twice).
\<close>

datatype 'r pev = Acquire 'r | Release 'r

fun ledger_step :: "'r pev \<Rightarrow> 'r set \<times> 'r list \<Rightarrow> 'r set \<times> 'r list" where
  "ledger_step (Acquire r) (S, bad) = (insert r S, if r \<in> S then bad @ [r] else bad)"
| "ledger_step (Release r) (S, bad) = (S - {r}, if r \<in> S then bad else bad @ [r])"

definition held :: "'r pev list \<Rightarrow> 'r set" where
  "held l = fst (fold ledger_step l ({}, []))"

definition stray :: "'r pev list \<Rightarrow> 'r list" where
  "stray l = snd (fold ledger_step l ({}, []))"

lemma held_append: "held (l @ es) = fst (fold ledger_step es (held l, stray l))"
  by (simp add: held_def stray_def)

lemma stray_append: "stray (l @ es) = snd (fold ledger_step es (held l, stray l))"
  by (simp add: held_def stray_def)

lemma ledger_Nil [simp]: "held [] = {}" "stray [] = []"
  by (simp_all add: held_def stray_def)

text \<open>Acquiring resources that are not held, and releasing resources that are.\<close>

lemma ledger_acquire_all:
  "distinct rs \<Longrightarrow> set rs \<inter> held l = {} \<Longrightarrow>
    held (l @ map Acquire rs) = held l \<union> set rs \<and> stray (l @ map Acquire rs) = stray l"
proof (induction rs arbitrary: l)
  case (Cons r rs)
  have h: "held (l @ [Acquire r]) = insert r (held l)" "stray (l @ [Acquire r]) = stray l"
    using Cons.prems by (simp_all add: held_append stray_append)
  then show ?case using Cons.IH [of "l @ [Acquire r]"] Cons.prems by simp
qed simp

lemma ledger_release_all:
  "distinct rs \<Longrightarrow> set rs \<subseteq> held l \<Longrightarrow>
    held (l @ map Release rs) = held l - set rs \<and> stray (l @ map Release rs) = stray l"
proof (induction rs arbitrary: l)
  case (Cons r rs)
  have h: "held (l @ [Release r]) = held l - {r}" "stray (l @ [Release r]) = stray l"
    using Cons.prems by (simp_all add: held_append stray_append)
  moreover have "set rs \<subseteq> held (l @ [Release r])" using Cons.prems h by auto
  ultimately show ?case using Cons.IH [of "l @ [Release r]"] Cons.prems by auto
qed simp

text \<open>Acquiring a list and then releasing another one, for a ledger without strays.\<close>

lemma ledger_acquire_release:
  assumes "distinct as" "set as \<inter> held l = {}" "distinct rs" "set rs \<subseteq> held l \<union> set as" "stray l = []"
  shows "held (l @ map Acquire as @ map Release rs) = held l \<union> set as - set rs \<and>
    stray (l @ map Acquire as @ map Release rs) = []"
  using ledger_acquire_all [OF assms(1,2)] ledger_release_all [OF assms(3), of "l @ map Acquire as"] assms(4,5)
  by simp

text \<open>What was never acquired is not held.\<close>

lemma not_acquired_not_held: "Acquire r \<notin> set l \<Longrightarrow> r \<notin> held l"
proof (induction l rule: rev_induct)
  case (snoc e l)
  then show ?case by (cases e) (auto simp: held_append)
qed simp

end
