(* ===== verification/Nf10_Main.thy ===== *)
theory Nf10_Main
  imports Lbuf_Tx Nf10_User Mdio Ledger
begin

text \<open>
  The frame of the driver, \<open>sw/driver/nf10_main.c\<close> (with \<open>nf10_init_fops\<close> of \<open>nf10_user.c\<close> and
  \<open>nf10_ethtool.c\<close>), built without \<open>CONFIG_XEN_NF_BACKEND\<close>: the table of operations of a DMA engine
  and what the frame relies on (locale \<open>hw_engine\<close>, interpreted by the large-buffer engine), bringing
  the interface up and down, the NAPI poll, and probing and removing the card with all the resources
  they acquire and release.
\<close>

section \<open>The operations of a DMA engine\<close>

record hw_ops =
  ho_init :: "nic \<Rightarrow> int \<times> nic"
  ho_free :: "nic \<Rightarrow> fault + nic"
  ho_init_buffers :: "nic \<Rightarrow> fault + int \<times> nic"
  ho_free_buffers :: "nic \<Rightarrow> nic"
  ho_get_napi_budget :: int
  ho_process_rx_irq :: "int \<Rightarrow> int \<Rightarrow> nic \<Rightarrow> fault + int \<times> nic"
  ho_start_xmit :: "u64 \<Rightarrow> nic \<Rightarrow> fault + netdev_tx \<times> nic"
  ho_clean_tx_irq :: "nic \<Rightarrow> (fault + bool \<times> nic) option"
  ho_ctrl_irq :: "u64 \<Rightarrow> nic \<Rightarrow> u64 \<times> nic"

text \<open>\<open>nf10_lbuf_free\<close>: whatever is left on the pending list is to be purged (no entry has the address 0).\<close>

definition nf10_lbuf_free :: "kapi \<Rightarrow> nic \<Rightarrow> fault + nic" where
  "nf10_lbuf_free k s =
     rbind (clean_tx_pending_gc k 0 s) (\<lambda>(empty, s1).
       if \<not> empty then Inl KernelBug
       else Inr (emit (CacheDestroy PendingGcCache) (emit (CacheDestroy DescCache) s1)))"

definition lbuf_hw_ops :: "config \<Rightarrow> kapi \<Rightarrow> device \<Rightarrow> hw_ops" where
  "lbuf_hw_ops cfg k dev = \<lparr>ho_init = nf10_lbuf_init k, ho_free = nf10_lbuf_free k,
     ho_init_buffers = nf10_lbuf_init_buffers cfg k, ho_free_buffers = nf10_lbuf_free_buffers cfg,
     ho_get_napi_budget = nf10_lbuf_napi_budget,
     ho_process_rx_irq = nf10_lbuf_process_rx_irq cfg k,
     ho_start_xmit = nf10_lbuf_start_xmit k, ho_clean_tx_irq = nf10_lbuf_clean_tx_irq k dev,
     ho_ctrl_irq = nf10_lbuf_ctrl_irq\<rparr>"

section \<open>State\<close>

text \<open>
  What the driver holds of the system.
\<close>

datatype pci_res = PciDevice | PciRegions | BusMaster | NetDev | DrvData | Bar0 | Bar2 | Msi | IrqLine
  | NetdevReg | NapiContext | NapiOn | ChrdevRegion | Cdev | DevClass | DevNode

text \<open>
  \<open>struct nf10_adapter\<close> with the fields of its \<open>net_device\<close> the frame uses: the engine's state, the
  PHY's, \<open>hw_ops\<close> (null until \<open>nf10_init\<close>), the module parameter \<open>reset\<close>, whether the transmit queue
  runs, whether the stack has the interface up, whether NAPI is scheduled, and the ledger.
\<close>

record adapter =
  engine :: nic
  phy :: mdio
  adapter_ops :: "hw_ops option"
  user_ops_set :: "user_ops option"
  msg_enable :: u16
  reset_sent :: bool
  queue_running :: bool
  is_up :: bool
  napi_scheduled :: bool
  ledger :: "pci_res pev list"

definition acquire :: "pci_res \<Rightarrow> adapter \<Rightarrow> adapter" where
  "acquire r s = s\<lparr>ledger := ledger s @ [Acquire r]\<rparr>"

definition release :: "pci_res \<Rightarrow> adapter \<Rightarrow> adapter" where
  "release r s = s\<lparr>ledger := ledger s @ [Release r]\<rparr>"

text \<open>A call through \<open>adapter->hw_ops\<close>; the engine's state is part of the adapter's.\<close>

definition with_ops :: "adapter \<Rightarrow> (hw_ops \<Rightarrow> fault + 'a) \<Rightarrow> fault + 'a" where
  "with_ops s f = (case adapter_ops s of None \<Rightarrow> Inl NullDeref | Some ops \<Rightarrow> f ops)"

section \<open>Calls through the table\<close>

definition nf10_lbuf_set_hw_ops :: "config \<Rightarrow> kapi \<Rightarrow> device \<Rightarrow> adapter \<Rightarrow> adapter" where
  "nf10_lbuf_set_hw_ops cfg k dev s = s\<lparr>adapter_ops := Some (lbuf_hw_ops cfg k dev)\<rparr>"

definition nf10_init :: "int \<Rightarrow> config \<Rightarrow> kapi \<Rightarrow> device \<Rightarrow> adapter \<Rightarrow> fault + int \<times> adapter" where
  "nf10_init dma_mode cfg k dev s =
     (if dma_mode \<noteq> 0 then Inr (- EINVAL, s)
      else let s1 = nf10_lbuf_set_hw_ops cfg k dev s
           in case adapter_ops s1 of
                None \<Rightarrow> Inr (- EINVAL, s1)
              | Some ops \<Rightarrow>
                  (let (err, e) = ho_init ops (engine s1);
                       s2 = s1\<lparr>engine := e\<rparr>
                   in Inr (err, if err = 0 then s2\<lparr>user_ops_set := Some (lbuf_user_ops cfg)\<rparr> else s2)))"

definition nf10_free :: "adapter \<Rightarrow> fault + adapter" where
  "nf10_free s = with_ops s (\<lambda>ops. rbind (ho_free ops (engine s)) (\<lambda>e. Inr (s\<lparr>engine := e\<rparr>)))"

definition nf10_init_buffers :: "adapter \<Rightarrow> fault + int \<times> adapter" where
  "nf10_init_buffers s =
     with_ops s (\<lambda>ops. rbind (ho_init_buffers ops (engine s)) (\<lambda>(err, e). Inr (err, s\<lparr>engine := e\<rparr>)))"

definition nf10_free_buffers :: "adapter \<Rightarrow> fault + adapter" where
  "nf10_free_buffers s = with_ops s (\<lambda>ops. Inr (s\<lparr>engine := ho_free_buffers ops (engine s)\<rparr>))"

definition nf10_napi_budget :: "adapter \<Rightarrow> fault + int" where
  "nf10_napi_budget s = with_ops s (\<lambda>ops. Inr (ho_get_napi_budget ops))"

definition nf10_process_rx_irq :: "int \<Rightarrow> int \<Rightarrow> adapter \<Rightarrow> fault + int \<times> adapter" where
  "nf10_process_rx_irq work_done budget s =
     with_ops s (\<lambda>ops. rbind (ho_process_rx_irq ops work_done budget (engine s)) (\<lambda>(w, e).
       Inr (w, s\<lparr>engine := e\<rparr>)))"

definition nf10_start_xmit :: "u64 \<Rightarrow> adapter \<Rightarrow> fault + netdev_tx \<times> adapter" where
  "nf10_start_xmit p s =
     with_ops s (\<lambda>ops. rbind (ho_start_xmit ops p (engine s)) (\<lambda>(r, e). Inr (r, s\<lparr>engine := e\<rparr>)))"

text \<open>The collection of transmitted buffers may not return: the outer option.\<close>

definition nf10_clean_tx_irq :: "adapter \<Rightarrow> (fault + bool \<times> adapter) option" where
  "nf10_clean_tx_irq s =
     (case adapter_ops s of
        None \<Rightarrow> Some (Inl NullDeref)
      | Some ops \<Rightarrow>
          map_option (\<lambda>r. rbind r (\<lambda>(complete, e). Inr (complete, s\<lparr>engine := e\<rparr>)))
            (ho_clean_tx_irq ops (engine s)))"

definition nf10_enable_tx_irq :: "adapter \<Rightarrow> fault + adapter" where
  "nf10_enable_tx_irq s =
     with_ops s (\<lambda>ops. Inr (s\<lparr>engine := snd (ho_ctrl_irq ops IRQ_CTRL_TX_ENABLE (engine s))\<rparr>))"

section \<open>Interface up and down, interrupt and poll\<close>

text \<open>\<open>reset_bus\<close> is the result of \<open>pci_reset_bus\<close>; the bus is reset once.\<close>

definition nf10_up :: "int \<Rightarrow> adapter \<Rightarrow> fault + int \<times> adapter" where
  "nf10_up reset_bus s =
     (if \<not> reset_sent s \<and> reset_bus \<noteq> 0 then Inr (reset_bus, s)
      else let s1 = s\<lparr>reset_sent := True\<rparr>
           in rbind (nf10_init_buffers s1) (\<lambda>(err, s2).
                if err \<noteq> 0 then Inr (err, s2)
                else rbind (nf10_enable_tx_irq s2) (\<lambda>s3.
                  Inr (0, s3\<lparr>queue_running := True, engine := (engine s3)\<lparr>rx_packets := 0\<rparr>\<rparr>))))"

definition nf10_down :: "adapter \<Rightarrow> fault + int \<times> adapter" where
  "nf10_down s = rbind (nf10_free_buffers s) (\<lambda>s1. Inr (0, s1\<lparr>queue_running := False\<rparr>))"

definition nf10_get_stats :: "adapter \<Rightarrow> u64 \<times> u64" where
  "nf10_get_stats s = (rx_packets (engine s), tx_packets (engine s))"

definition nf10_interrupt_handler :: "adapter \<Rightarrow> adapter" where
  "nf10_interrupt_handler s = s\<lparr>napi_scheduled := True\<rparr>"

definition nf10_poll :: "int \<Rightarrow> adapter \<Rightarrow> (fault + int \<times> adapter) option" where
  "nf10_poll budget s =
     map_option (\<lambda>r.
       rbind r (\<lambda>(tx_clean_complete, s1).
         rbind (nf10_process_rx_irq 0 budget s1) (\<lambda>(work_done, s2).
           let work_done = (if \<not> tx_clean_complete then budget else work_done)
           in Inr (work_done, if work_done < budget then s2\<lparr>napi_scheduled := False\<rparr> else s2))))
       (nf10_clean_tx_irq s)"

definition nf10_get_msglevel :: "adapter \<Rightarrow> u32" where
  "nf10_get_msglevel s = ucast (msg_enable s)"

definition nf10_set_msglevel :: "u32 \<Rightarrow> adapter \<Rightarrow> adapter" where
  "nf10_set_msglevel data s = s\<lparr>msg_enable := ucast data\<rparr>"

section \<open>Probe and remove\<close>

text \<open>
  The results of the calls of the PCI and character-device layers: 0 or an error, or whether a
  pointer is not null; \<open>pe_card\<close> is how the card answers on MDIO.
\<close>

record pci_env =
  pe_enable_device :: int
  pe_set_dma_mask :: int
  pe_set_consistent_dma_mask :: int
  pe_request_regions :: int
  pe_alloc_etherdev :: bool
  pe_iomap_bar0 :: bool
  pe_iomap_bar2 :: bool
  pe_enable_msi :: int
  pe_request_mdio_irq :: int
  pe_request_irq :: int
  pe_register_netdev :: int
  pe_alloc_chrdev :: int
  pe_cdev_add :: int
  pe_msg_init :: u16
  pe_card :: mdio_card

definition nf10_init_phy :: "pci_env \<Rightarrow> adapter \<Rightarrow> (int \<times> adapter) option" where
  "nf10_init_phy env s =
     (if pe_request_mdio_irq env \<noteq> 0 then Some (pe_request_mdio_irq env, s)
      else let s1 = acquire IrqLine s
           in map_option (\<lambda>(err, p). (err, release IrqLine (s1\<lparr>phy := p\<rparr>)))
                (configure_ael2005_phy_chips (pe_card env) (phy s1)))"

definition nf10_init_fops :: "pci_env \<Rightarrow> adapter \<Rightarrow> int \<times> adapter" where
  "nf10_init_fops env s =
     (if pe_alloc_chrdev env \<noteq> 0 then (pe_alloc_chrdev env, s)
      else let s1 = acquire ChrdevRegion s
           in if pe_cdev_add env \<noteq> 0 then (pe_cdev_add env, s1)
              else (0, acquire DevNode (acquire DevClass (acquire Cdev s1))))"

text \<open>Both \<open>class_unregister\<close> and \<open>class_destroy\<close> give the class up.\<close>

definition nf10_remove_fops :: "adapter \<Rightarrow> int \<times> adapter" where
  "nf10_remove_fops s =
     (0, release ChrdevRegion (release Cdev (release DevClass (release DevClass (release DevNode s)))))"

text \<open>The labels of \<open>nf10_probe\<close>, each falling through to the next.\<close>

definition err_dma :: "adapter \<Rightarrow> adapter" where
  "err_dma = release PciDevice"

definition err_request_regions :: "adapter \<Rightarrow> adapter" where
  "err_request_regions = err_dma"

definition err_alloc_etherdev :: "adapter \<Rightarrow> adapter" where
  "err_alloc_etherdev s = err_request_regions (release PciRegions (release BusMaster s))"

definition err_pci_iomap_bar0 :: "adapter \<Rightarrow> adapter" where
  "err_pci_iomap_bar0 s = err_alloc_etherdev (release DrvData (release NetDev s))"

definition err_pci_iomap_bar2 :: "adapter \<Rightarrow> adapter" where
  "err_pci_iomap_bar2 s = err_pci_iomap_bar0 (release Bar0 s)"

definition err_enable_msi :: "adapter \<Rightarrow> adapter" where
  "err_enable_msi s = err_pci_iomap_bar2 (release Bar2 s)"

definition err_init_phy :: "adapter \<Rightarrow> adapter" where
  "err_init_phy s = err_enable_msi (release Msi s)"

definition err_request_irq :: "adapter \<Rightarrow> adapter" where
  "err_request_irq = err_init_phy"

definition err_register_netdev :: "adapter \<Rightarrow> adapter" where
  "err_register_netdev s = err_request_irq (release IrqLine s)"

definition err_register_hw_ops :: "adapter \<Rightarrow> adapter" where
  "err_register_hw_ops s = err_register_netdev (release NetdevReg s)"

text \<open>The part of \<open>nf10_probe\<close> after the PHY is configured.\<close>

definition probe_netdev ::
  "pci_env \<Rightarrow> int \<Rightarrow> config \<Rightarrow> kapi \<Rightarrow> device \<Rightarrow> adapter \<Rightarrow> fault + int \<times> adapter" where
  "probe_netdev env dma_mode cfg k dev s =
     (if pe_request_irq env \<noteq> 0 then Inr (pe_request_irq env, err_request_irq s)
      else let s1 = acquire IrqLine s
      in if pe_register_netdev env \<noteq> 0 then Inr (pe_register_netdev env, err_register_netdev s1)
      else let s2 = acquire NetdevReg s1
      in rbind (nf10_init dma_mode cfg k dev s2) (\<lambda>(err, s3).
           if err \<noteq> 0 then Inr (err, err_register_hw_ops s3)
           else let s4 = snd (nf10_init_fops env s3)
           in rbind (nf10_napi_budget s4) (\<lambda>weight.
                Inr (0, acquire NapiOn (acquire NapiContext s4)))))"

definition nf10_probe ::
  "pci_env \<Rightarrow> int \<Rightarrow> config \<Rightarrow> kapi \<Rightarrow> device \<Rightarrow> adapter \<Rightarrow> (fault + int \<times> adapter) option" where
  "nf10_probe env dma_mode cfg k dev s =
     (if pe_enable_device env \<noteq> 0 then Some (Inr (pe_enable_device env, s))
      else let s1 = acquire PciDevice s
      in if pe_set_dma_mask env \<noteq> 0 then Some (Inr (pe_set_dma_mask env, err_dma s1))
      else if pe_set_consistent_dma_mask env \<noteq> 0
        then Some (Inr (pe_set_consistent_dma_mask env, err_dma s1))
      else if pe_request_regions env \<noteq> 0
        then Some (Inr (pe_request_regions env, err_request_regions s1))
      else let s2 = acquire BusMaster (acquire PciRegions s1)
      in if \<not> pe_alloc_etherdev env then Some (Inr (- ENOMEM, err_alloc_etherdev s2))
      else let s3 = (acquire DrvData (acquire NetDev s2))\<lparr>msg_enable := pe_msg_init env\<rparr>
      in if \<not> pe_iomap_bar0 env then Some (Inr (- EIO, err_pci_iomap_bar0 s3))
      else let s4 = acquire Bar0 s3
      in if \<not> pe_iomap_bar2 env then Some (Inr (- EIO, err_pci_iomap_bar2 s4))
      else let s5 = acquire Bar2 s4
      in if pe_enable_msi env \<noteq> 0 then Some (Inr (pe_enable_msi env, err_enable_msi s5))
      else map_option (\<lambda>(err, s6).
             if err \<noteq> 0 then Inr (err, err_init_phy s6)
             else probe_netdev env dma_mode cfg k dev s6)
           (nf10_init_phy env (acquire Msi s5)))"

text \<open>Unregistering a running interface stops it through \<open>ndo_stop\<close>.\<close>

definition unregister_netdev :: "adapter \<Rightarrow> fault + adapter" where
  "unregister_netdev s =
     (if is_up s then rbind (nf10_down s) (\<lambda>(_, s1). Inr (release NetdevReg (s1\<lparr>is_up := False\<rparr>)))
      else Inr (release NetdevReg s))"

definition nf10_remove :: "adapter \<Rightarrow> fault + adapter" where
  "nf10_remove s =
     (if DrvData \<notin> held (ledger s) then Inr s
      else let s1 = snd (nf10_remove_fops s);
               s2 = release NapiOn (release NapiContext s1)
           in rbind (nf10_free s2) (\<lambda>s3.
                rbind (unregister_netdev s3) (\<lambda>s4.
                  Inr (release PciDevice (release PciRegions (release BusMaster (release DrvData
                    (release NetDev (release Bar0 (release Bar2 (release Msi
                      (release IrqLine s4))))))))))))"

section \<open>What the frame relies on\<close>

text \<open>
  The contract of a DMA engine as \<open>nf10_main.c\<close> uses it, relative to what others hold: \<open>idle M D\<close>
  says that of memory and DMA mappings exactly \<open>M\<close> and \<open>D\<close> are live, \<open>running M D\<close> that the engine
  holds its buffers on top of them. Bringing the buffers up leads from \<open>idle\<close> to \<open>running\<close> or back to
  \<open>idle\<close>, taking them down leads back; and a poll of the receive side does not exceed its budget.
\<close>

locale hw_engine =
  fixes ops :: hw_ops
    and idle running :: "u64 set \<Rightarrow> u64 set \<Rightarrow> nic \<Rightarrow> bool"
  assumes init_law: "idle M D s \<Longrightarrow> \<exists>err s'. ho_init_buffers ops s = Inr (err, s') \<and>
      (if err = 0 then running M D s' else idle M D s')"
    and free_law: "running M D s \<Longrightarrow> idle M D (ho_free_buffers ops s)"
    and ctrl_law: "running M D s \<Longrightarrow> running M D (snd (ho_ctrl_irq ops cmd s))"
    and stats_law: "running M D (s\<lparr>rx_packets := n\<rparr>) = running M D s"
    and rx_law: "1 \<le> budget \<Longrightarrow> ho_process_rx_irq ops 0 budget s = Inr (w, s') \<Longrightarrow> 0 \<le> w \<and> w \<le> budget"
begin

lemma up_cases:
  assumes "adapter_ops s = Some ops" "idle M D (engine s)"
  shows "\<exists>err s'. nf10_up r s = Inr (err, s') \<and> adapter_ops s' = Some ops \<and>
    (if err = 0 then running M D (engine s') \<and> queue_running s' \<and> reset_sent s' \<and> rx_packets (engine s') = 0
     else idle M D (engine s') \<and> queue_running s' = queue_running s)"
proof (cases "\<not> reset_sent s \<and> r \<noteq> 0")
  case True
  then show ?thesis using assms by (simp add: nf10_up_def)
next
  case False
  obtain err e where e: "ho_init_buffers ops (engine s) = Inr (err, e)"
    "if err = 0 then running M D e else idle M D e"
    using init_law [OF assms(2)] by blast
  show ?thesis
  proof (cases "err = 0")
    case True
    then have "running M D ((snd (ho_ctrl_irq ops IRQ_CTRL_TX_ENABLE e))\<lparr>rx_packets := 0\<rparr>)"
      using e(2) by (simp add: ctrl_law stats_law)
    then show ?thesis using False True e(1) assms(1)
      by (auto simp: nf10_up_def nf10_init_buffers_def nf10_enable_tx_irq_def with_ops_def)
  next
    case False
    then show ?thesis using \<open>\<not> (\<not> reset_sent s \<and> r \<noteq> 0)\<close> e assms(1)
      by (auto simp: nf10_up_def nf10_init_buffers_def with_ops_def)
  qed
qed

lemma down_ok:
  assumes "adapter_ops s = Some ops" "running M D (engine s)"
  shows "\<exists>s'. nf10_down s = Inr (0, s') \<and> idle M D (engine s') \<and> \<not> queue_running s' \<and>
    adapter_ops s' = Some ops"
  using assms by (simp add: nf10_down_def nf10_free_buffers_def with_ops_def free_law)

text \<open>The NAPI contract: at most the budget, and completed exactly when less than the budget.\<close>

lemma poll_contract:
  assumes "adapter_ops s = Some ops" "1 \<le> budget" "nf10_poll budget s = Some (Inr (w, s'))"
    and "napi_scheduled s"
  shows "w \<le> budget \<and> (napi_scheduled s' \<longleftrightarrow> w = budget)"
proof -
  obtain c e1 where c: "ho_clean_tx_irq ops (engine s) = Some (Inr (c, e1))"
    using assms(1,3) by (auto simp: nf10_poll_def nf10_clean_tx_irq_def rbind_eq_Inr)
  obtain w1 e2 where p: "ho_process_rx_irq ops 0 budget e1 = Inr (w1, e2)"
    using assms(1,3) c
    by (auto simp: nf10_poll_def nf10_clean_tx_irq_def nf10_process_rx_irq_def with_ops_def rbind_eq_Inr)
  have "w1 \<le> budget" using rx_law [OF assms(2) p] by simp
  then show ?thesis using assms c p
    by (auto simp: nf10_poll_def nf10_clean_tx_irq_def nf10_process_rx_irq_def with_ops_def Let_def
        split: if_splits)
qed

end

text \<open>The large-buffer engine keeps the contract.\<close>

definition lbuf_idle :: "kapi \<Rightarrow> u64 set \<Rightarrow> u64 set \<Rightarrow> nic \<Rightarrow> bool" where
  "lbuf_idle k M D s \<longleftrightarrow> kernel_ok k \<and> live_mem (hist s) = M \<and> live_dma k (hist s) = D \<and>
     frees_ok (hist s) \<and> unmaps_ok k (hist s) \<and> length (descs s RX) = NR_LBUF"

definition lbuf_running :: "kapi \<Rightarrow> u64 set \<Rightarrow> u64 set \<Rightarrow> nic \<Rightarrow> bool" where
  "lbuf_running k M D s \<longleftrightarrow> kernel_ok k \<and>
     rx_ready k (insert (tx_completion_kern_addr s) M) (insert (tx_completion_dma_addr s) D) s \<and>
     rx_armed s \<and> tx_completion_kern_addr s \<notin> M \<and> tx_completion_dma_addr s \<notin> D"

lemma process_rx_irq_work_done:
  assumes "nf10_lbuf_process_rx_irq cfg k w budget s = Inr (w', s')"
  shows "w' = w \<or> w' = 1"
  using assms by (auto simp: nf10_lbuf_process_rx_irq_def rbind_eq_Inr split: option.splits)

lemma free_buffers_descs: "descs (nf10_lbuf_free_buffers cfg s) = descs s"
  by (rule hist_only_fields(1) [OF free_buffers_hist_only])

lemma lbuf_running_cong:
  assumes "descs s' RX = descs s RX" "prod_ptr s' RX = prod_ptr s RX" "cons_ptr s' RX = cons_ptr s RX"
    and "tx_completion_kern_addr s' = tx_completion_kern_addr s"
    and "tx_completion_dma_addr s' = tx_completion_dma_addr s"
    and "\<And>off. last_writeq off (hist s') = last_writeq off (hist s)"
    and "live_mem (hist s') = live_mem (hist s)" "live_dma k (hist s') = live_dma k (hist s)"
    and "frees_ok (hist s') = frees_ok (hist s)" "unmaps_ok k (hist s') = unmaps_ok k (hist s)"
  shows "lbuf_running k M D s' = lbuf_running k M D s"
  using assms rx_armed_cong [OF assms(1-3,6)] ring_fields_cong(1,2) [OF assms(1-3)]
  by (simp add: lbuf_running_def rx_ready_def bufs_owned_def)

interpretation lbuf_engine: hw_engine "lbuf_hw_ops cfg k dev" "lbuf_idle k" "lbuf_running k" for cfg k dev
proof
  fix M D s cmd n budget w s'
  show "\<exists>err s'. ho_init_buffers (lbuf_hw_ops cfg k dev) s = Inr (err, s') \<and>
      (if err = 0 then lbuf_running k M D s' else lbuf_idle k M D s')" if "lbuf_idle k M D s"
  proof -
    have pre: "kernel_ok k" "frees_ok (hist s)" "unmaps_ok k (hist s)" "length (descs s RX) = NR_LBUF"
      using that by (simp_all add: lbuf_idle_def)
    obtain err s' where r: "nf10_lbuf_init_buffers cfg k s = Inr (err, s')" and
      c: "if err = 0 then
       rx_ready k (insert (tx_completion_kern_addr s') (live_mem (hist s)))
                  (insert (tx_completion_dma_addr s') (live_dma k (hist s))) s' \<and>
       rx_armed s' \<and> tx_completion_kern_addr s' \<notin> live_mem (hist s) \<and>
       tx_completion_dma_addr s' \<notin> live_dma k (hist s)
     else bufs_owned k (live_mem (hist s)) (live_dma k (hist s)) (hist s') []"
      using init_buffers_cases [OF pre, of cfg] by blast
    show ?thesis using r c that init_buffers_keeps(7) [OF r]
      by (cases "err = 0") (auto simp: lbuf_hw_ops_def lbuf_idle_def lbuf_running_def bufs_owned_def)
  qed
  show "lbuf_idle k M D (ho_free_buffers (lbuf_hw_ops cfg k dev) s)" if "lbuf_running k M D s"
  proof -
    have "bufs_owned k M D (hist (nf10_lbuf_free_buffers cfg s)) []"
      using that by (intro free_buffers_releases) (auto simp: lbuf_running_def rx_armed_def)
    moreover have "length (descs s RX) = NR_LBUF"
      using that by (auto simp: lbuf_running_def rx_ready_def ring_wf_bounds)
    ultimately show ?thesis using that
      by (simp add: lbuf_hw_ops_def lbuf_idle_def lbuf_running_def bufs_owned_def free_buffers_descs)
  qed
  show "lbuf_running k M D (snd (ho_ctrl_irq (lbuf_hw_ops cfg k dev) cmd s))" if "lbuf_running k M D s"
    using that by (subst lbuf_running_cong)
      (simp_all add: lbuf_hw_ops_def nf10_lbuf_ctrl_irq_def enable_tx_intr_def nf10_writel_def hist_simps)
  show "lbuf_running k M D (s\<lparr>rx_packets := n\<rparr>) = lbuf_running k M D s"
    by (rule lbuf_running_cong) simp_all
  show "0 \<le> w \<and> w \<le> budget" if "1 \<le> budget"
    "ho_process_rx_irq (lbuf_hw_ops cfg k dev) 0 budget s = Inr (w, s')"
    using process_rx_irq_work_done [of cfg k 0 budget s w s'] that by (auto simp: lbuf_hw_ops_def)
qed

section \<open>The ledger\<close>

lemma acquire_fields [simp]:
  "ledger (acquire r s) = ledger s @ [Acquire r]" "engine (acquire r s) = engine s"
  "adapter_ops (acquire r s) = adapter_ops s" "is_up (acquire r s) = is_up s" "phy (acquire r s) = phy s"
  by (simp_all add: acquire_def)

lemma release_fields [simp]:
  "ledger (release r s) = ledger s @ [Release r]" "engine (release r s) = engine s"
  "adapter_ops (release r s) = adapter_ops s" "is_up (release r s) = is_up s" "phy (release r s) = phy s"
  by (simp_all add: release_def)

lemmas err_labels = err_dma_def err_request_regions_def err_alloc_etherdev_def err_pci_iomap_bar0_def
  err_pci_iomap_bar2_def err_enable_msi_def err_init_phy_def err_request_irq_def
  err_register_netdev_def err_register_hw_ops_def

lemmas ledger_simps = held_append stray_append err_labels insert_Diff_if insert_commute

text \<open>The slab caches of the engine that exist after a history.\<close>

fun cache_step :: "kev \<Rightarrow> cache set \<Rightarrow> cache set" where
  "cache_step (CacheCreate c ok) S = (if ok then insert c S else S)"
| "cache_step (CacheDestroy c) S = S - {c}"
| "cache_step _ S = S"

definition live_caches :: "history \<Rightarrow> cache set" where
  "live_caches h = fold cache_step h {}"

lemma live_caches_append [hist_simps]: "live_caches (h @ es) = fold cache_step es (live_caches h)"
  by (simp add: live_caches_def)

lemma lbuf_init_caches:
  assumes "nf10_lbuf_init k s = (err, s')" "live_caches (hist s) = {}"
  shows "if err = 0 then live_caches (hist s') = {DescCache, PendingGcCache} \<and> pending_gc s' = pending_gc s
    else live_caches (hist s') = {}"
  using assms
  by (auto simp: nf10_lbuf_init_def Let_def hist_simps ENOMEM_def split: if_splits)

lemma gc_list_caches: "gc_list k a ps s = Inr s' \<Longrightarrow> live_caches (hist s') = live_caches (hist s)"
proof (induction ps arbitrary: s)
  case (Cons pd ps)
  obtain s1 v where s1: "free_pdesc pd (s\<lparr>pending_gc := ps\<rparr>) = Inr s1"
    and rest: "(if v = a then Inr s1 else gc_list k a ps s1) = Inr s'"
    using Cons.prems by (auto simp: rbind_eq_Inr split: option.splits)
  have "live_caches (hist s1) = live_caches (hist s)"
    using s1 by (auto simp: free_pdesc_def Let_def hist_simps split: option.splits if_splits prod.splits)
  then show ?case using rest Cons.IH [of s1] by (auto split: if_splits)
qed simp

text \<open>The resources of a probed card, without the character device's.\<close>

definition card_resources :: "pci_res set" where
  "card_resources = {PciDevice, PciRegions, BusMaster, NetDev, DrvData, Bar0, Bar2, Msi, IrqLine,
     NetdevReg, NapiContext, NapiOn}"

definition fops_resources :: "pci_env \<Rightarrow> pci_res set" where
  "fops_resources env =
     (if pe_alloc_chrdev env \<noteq> 0 then {}
      else if pe_cdev_add env \<noteq> 0 then {ChrdevRegion}
      else {ChrdevRegion, Cdev, DevClass, DevNode})"

lemma probe_netdev_ledger:
  assumes "held (ledger s) = {PciDevice, PciRegions, BusMaster, NetDev, DrvData, Bar0, Bar2, Msi}"
    and "stray (ledger s) = []" "live_caches (hist (engine s)) = {}"
  shows "\<exists>err s'. probe_netdev env dma_mode cfg k dev s = Inr (err, s') \<and> stray (ledger s') = [] \<and>
    (if err = 0 then held (ledger s') = card_resources \<union> fops_resources env \<and>
       live_caches (hist (engine s')) = {DescCache, PendingGcCache} \<and> adapter_ops s' = Some (lbuf_hw_ops cfg k dev)
     else held (ledger s') = {} \<and> live_caches (hist (engine s')) = {})"
proof -
  obtain err e where i: "nf10_lbuf_init k (engine s) = (err, e)" by fastforce
  note c = lbuf_init_caches [OF i assms(3)]
  let ?s2 = "acquire NetdevReg (acquire IrqLine s)"
  have init: "nf10_init m cfg k dev ?s2 =
      (if m \<noteq> 0 then Inr (- EINVAL, ?s2)
       else let s3 = (nf10_lbuf_set_hw_ops cfg k dev ?s2)\<lparr>engine := e\<rparr>
            in Inr (err, if err = 0 then s3\<lparr>user_ops_set := Some (lbuf_user_ops cfg)\<rparr> else s3))" for m
    by (simp add: nf10_init_def nf10_lbuf_set_hw_ops_def Let_def lbuf_hw_ops_def i)
  consider (irq) "pe_request_irq env \<noteq> 0" | (reg) "pe_request_irq env = 0" "pe_register_netdev env \<noteq> 0"
    | (mode) "pe_request_irq env = 0" "pe_register_netdev env = 0" "dma_mode \<noteq> 0"
    | (err) "pe_request_irq env = 0" "pe_register_netdev env = 0" "dma_mode = 0" "err \<noteq> 0"
    | (ok) "pe_request_irq env = 0" "pe_register_netdev env = 0" "dma_mode = 0" "err = 0"
    by blast
  then show ?thesis
  proof cases
    case irq
    then show ?thesis using assms by (simp add: probe_netdev_def ledger_simps)
  next
    case reg
    then show ?thesis using assms by (simp add: probe_netdev_def ledger_simps)
  next
    case mode
    then show ?thesis using assms by (simp add: probe_netdev_def init ledger_simps EINVAL_def)
  next
    case err
    then show ?thesis using assms c
      by (simp add: probe_netdev_def init ledger_simps Let_def nf10_lbuf_set_hw_ops_def)
  next
    case ok
    then show ?thesis using assms c
      by (simp add: probe_netdev_def init ledger_simps Let_def nf10_lbuf_set_hw_ops_def nf10_init_fops_def
          nf10_napi_budget_def with_ops_def card_resources_def fops_resources_def)
  qed
qed

lemma ex_nonzero:
  "(\<exists>e :: int. e \<noteq> 0 \<and> (e \<noteq> 0 \<longrightarrow> e = c \<and> P)) \<longleftrightarrow> c \<noteq> 0 \<and> P"
  "(\<exists>e :: int. e \<noteq> 0 \<and> (e \<noteq> 0 \<longrightarrow> e = c)) \<longleftrightarrow> c \<noteq> 0"
  by auto

lemma probe_ledger:
  assumes "ledger s = []" "live_caches (hist (engine s)) = {}"
    and "nf10_probe env dma_mode cfg k dev s = Some r"
  shows "\<exists>err s'. r = Inr (err, s') \<and> stray (ledger s') = [] \<and>
    (if err = 0 then held (ledger s') = card_resources \<union> fops_resources env \<and>
       live_caches (hist (engine s')) = {DescCache, PendingGcCache} \<and> adapter_ops s' = Some (lbuf_hw_ops cfg k dev)
     else held (ledger s') = {} \<and> live_caches (hist (engine s')) = {})"
proof (cases "pe_enable_device env = 0 \<and> pe_set_dma_mask env = 0 \<and> pe_set_consistent_dma_mask env = 0 \<and>
    pe_request_regions env = 0 \<and> pe_alloc_etherdev env \<and> pe_iomap_bar0 env \<and> pe_iomap_bar2 env \<and>
    pe_enable_msi env = 0")
  case False
  then show ?thesis using assms
    by (auto simp: nf10_probe_def Let_def err_labels held_def stray_def insert_Diff_if ENOMEM_def EIO_def
        ex_nonzero split: if_splits)
next
  case True
  define s5 where "s5 = acquire Msi (acquire Bar2 (acquire Bar0 ((acquire DrvData (acquire NetDev
    (acquire BusMaster (acquire PciRegions (acquire PciDevice s)))))\<lparr>msg_enable := pe_msg_init env\<rparr>)))"
  have s5: "ledger s5 = map Acquire [PciDevice, PciRegions, BusMaster, NetDev, DrvData, Bar0, Bar2, Msi]"
    "engine s5 = engine s" using assms(1) by (simp_all add: s5_def)
  have p: "nf10_probe env dma_mode cfg k dev s = map_option (\<lambda>(err, s6).
      if err \<noteq> 0 then Inr (err, err_init_phy s6) else probe_netdev env dma_mode cfg k dev s6)
    (nf10_init_phy env s5)"
    using True by (simp add: nf10_probe_def s5_def Let_def)
  then obtain err s6 where phy: "nf10_init_phy env s5 = Some (err, s6)"
    using assms(3) by (auto simp: map_option_case split: option.splits)
  have r: "r = (if err \<noteq> 0 then Inr (err, err_init_phy s6) else probe_netdev env dma_mode cfg k dev s6)"
    using p phy assms(3) by simp
  have s6: "held (ledger s6) = {PciDevice, PciRegions, BusMaster, NetDev, DrvData, Bar0, Bar2, Msi}"
    "stray (ledger s6) = []" "engine s6 = engine s"
    using phy s5 by (auto simp: nf10_init_phy_def Let_def held_def stray_def split: if_splits)
  show ?thesis
  proof (cases "err = 0")
    case True
    then show ?thesis using probe_netdev_ledger [OF s6(1,2)] assms(2) s6(3) r by simp
  next
    case False
    then show ?thesis using assms(2) s6 r by (simp add: ledger_simps)
  qed
qed

lemma nf10_free_fields:
  assumes "nf10_free s = Inr s'"
  shows "ledger s' = ledger s" "is_up s' = is_up s"
  using assms by (auto simp: nf10_free_def with_ops_def rbind_eq_Inr split: option.splits)

text \<open>What a removal with the interface down does to the ledger.\<close>

lemma remove_ledger:
  assumes "nf10_remove s = Inr s'" "DrvData \<in> held (ledger s)" "\<not> is_up s"
  shows "ledger s' = ledger s @ map Release [DevNode, DevClass, DevClass, Cdev, ChrdevRegion, NapiContext,
    NapiOn, NetdevReg, IrqLine, Msi, Bar2, Bar0, NetDev, DrvData, BusMaster, PciRegions, PciDevice]"
proof -
  let ?s2 = "release NapiOn (release NapiContext (snd (nf10_remove_fops s)))"
  obtain s3 s4 where s3: "nf10_free ?s2 = Inr s3" and s4: "unregister_netdev s3 = Inr s4"
    and s': "s' = release PciDevice (release PciRegions (release BusMaster (release DrvData
                    (release NetDev (release Bar0 (release Bar2 (release Msi (release IrqLine s4))))))))"
    using assms(1,2) unfolding nf10_remove_def by (auto simp: rbind_eq_Inr Let_def)
  have "s4 = release NetdevReg s3"
    using s4 nf10_free_fields(2) [OF s3] assms(3) by (simp add: unregister_netdev_def nf10_remove_fops_def)
  then show ?thesis using s' nf10_free_fields(1) [OF s3] by (simp add: nf10_remove_fops_def)
qed


section \<open>Properties\<close>

text \<open>
  C20: probing acquires all or nothing. Whatever the results of the system calls, the DMA mode and the
  card's answers on MDIO, a probe that returns does not fault; if it returns 0 it holds every resource
  of the card and both slab caches, and if it fails it holds nothing; in neither case has it released
  what it did not hold.
\<close>

theorem probe_all_or_nothing:
  assumes "ledger s = []" "live_caches (hist (engine s)) = {}"
    and "nf10_probe env dma_mode cfg k dev s = Some r"
  shows "\<exists>err s'. r = Inr (err, s') \<and> stray (ledger s') = [] \<and>
    (if err = 0 then card_resources \<subseteq> held (ledger s') \<and>
       live_caches (hist (engine s')) = {DescCache, PendingGcCache}
     else held (ledger s') = {} \<and> live_caches (hist (engine s')) = {})"
  using probe_ledger [OF assms] by (auto split: if_splits)

definition demo_env :: pci_env where
  "demo_env = \<lparr>pe_enable_device = 0, pe_set_dma_mask = 0, pe_set_consistent_dma_mask = 0,
     pe_request_regions = 0, pe_alloc_etherdev = True, pe_iomap_bar0 = True, pe_iomap_bar2 = True,
     pe_enable_msi = 0, pe_request_mdio_irq = 0, pe_request_irq = 0, pe_register_netdev = 0,
     pe_alloc_chrdev = 0, pe_cdev_add = 0, pe_msg_init = 0, pe_card = (\<lambda>ws n. n = 0)\<rparr>"

definition adapter_init :: adapter where
  "adapter_init = \<lparr>engine = nic_init, phy = mdio_init, adapter_ops = None, user_ops_set = None,
     msg_enable = 0, reset_sent = False, queue_running = False, is_up = False, napi_scheduled = False,
     ledger = []\<rparr>"

lemma adapter_init_fields [simp]:
  "ledger adapter_init = []" "engine adapter_init = nic_init" "adapter_ops adapter_init = None"
  "live_caches [] = {}" "phy adapter_init = mdio_init"
  by (simp_all add: adapter_init_def live_caches_def)

definition demo_device :: device where
  "demo_device t x = x"

lemma demo_probe:
  "\<exists>r. nf10_probe demo_env 0 plain_cfg demo_kapi demo_device adapter_init = Some r"
proof -
  have "\<exists>ret p. configure_ael2005_phy_chips (\<lambda>ws n. n = 0) m = Some (ret, p)" for m
    using configure_answered [of "\<lambda>ws n. n = 0" m] by blast
  then show ?thesis
    by (simp add: nf10_probe_def demo_env_def Let_def nf10_init_phy_def)
qed

theorem probe_all_or_nothing_witness:
  "\<exists>err s'. nf10_probe demo_env 0 plain_cfg demo_kapi demo_device adapter_init = Some (Inr (err, s')) \<and>
    stray (ledger s') = []"
proof -
  obtain r where r: "nf10_probe demo_env 0 plain_cfg demo_kapi demo_device adapter_init = Some r"
    using demo_probe by blast
  show ?thesis using probe_all_or_nothing [OF _ _ r] r by auto
qed

text \<open>
  Purging the pending list relies on reading each entry after it has been freed, too: where a freed
  entry reads as 0, the address the purge is called with, it stops after one entry, and the driver
  stops the kernel when more than one descriptor was waiting.
\<close>

lemma zeroed_entries_bug:
  assumes "tx_inv k s" "\<forall>h p v. k_freed_gc k h p v = Some 0" "2 \<le> length (pending_gc s)"
  shows "nf10_lbuf_free k s = Inl KernelBug"
proof (cases rule: clean_tx_pending_gc_cases [OF assms(1), of 0, case_names faults releases])
  case (faults i)
  then show ?thesis using assms(2) by (simp add: slab_traps_def)
next
  case (releases n s')
  have "\<not> Suc 0 < n" using releases(6) [of 0] assms(2) by (auto simp: gc_read_def)
  then have "drop n (pending_gc s) \<noteq> []" using assms(3) by auto
  then show ?thesis using releases(1) by (simp add: nf10_lbuf_free_def)
qed


definition demo_probed :: adapter where
  "demo_probed = adapter_init\<lparr>engine := demo_tx\<lparr>hist := hist demo_tx @
       [MapSingle 0x3038 68 TX 0x600000, CacheCreate DescCache True, CacheCreate PendingGcCache True],
       pending_gc := [(7, demo_desc 0x3038 0x600000 3)]\<rparr>,
     adapter_ops := Some (lbuf_hw_ops plain_cfg demo_kapi demo_device),
     ledger := map Acquire [PciDevice, PciRegions, BusMaster, NetDev, DrvData, Bar0, Bar2, Msi, IrqLine,
       NetdevReg, ChrdevRegion, Cdev, DevClass, DevNode, NapiContext, NapiOn]\<rparr>"


text \<open>
  The result of \<open>nf10_init_fops\<close> is ignored. When the character device cannot be set up, the
  probe still succeeds, and the removal that follows gives up a device node, a class (twice), a
  character device and a device number that were never acquired.
\<close>

theorem failed_fops_removed_anyway:
  assumes "ledger s = []" "live_caches (hist (engine s)) = {}" "pe_alloc_chrdev env \<noteq> 0"
    and "nf10_probe env dma_mode cfg k dev s = Some (Inr (0, s'))" "nf10_remove s' = Inr s''" "\<not> is_up s'"
  shows "stray (ledger s'') = [DevNode, DevClass, DevClass, Cdev, ChrdevRegion]"
proof -
  have h: "held (ledger s') = card_resources" "stray (ledger s') = []"
    "adapter_ops s' = Some (lbuf_hw_ops cfg k dev)"
    using probe_ledger [OF assms(1,2,4)] assms(3) by (simp_all add: fops_resources_def)
  have "DrvData \<in> held (ledger s')" using h(1) by (simp add: card_resources_def)
  from remove_ledger [OF assms(5) this assms(6)] show ?thesis
    by (simp add: stray_append h card_resources_def)
qed

theorem failed_fops_removed_anyway_witness:
  "\<exists>s' s''. nf10_probe (demo_env\<lparr>pe_alloc_chrdev := - 16\<rparr>) 0 plain_cfg demo_kapi demo_device adapter_init =
      Some (Inr (0, s')) \<and> nf10_remove s' = Inr s'' \<and>
    stray (ledger s'') = [DevNode, DevClass, DevClass, Cdev, ChrdevRegion]"
proof -
  let ?env = "demo_env\<lparr>pe_alloc_chrdev := - 16\<rparr>"
  obtain p where p: "configure_ael2005_phy_chips (\<lambda>ws n. n = 0) mdio_init = Some (0, p)"
    using configure_answered [of "\<lambda>ws n. n = 0" mdio_init] by auto
  obtain s' where s': "nf10_probe ?env 0 plain_cfg demo_kapi demo_device adapter_init = Some (Inr (0, s'))"
    "pending_gc (engine s') = []" "\<not> is_up s'"
    by (simp add: nf10_probe_def probe_netdev_def demo_env_def nf10_init_phy_def p Let_def nf10_init_def
        nf10_lbuf_set_hw_ops_def lbuf_hw_ops_def nf10_lbuf_init_def demo_kapi_def demo_errors_def
        nf10_init_fops_def nf10_napi_budget_def with_ops_def adapter_init_def)
  have "held (ledger s') = card_resources" "adapter_ops s' = Some (lbuf_hw_ops plain_cfg demo_kapi demo_device)"
    using probe_ledger [OF _ _ s'(1)] by (auto simp: fops_resources_def)
  then obtain s'' where "nf10_remove s' = Inr s''"
    using s'(2,3) by (auto simp: nf10_remove_def card_resources_def nf10_remove_fops_def nf10_free_def
        with_ops_def lbuf_hw_ops_def nf10_lbuf_free_def clean_tx_pending_gc_def unregister_netdev_def)
  then show ?thesis using failed_fops_removed_anyway [OF _ _ _ s'(1) _ s'(3)] s'(1) by auto
qed

text \<open>
  C22: bringing the interface up, through the table of operations of the large-buffer engine: it does
  not fault, and either the engine runs on top of what others hold, with the queue started and the
  receive counter cleared, or (the bus reset or an allocation failed) memory and mappings are exactly
  as before and the queue was not started. Bringing it down from there gives everything back.
\<close>

theorem up_then_down:
  assumes "adapter_ops s = Some (lbuf_hw_ops cfg k dev)" "lbuf_idle k M D (engine s)"
  shows "\<exists>err s'. nf10_up reset_bus s = Inr (err, s') \<and>
    (if err = 0 then lbuf_running k M D (engine s') \<and> queue_running s' \<and> rx_packets (engine s') = 0 \<and>
       (\<exists>s''. nf10_down s' = Inr (0, s'') \<and> lbuf_idle k M D (engine s'') \<and> \<not> queue_running s'')
     else lbuf_idle k M D (engine s') \<and> queue_running s' = queue_running s)"
proof -
  obtain err s' where u: "nf10_up reset_bus s = Inr (err, s')" "adapter_ops s' = Some (lbuf_hw_ops cfg k dev)"
    "if err = 0 then lbuf_running k M D (engine s') \<and> queue_running s' \<and> reset_sent s' \<and>
        rx_packets (engine s') = 0
     else lbuf_idle k M D (engine s') \<and> queue_running s' = queue_running s"
    using lbuf_engine.up_cases [OF assms] by blast
  then show ?thesis using lbuf_engine.down_ok [OF u(2)] by (cases "err = 0") fastforce+
qed

definition demo_adapter :: "nic \<Rightarrow> adapter" where
  "demo_adapter e = adapter_init\<lparr>engine := e,
     adapter_ops := Some (lbuf_hw_ops plain_cfg demo_kapi demo_device)\<rparr>"

lemma demo_adapter_fields [simp]:
  "engine (demo_adapter e) = e" "napi_scheduled (demo_adapter e) = False"
  "adapter_ops (demo_adapter e) = Some (lbuf_hw_ops plain_cfg demo_kapi demo_device)"
  by (simp_all add: demo_adapter_def adapter_init_def)

theorem up_then_down_witness:
  "\<exists>err s'. nf10_up 0 (demo_adapter nic_init) = Inr (err, s') \<and>
    (if err = 0 then lbuf_running demo_kapi {} {} (engine s') \<and> queue_running s' \<and>
       rx_packets (engine s') = 0 \<and>
       (\<exists>s''. nf10_down s' = Inr (0, s'') \<and> lbuf_idle demo_kapi {} {} (engine s'') \<and> \<not> queue_running s'')
     else lbuf_idle demo_kapi {} {} (engine s') \<and> queue_running s' = queue_running (demo_adapter nic_init))"
proof -
  have "lbuf_idle demo_kapi {} {} (engine (demo_adapter nic_init))"
    by (simp add: lbuf_idle_def demo_kernel_ok hist_simps)
  then show ?thesis by (intro up_then_down [of _ plain_cfg demo_kapi demo_device]) simp_all
qed

text \<open>
  C23: the poll keeps NAPI's contract. Called with a budget of at least 1, as NAPI does, it reports at
  most the budget, and it has left polling mode exactly when it reports less than the budget.
\<close>

theorem poll_keeps_napi_contract:
  assumes "adapter_ops s = Some (lbuf_hw_ops cfg k dev)" "1 \<le> budget" "napi_scheduled s"
    and "nf10_poll budget s = Some (Inr (w, s'))"
  shows "w \<le> budget \<and> (napi_scheduled s' \<longleftrightarrow> w = budget)"
  by (rule lbuf_engine.poll_contract [OF assms(1,2,4,3)])

theorem poll_keeps_napi_contract_witness:
  "\<exists>s'. nf10_poll 2 (nf10_interrupt_handler (demo_adapter nic_init)) = Some (Inr (0, s')) \<and> \<not> napi_scheduled s'"
proof -
  let ?s = "nf10_interrupt_handler (demo_adapter nic_init)"
  have a: "adapter_ops ?s = Some (lbuf_hw_ops plain_cfg demo_kapi demo_device)" "napi_scheduled ?s"
    by (simp_all add: nf10_interrupt_handler_def)
  have "desc_empty RX nic_init" by (simp add: desc_empty_def cons_desc_def desc_zero_def NR_LBUF_def)
  then obtain s' where s': "nf10_poll 2 ?s = Some (Inr (0, s'))"
    by (simp add: nf10_poll_def nf10_clean_tx_irq_def nf10_interrupt_handler_def nf10_process_rx_irq_def
        with_ops_def lbuf_hw_ops_def nf10_lbuf_clean_tx_irq_def nf10_lbuf_process_rx_irq_def
        consume_rx_desc_def Let_def)
  show ?thesis using s' poll_keeps_napi_contract [OF a(1) _ a(2) s'] by simp
qed

text \<open>
  C24: an interrupt to the network stack, end to end. With nothing to collect on the transmit side and
  the packets \<open>ps\<close> written into the buffer at the consumer, the poll that the interrupt schedules, run
  with the weight the engine asks for, delivers exactly the frames of \<open>ps\<close> in order, leaves the RX
  ring full, armed and owning its buffers, and leaves polling mode.
\<close>

theorem interrupt_delivers:
  assumes "adapter_ops s = Some (lbuf_hw_ops cfg k dev)" "kernel_ok k" "rx_ready k M D (engine s)"
    and "rx_armed (engine s)" "last_gc (engine s) = 0"
    and "lbuf_mem (engine s) (kern_addr (cons_desc RX (engine s))) = enc_lbuf ps" "ps \<noteq> []"
    and "32 + length (enc_body ps) \<le> LBUF_SIZE div 4" "\<forall>h. k_alloc_skb k h"
    and "fst (alloc_and_map_lbuf cfg k RX (prod_desc RX (ring_clear RX (engine s)))
          (ring_clear RX (engine s))) = 0"
    and "nr_user_mmap (engine s) = 0" "\<not> (xen cfg \<and> xenvif_up (engine s))"
    and "nf10_napi_budget s = Inr weight"
  shows "\<exists>s'. nf10_poll weight (nf10_interrupt_handler s) = Some (Inr (1, s')) \<and>
    delivered (hist (engine s')) = delivered (hist (engine s)) @ frames_of ps \<and>
    rx_ready k M D (engine s') \<and> rx_armed (engine s') \<and> \<not> napi_scheduled s'"
proof -
  have v: "LBUF_IS_VALID (LBUF_NR_DWORDS (enc_lbuf ps))"
    using enc_lbuf_nr_dwords [OF assms(8)] enc_body_pos [OF assms(7)] assms(8)
    by (simp add: LBUF_IS_VALID_iff)
  have d: "\<exists>t'. deliver_packets k (enc_lbuf ps) LBUF_FIRST_DWORD_IDX (LBUF_NR_DWORDS (enc_lbuf ps)) t =
      Inr t' \<and> (True \<longrightarrow> delivered (hist t') = delivered (hist t) @ frames_of ps)" for t
    using deliver_packets_enc [OF assms(9,7,8)] by blast
  have w: "weight = 2" using assms(1,13) by (simp add: nf10_napi_budget_def with_ops_def lbuf_hw_ops_def nf10_lbuf_napi_budget_def)
  obtain e where e: "nf10_lbuf_process_rx_irq cfg k 0 weight (engine s) = Inr (1, e)"
    "delivered (hist e) = delivered (hist (engine s)) @ frames_of ps" "rx_ready k M D e" "rx_armed e"
    using process_rx_irq_step [OF assms(2-4,6) v assms(10-12), of True "frames_of ps" 0 weight] d by blast
  then show ?thesis using assms(1,5) w
    by (simp add: nf10_poll_def nf10_clean_tx_irq_def nf10_interrupt_handler_def nf10_process_rx_irq_def
        with_ops_def lbuf_hw_ops_def nf10_lbuf_clean_tx_irq_def Let_def)
qed

theorem interrupt_delivers_witness:
  "\<exists>s'. nf10_poll 2 (nf10_interrupt_handler (demo_adapter demo_rx)) = Some (Inr (1, s')) \<and>
    delivered (hist (engine s')) = [replicate 60 5, replicate 56 6] \<and> rx_armed (engine s') \<and>
    \<not> napi_scheduled s'"
proof -
  have f: "frames_of demo_pkts = [replicate 60 5, replicate 56 6]"
    by (simp add: frames_of_def demo_pkts_def frame_len_ok_def)
  have g: "last_gc demo_rx = 0" by (simp add: demo_rx_def)
  have w: "nf10_napi_budget (demo_adapter demo_rx) = Inr 2"
    by (simp add: nf10_napi_budget_def with_ops_def lbuf_hw_ops_def nf10_lbuf_napi_budget_def)
  have b: "lbuf_mem demo_rx (kern_addr (cons_desc RX demo_rx)) = enc_lbuf demo_pkts" by simp
  show ?thesis
    using interrupt_delivers [of "demo_adapter demo_rx" plain_cfg demo_kapi demo_device "{}" "{}" demo_pkts 2]
      demo_kernel_ok demo_rx_ready demo_rx_armed demo_pkts_size(2) demo_alloc_skb demo_rx_refill w b g f
    by (auto simp: demo_pkts_size hist_simps)
qed

end
