(* ===== verification/Skbpool.thy ===== *)
theory Skbpool
  imports Lbuf_Format
begin

text \<open>
  The pool of socket buffers of the build with \<open>CONFIG_SKBPOOL\<close>: \<open>sw/driver/skbpool.c\<close> and
  \<open>skbpool.h\<close>, and what \<open>nf10_lbuf.c\<close> does with it (its \<open>deliver_packets\<close> and
  \<open>nf10_lbuf_rx_worker\<close>). The code shares linked entries between the pool, the receive path and the
  worker, so the model has an explicit heap of entries with their \<open>next\<close> pointers.
\<close>

section \<open>State\<close>

text \<open>
  \<open>struct skbpool_entry\<close>: the socket buffer and the list node. A node's address is its entry's plus
  \<open>NODE_OFF\<close> (the node is the second member), so the node address of the null entry is not null.
\<close>

record skbpool_entry =
  sp_skb :: u64
  sp_next :: u64

definition NODE_OFF :: u64 where "NODE_OFF = 8"

definition node_of :: "u64 \<Rightarrow> u64" where "node_of entry = entry + NODE_OFF"

definition llist_entry :: "u64 \<Rightarrow> u64" where "llist_entry node = node - NODE_OFF"

text \<open>
  \<open>entries\<close> are the live entries by address (with the static \<open>skb_free_list\<close>, at \<open>free_list\<close>);
  \<open>pool_list\<close> and \<open>rxq\<close> are the first nodes of the lists \<open>skbpool_list\<close> and \<open>lbuf_hw.rxq\<close>; \<open>pool_skbs\<close>
  are the live socket buffers, with \<open>frame_in\<close> the data copied into them; \<open>passed\<close> are the frames given
  to the stack and \<open>freed\<close> the socket buffers freed, in order.
\<close>

record skbpool =
  entries :: "u64 \<rightharpoonup> skbpool_entry"
  free_list :: u64
  pool_list :: u64
  nr_skbpool_list :: int
  rxq :: u64
  min_skbpool_list :: nat
  nr_batch_alloc :: nat
  pool_skbs :: "u64 set"
  frame_in :: "u64 \<Rightarrow> u8 list"
  work_queued :: bool
  rx_work_queued :: bool
  passed :: "u8 list list"
  freed :: "u64 list"
  skbpool_cache :: bool
  skbpool_wq :: bool
  rx_wq :: bool

text \<open>The allocators: the address of a new slab entry and of a new socket buffer, or 0.\<close>

record pool_api =
  pa_entry :: "skbpool \<Rightarrow> u64"
  pa_skb :: "skbpool \<Rightarrow> u64"
  pa_cache :: bool
  pa_wq :: bool
  pa_rx_wq :: bool

section \<open>Entries and lists\<close>

definition get_entry :: "u64 \<Rightarrow> skbpool \<Rightarrow> fault + skbpool_entry" where
  "get_entry p s =
     (if p = 0 then Inl NullDeref
      else case entries s p of None \<Rightarrow> Inl (UseAfterFree p) | Some e \<Rightarrow> Inr e)"

definition set_next :: "u64 \<Rightarrow> u64 \<Rightarrow> skbpool \<Rightarrow> fault + skbpool" where
  "set_next p node s =
     rbind (get_entry p s) (\<lambda>e. Inr (s\<lparr>entries := (entries s)(p \<mapsto> e\<lparr>sp_next := node\<rparr>)\<rparr>))"

definition skbpool_next_entry :: "u64 \<Rightarrow> skbpool \<Rightarrow> fault + u64" where
  "skbpool_next_entry p s = rbind (get_entry p s) (\<lambda>e. Inr (llist_entry (sp_next e)))"

text \<open>The new first node of a list whose first node was \<open>head\<close>.\<close>

definition skbpool_add_batch :: "u64 \<Rightarrow> u64 \<Rightarrow> u64 \<Rightarrow> skbpool \<Rightarrow> fault + u64 \<times> skbpool" where
  "skbpool_add_batch entry_first entry_last head s =
     rbind (set_next entry_last head s) (\<lambda>s1. Inr (node_of entry_first, s1))"

definition skbpool_add :: "u64 \<Rightarrow> u64 \<Rightarrow> skbpool \<Rightarrow> fault + u64 \<times> skbpool" where
  "skbpool_add entry head s = skbpool_add_batch entry entry head s"

text \<open>The entry taken (0: none) and the list's new first node.\<close>

definition skbpool_del :: "u64 \<Rightarrow> skbpool \<Rightarrow> fault + u64 \<times> u64" where
  "skbpool_del head s =
     (if head = 0 then Inr (0, 0)
      else rbind (get_entry (llist_entry head) s) (\<lambda>e. Inr (llist_entry head, sp_next e)))"

definition skbpool_del_all :: "u64 \<Rightarrow> u64 \<times> u64" where
  "skbpool_del_all head = (if head = 0 then 0 else llist_entry head, 0)"

text \<open>The argument of the prefetch reads the next entry's socket buffer.\<close>

definition skbpool_prefetch_next :: "u64 \<Rightarrow> skbpool \<Rightarrow> fault + unit" where
  "skbpool_prefetch_next entry s =
     (if entry = 0 then Inr ()
      else rbind (get_entry entry s) (\<lambda>e.
        if sp_next e = 0 then Inr ()
        else rbind (get_entry (llist_entry (sp_next e)) s) (\<lambda>_. Inr ())))"

section \<open>Allocation\<close>

definition skbpool_free :: "u64 \<Rightarrow> skbpool \<Rightarrow> skbpool" where
  "skbpool_free entry s = s\<lparr>entries := (entries s)(entry := None)\<rparr>"

definition skbpool_entry_alloc :: "pool_api \<Rightarrow> skbpool \<Rightarrow> u64 \<times> skbpool" where
  "skbpool_entry_alloc api s =
     (let entry = pa_entry api s
      in if entry = 0 then (0, s)
         else let skb = pa_skb api s;
                  s1 = s\<lparr>entries := (entries s)(entry \<mapsto> \<lparr>sp_skb = skb, sp_next = 0\<rparr>)\<rparr>
              in if skb \<noteq> 0 then (entry, s1\<lparr>pool_skbs := insert skb (pool_skbs s1)\<rparr>)
                 else (0, skbpool_free entry s1))"

text \<open>The local batch: at most \<open>n\<close> more entries in front of \<open>head\<close>; \<open>nr\<close> counts them.\<close>

fun fill_batch ::
  "pool_api \<Rightarrow> nat \<Rightarrow> u64 \<Rightarrow> u64 \<Rightarrow> nat \<Rightarrow> skbpool \<Rightarrow> fault + u64 \<times> u64 \<times> nat \<times> skbpool" where
  "fill_batch api 0 head tail nr s = Inr (head, tail, nr, s)"
| "fill_batch api (Suc n) head tail nr s =
     (let (entry, s1) = skbpool_entry_alloc api s
      in if entry = 0 then Inr (head, tail, nr, s1)
         else if head \<noteq> 0 then
           rbind (set_next entry (node_of head) s1) (\<lambda>s2. fill_batch api n entry tail (nr + 1) s2)
         else fill_batch api n entry entry (nr + 1) s1)"

lemma set_next_fields:
  assumes "set_next p n s = Inr s'"
  shows "nr_skbpool_list s' = nr_skbpool_list s" "min_skbpool_list s' = min_skbpool_list s"
    "pool_list s' = pool_list s" "rxq s' = rxq s" "free_list s' = free_list s" "pool_skbs s' = pool_skbs s"
    "nr_batch_alloc s' = nr_batch_alloc s" "frame_in s' = frame_in s" "passed s' = passed s"
    "freed s' = freed s"
  using assms by (auto simp: set_next_def rbind_eq_Inr)

lemma set_next_counts:
  "set_next p n s = Inr s' \<Longrightarrow>
    nr_skbpool_list s' = nr_skbpool_list s \<and> min_skbpool_list s' = min_skbpool_list s"
  using set_next_fields(1,2) by blast

lemma entry_alloc_fields:
  assumes "skbpool_entry_alloc api s = (p, s')"
  shows "nr_skbpool_list s' = nr_skbpool_list s" "min_skbpool_list s' = min_skbpool_list s"
    "pool_list s' = pool_list s" "rxq s' = rxq s" "free_list s' = free_list s"
    "nr_batch_alloc s' = nr_batch_alloc s" "frame_in s' = frame_in s" "passed s' = passed s"
    "freed s' = freed s"
  using assms by (auto simp: skbpool_entry_alloc_def Let_def skbpool_free_def split: if_splits)

lemma fill_batch_fields:
  assumes "fill_batch api n head tail nr s = Inr (h, t, m, s')"
  shows "nr_skbpool_list s' = nr_skbpool_list s \<and> min_skbpool_list s' = min_skbpool_list s \<and>
    pool_list s' = pool_list s \<and> rxq s' = rxq s \<and> free_list s' = free_list s \<and>
    nr_batch_alloc s' = nr_batch_alloc s \<and> nr \<le> m \<and> (h = head \<or> nr < m)"
  using assms
  by (induction api n head tail nr s rule: fill_batch.induct)
    (fastforce simp: rbind_eq_Inr split: if_splits prod.splits dest: entry_alloc_fields set_next_fields)+

text \<open>
  The worker refills the pool. The counter, an \<open>int\<close>, is compared as an \<open>unsigned long\<close>: a negative
  one is not below the minimum. Every turn adds at least one entry, so the loop ends.
\<close>

function skbpool_worker :: "pool_api \<Rightarrow> skbpool \<Rightarrow> fault + skbpool" where
  "skbpool_worker api s =
     (if 0 \<le> nr_skbpool_list s \<and> nr_skbpool_list s < int (min_skbpool_list s) then
        rbind (fill_batch api (nr_batch_alloc s) 0 0 0 s) (\<lambda>(head, tail, nr_alloc, s1).
          if head = 0 then Inr s1
          else rbind (skbpool_add_batch head tail (pool_list s1) s1) (\<lambda>(first, s2).
            skbpool_worker api (s2\<lparr>pool_list := first,
              nr_skbpool_list := nr_skbpool_list s2 + int nr_alloc\<rparr>)))
      else Inr s)"
  by pat_completeness auto
termination
  by (relation "measure (\<lambda>(api, s). nat (int (min_skbpool_list s) - nr_skbpool_list s))")
    (auto simp: skbpool_add_batch_def rbind_eq_Inr dest!: fill_batch_fields set_next_counts)

declare skbpool_worker.simps [simp del]

definition queue_skbpool_work :: "skbpool \<Rightarrow> skbpool" where
  "queue_skbpool_work s = s\<lparr>work_queued := True\<rparr>"

definition skbpool_alloc_single :: "pool_api \<Rightarrow> skbpool \<Rightarrow> fault + u64 \<times> skbpool" where
  "skbpool_alloc_single api s =
     (let s1 = (if 0 \<le> nr_skbpool_list s \<and> nr_skbpool_list s < int (min_skbpool_list s)
                then queue_skbpool_work s else s)
      in rbind (skbpool_del (pool_list s1) s1) (\<lambda>(entry, first).
           let s2 = s1\<lparr>pool_list := first\<rparr>
           in if entry = 0 then Inr (skbpool_entry_alloc api s2)
              else Inr (entry, s2\<lparr>nr_skbpool_list := nr_skbpool_list s2 - 1\<rparr>)))"

text \<open>
  The next entry of the chain that starts at \<open>entry\<close>; at its end, everything in the pool is taken
  (or one entry is allocated) and linked after \<open>entry\<close>.
\<close>

definition skbpool_take_all :: "pool_api \<Rightarrow> skbpool \<Rightarrow> u64 \<times> skbpool" where
  "skbpool_take_all api s =
     (let (skb_entry, first) = skbpool_del_all (pool_list s);
          s1 = s\<lparr>pool_list := first\<rparr>
      in if skb_entry \<noteq> 0 then (skb_entry, s1\<lparr>nr_skbpool_list := 0\<rparr>)
         else skbpool_entry_alloc api s1)"

definition skbpool_alloc :: "pool_api \<Rightarrow> u64 \<Rightarrow> skbpool \<Rightarrow> fault + u64 \<times> skbpool" where
  "skbpool_alloc api entry s =
     (if entry = 0 then
        (let (skb_entry, s1) = skbpool_take_all api s in Inr (skb_entry, queue_skbpool_work s1))
      else rbind (get_entry entry s) (\<lambda>e.
        if sp_next e = 0 then
          (let (skb_entry, s1) = skbpool_take_all api s
           in rbind (set_next entry (node_of skb_entry) s1) (\<lambda>s2.
                Inr (skb_entry, queue_skbpool_work s2)))
        else rbind (skbpool_next_entry entry s) (\<lambda>skb_entry. Inr (skb_entry, s))))"

section \<open>Purging, setting up and taking down\<close>

definition kfree_skb :: "u64 \<Rightarrow> skbpool \<Rightarrow> skbpool" where
  "kfree_skb p s = s\<lparr>pool_skbs := pool_skbs s - {p}, freed := freed s @ [p]\<rparr>"

text \<open>
  The loops \<open>skbpool_for_each_entry\<close> and \<open>skbpool_for_each_entry_safe\<close>: from a node on, \<open>f\<close> is the
  body, which leaves its entry's \<open>next\<close> pointer or has had it read before (the safe variant, for
  bodies that free the entry). A chain may not end, so the function is partial.
\<close>

partial_function (option) for_each_entry ::
  "(u64 \<Rightarrow> skbpool_entry \<Rightarrow> skbpool \<Rightarrow> skbpool) \<Rightarrow> u64 \<Rightarrow> skbpool \<Rightarrow> (fault + skbpool) option" where
  "for_each_entry f node s =
     (if node = 0 then Some (Inr s)
      else case get_entry (llist_entry node) s of
             Inl e \<Rightarrow> Some (Inl e)
           | Inr e \<Rightarrow> for_each_entry f (sp_next e) (f (llist_entry node) e s))"

definition purge_entry :: "u64 \<Rightarrow> skbpool_entry \<Rightarrow> skbpool \<Rightarrow> skbpool" where
  "purge_entry p e s = skbpool_free p (if sp_skb e \<noteq> 0 then kfree_skb (sp_skb e) s else s)"

definition skbpool_purge :: "u64 \<Rightarrow> skbpool \<Rightarrow> (fault + skbpool) option" where
  "skbpool_purge entry s = (if entry = 0 then Some (Inr s) else for_each_entry purge_entry (node_of entry) s)"

text \<open>The head of the list, by its first node; the list is empty afterwards.\<close>

definition skbpool_purge_head :: "u64 \<Rightarrow> skbpool \<Rightarrow> (fault + skbpool) option" where
  "skbpool_purge_head head s =
     (let (entry, _) = skbpool_del_all head
      in if entry = 0 then Some (Inr s) else skbpool_purge entry s)"

definition skbpool_init :: "pool_api \<Rightarrow> nat \<Rightarrow> nat \<Rightarrow> skbpool \<Rightarrow> int \<times> skbpool" where
  "skbpool_init api min_entries nr_alloc s =
     (if \<not> pa_cache api then (- ENOMEM, s)
      else let s1 = s\<lparr>skbpool_cache := True, pool_list := 0\<rparr>
           in if \<not> pa_wq api then (- ENOMEM, s1)
              else let s2 = s1\<lparr>skbpool_wq := True, min_skbpool_list := min_entries, nr_batch_alloc := nr_alloc\<rparr>
                   in (0, if 0 \<le> nr_skbpool_list s2 \<and> nr_skbpool_list s2 < int min_entries
                          then queue_skbpool_work s2 else s2))"

text \<open>Destroying the work queue runs the work that is still queued.\<close>

definition destroy_skbpool_wq :: "pool_api \<Rightarrow> skbpool \<Rightarrow> fault + skbpool" where
  "destroy_skbpool_wq api s =
     rbind (if work_queued s then skbpool_worker api (s\<lparr>work_queued := False\<rparr>) else Inr s) (\<lambda>s1.
       Inr (s1\<lparr>skbpool_wq := False\<rparr>))"

definition skbpool_destroy :: "pool_api \<Rightarrow> skbpool \<Rightarrow> (fault + skbpool) option" where
  "skbpool_destroy api s =
     (case destroy_skbpool_wq api s of
        Inl e \<Rightarrow> Some (Inl e)
      | Inr s1 \<Rightarrow>
          map_option (\<lambda>r. rbind r (\<lambda>s2. Inr (s2\<lparr>nr_skbpool_list := 0, skbpool_cache := False\<rparr>)))
            (skbpool_purge_head (pool_list s1) (s1\<lparr>pool_list := 0\<rparr>)))"

section \<open>Delivery through the pool\<close>

text \<open>
  \<open>deliver_packets\<close> of \<open>nf10_lbuf.c\<close> built with \<open>CONFIG_SKBPOOL\<close>. Its local variables are
  \<open>skb_entry\<close>, \<open>skb_entry_first\<close>, \<open>skb_entry_last\<close> and the number of packets.
\<close>

type_synonym pool_locals = "u64 \<times> u64 \<times> u64 \<times> u32"

definition pool_deliver_one ::
  "pool_api \<Rightarrow> lbuf \<Rightarrow> u32 \<Rightarrow> u32 \<Rightarrow> pool_locals \<Rightarrow> skbpool \<Rightarrow> fault + pool_locals \<times> skbpool" where
  "pool_deliver_one api b dword_idx pkt_len L s =
     (let (skb_entry, skb_entry_first, skb_entry_last, n) = L
      in if pkt_len < 60 \<or> 1518 < pkt_len then Inr (L, s)
         else rbind (skbpool_alloc api skb_entry s) (\<lambda>(entry, s1).
           if entry = 0 then Inr ((0, skb_entry_first, skb_entry_last, n), s1)
           else rbind (get_entry entry s1) (\<lambda>e.
             rbind (lbuf_copy b (LBUF_PKT_ADDR dword_idx) (unat (pkt_len - 4))) (\<lambda>frame.
               Inr ((entry, if skb_entry_first = 0 then entry else skb_entry_first, entry, n + 1),
                    s1\<lparr>frame_in := (frame_in s1)(sp_skb e := frame)\<rparr>)))))"

function pool_deliver_from ::
  "pool_api \<Rightarrow> lbuf \<Rightarrow> u32 \<Rightarrow> u32 \<Rightarrow> pool_locals \<Rightarrow> skbpool \<Rightarrow> fault + pool_locals \<times> skbpool" where
  "pool_deliver_from api b dword_idx nr_dwords L s =
     rbind (skbpool_prefetch_next (fst L) s) (\<lambda>_.
       rbind (LBUF_PKT_LEN b dword_idx) (\<lambda>pkt_len.
         rbind (pool_deliver_one api b dword_idx pkt_len L s) (\<lambda>(L1, s1).
           let next_idx = LBUF_NEXT_DWORD_IDX dword_idx pkt_len
           in if next_idx < nr_dwords then pool_deliver_from api b next_idx nr_dwords L1 s1
              else Inr (L1, s1))))"
  by pat_completeness auto
termination
  by (relation "measure (\<lambda>(api, b, i, nr, L, s). 2 ^ 32 - unat (i + 1))")
    (use next_dword_idx_measure unat_lt_pow in \<open>auto simp: LBUF_PKT_LEN_Inr intro!: diff_less_mono2\<close>)

declare pool_deliver_from.simps [simp del]

text \<open>
  After the loop the last entry is copied into \<open>skb_free_list\<close> (so its chain goes on there), the
  entries used are put in front of \<open>rxq\<close>, and the worker is queued.
\<close>

definition pool_hand_over :: "u64 \<Rightarrow> u64 \<Rightarrow> skbpool \<Rightarrow> fault + skbpool" where
  "pool_hand_over skb_entry_first skb_entry_last s =
     rbind (get_entry skb_entry_last s) (\<lambda>e.
       let s1 = s\<lparr>entries := (entries s)(free_list s \<mapsto> e)\<rparr>
       in rbind (skbpool_add_batch skb_entry_first skb_entry_last (rxq s1) s1) (\<lambda>(first, s2).
            Inr (s2\<lparr>rxq := first, rx_work_queued := True\<rparr>)))"

definition pool_deliver_packets ::
  "pool_api \<Rightarrow> lbuf \<Rightarrow> u32 \<Rightarrow> u32 \<Rightarrow> skbpool \<Rightarrow> fault + u32 \<times> skbpool" where
  "pool_deliver_packets api b dword_idx nr_dwords s =
     rbind (pool_deliver_from api b dword_idx nr_dwords (free_list s, 0, 0, 0) s)
       (\<lambda>((skb_entry, skb_entry_first, skb_entry_last, n), s1).
         if skb_entry_last \<noteq> 0 then
           rbind (pool_hand_over skb_entry_first skb_entry_last s1) (\<lambda>s2. Inr (n, s2))
         else Inr (n, s1))"

definition pass_entry :: "u64 \<Rightarrow> skbpool_entry \<Rightarrow> skbpool \<Rightarrow> skbpool" where
  "pass_entry p e s =
     s\<lparr>passed := passed s @ [frame_in s (sp_skb e)], pool_skbs := pool_skbs s - {sp_skb e}\<rparr>"

definition free_entry :: "u64 \<Rightarrow> skbpool_entry \<Rightarrow> skbpool \<Rightarrow> skbpool" where
  "free_entry p e s = skbpool_free p s"

definition nf10_lbuf_rx_worker :: "skbpool \<Rightarrow> (fault + skbpool) option" where
  "nf10_lbuf_rx_worker s =
     (let (skb_entry, first) = skbpool_del_all (rxq s);
          s1 = s\<lparr>rxq := first, rx_work_queued := False\<rparr>
      in if skb_entry = 0 then Some (Inr s1)
         else case for_each_entry pass_entry (node_of skb_entry) s1 of
                None \<Rightarrow> None
              | Some (Inl e) \<Rightarrow> Some (Inl e)
              | Some (Inr s2) \<Rightarrow> for_each_entry free_entry (node_of skb_entry) s2)"

text \<open>
  What \<open>nf10_lbuf_init\<close> and \<open>nf10_lbuf_free\<close> do for the pool, before the caches. Destroying the work
  queue runs the work still queued.
\<close>

definition nf10_lbuf_init_pool :: "pool_api \<Rightarrow> skbpool \<Rightarrow> int \<times> skbpool" where
  "nf10_lbuf_init_pool api s =
     (if \<not> pa_rx_wq api then (- ENOMEM, s)
      else skbpool_init api 30000 3000 (s\<lparr>rx_wq := True, rxq := 0\<rparr>))"

definition pbind ::
  "(fault + 'a) option \<Rightarrow> ('a \<Rightarrow> (fault + 'b) option) \<Rightarrow> (fault + 'b) option" where
  "pbind r f = (case r of None \<Rightarrow> None | Some (Inl e) \<Rightarrow> Some (Inl e) | Some (Inr x) \<Rightarrow> f x)"

definition destroy_rx_wq :: "skbpool \<Rightarrow> (fault + skbpool) option" where
  "destroy_rx_wq s =
     pbind (if rx_work_queued s then nf10_lbuf_rx_worker s else Some (Inr s)) (\<lambda>s1.
       Some (Inr (s1\<lparr>rx_wq := False\<rparr>)))"

definition nf10_lbuf_free_pool :: "pool_api \<Rightarrow> skbpool \<Rightarrow> (fault + skbpool) option" where
  "nf10_lbuf_free_pool api s =
     pbind (skbpool_purge (free_list s) s) (\<lambda>s1.
       pbind (skbpool_purge_head (rxq s1) (s1\<lparr>rxq := 0\<rparr>)) (\<lambda>s2.
         pbind (skbpool_destroy api s2) destroy_rx_wq))"

section \<open>Chains\<close>

text \<open>\<open>chain E n ps\<close>: from node \<open>n\<close> the \<open>next\<close> pointers lead through the entries \<open>ps\<close> to null.\<close>

fun chain :: "(u64 \<rightharpoonup> skbpool_entry) \<Rightarrow> u64 \<Rightarrow> u64 list \<Rightarrow> bool" where
  "chain E n [] \<longleftrightarrow> n = 0"
| "chain E n (p # ps) \<longleftrightarrow> p \<noteq> 0 \<and> n = node_of p \<and> n \<noteq> 0 \<and>
     (\<exists>e. E p = Some e \<and> chain E (sp_next e) ps)"

definition skbs_of :: "(u64 \<rightharpoonup> skbpool_entry) \<Rightarrow> u64 list \<Rightarrow> u64 list" where
  "skbs_of E ps = map (\<lambda>p. sp_skb (the (E p))) ps"

text \<open>
  \<open>pool_chains s L\<close>: the pairs of \<open>L\<close> are a first node and the entries of its chain; no entry is in two
  places, and the entries hold distinct live socket buffers.
\<close>

definition pool_chains :: "skbpool \<Rightarrow> (u64 \<times> u64 list) list \<Rightarrow> bool" where
  "pool_chains s L \<longleftrightarrow> (\<forall>(n, ps) \<in> set L. chain (entries s) n ps) \<and>
     distinct (concat (map snd L)) \<and> distinct (skbs_of (entries s) (concat (map snd L))) \<and>
     set (skbs_of (entries s) (concat (map snd L))) \<subseteq> pool_skbs s - {0}"

lemma llist_entry_node_of [simp]: "llist_entry (node_of p) = p"
  by (simp add: llist_entry_def node_of_def)

lemma skbs_of_simps [simp]:
  "skbs_of E [] = []" "skbs_of E (p # ps) = sp_skb (the (E p)) # skbs_of E ps"
  "skbs_of E (ps @ qs) = skbs_of E ps @ skbs_of E qs"
  by (simp_all add: skbs_of_def)

lemma chain_dom: "chain E n ps \<Longrightarrow> set ps \<subseteq> dom E"
  by (induction ps arbitrary: n) auto

lemma chain_nonzero: "chain E n ps \<Longrightarrow> 0 \<notin> set ps"
  by (induction ps arbitrary: n) auto

lemma chain_cong:
  "(\<And>q. q \<in> set ps \<Longrightarrow> E q = E' q) \<Longrightarrow> chain E n ps = chain E' n ps"
  by (induction ps arbitrary: n) auto

lemma skbs_of_cong:
  "(\<And>q. q \<in> set ps \<Longrightarrow> E q = E' q) \<Longrightarrow> skbs_of E ps = skbs_of E' ps"
  by (simp add: skbs_of_def)

text \<open>Changing \<open>next\<close> pointers only keeps the socket buffers.\<close>

lemma skbs_of_upd_next: "E q = Some e \<Longrightarrow> skbs_of (E(q \<mapsto> e\<lparr>sp_next := n\<rparr>)) ps = skbs_of E ps"
  by (simp add: skbs_of_def)

lemma chains_Nil [simp]: "pool_chains s ((0, []) # L) = pool_chains s L"
  by (simp add: pool_chains_def)

lemma chains_Nil2 [simp]: "pool_chains s (a # (0, []) # L) = pool_chains s (a # L)"
  by (auto simp: pool_chains_def)

lemma chains_swap: "pool_chains s (a # b # L) = pool_chains s (b # a # L)"
  by (auto simp: pool_chains_def)

lemma chains_tail: "pool_chains s (a # L) \<Longrightarrow> pool_chains s L"
  by (auto simp: pool_chains_def)

lemma chains_chain: "pool_chains s ((n, ps) # L) \<Longrightarrow> chain (entries s) n ps"
  by (simp add: pool_chains_def)

lemma chains_dom:
  assumes "pool_chains s L"
  shows "set (concat (map snd L)) \<subseteq> dom (entries s)"
proof
  fix p assume "p \<in> set (concat (map snd L))"
  then obtain n ps where "(n, ps) \<in> set L" "p \<in> set ps" by fastforce
  then show "p \<in> dom (entries s)" using assms chain_dom [of "entries s" n ps] by (auto simp: pool_chains_def)
qed

lemma chains_cong:
  assumes "\<And>q. q \<in> set (concat (map snd L)) \<Longrightarrow> entries s' q = entries s q" "pool_skbs s' = pool_skbs s"
  shows "pool_chains s' L = pool_chains s L"
proof -
  have c: "chain (entries s') n ps = chain (entries s) n ps" if "(n, ps) \<in> set L" for n ps
    using that assms(1) by (intro chain_cong) force
  have "skbs_of (entries s') (concat (map snd L)) = skbs_of (entries s) (concat (map snd L))"
    using assms(1) by (rule skbs_of_cong)
  then show ?thesis using c assms(2) by (auto simp: pool_chains_def)
qed

text \<open>
  Redirecting the \<open>next\<close> pointer inside a chain, after \<open>ps\<close>, to another chain joins the two; the rest
  \<open>own\<close> stays a chain of its own.
\<close>

lemma chain_redirect:
  assumes "chain E n (ps @ own)" "ps \<noteq> []" "chain E m qs" "E (last ps) = Some e" "distinct (ps @ qs)"
  shows "chain (E(last ps \<mapsto> e\<lparr>sp_next := m\<rparr>)) n (ps @ qs)"
  using assms
proof (induction ps arbitrary: n)
  case (Cons p ps)
  show ?case
  proof (cases "ps = []")
    case True
    then have "chain (E(p \<mapsto> e\<lparr>sp_next := m\<rparr>)) m qs = chain E m qs"
      using Cons.prems(5) by (intro chain_cong) auto
    then show ?thesis using Cons.prems True by (auto simp: fun_upd_def)
  next
    case False
    obtain e' where e': "E p = Some e'" "chain E (sp_next e') (ps @ own)" using Cons.prems(1) by auto
    have "E (last ps) = Some e" "distinct (ps @ qs)" using Cons.prems(4,5) False by simp_all
    then have "chain (E(last ps \<mapsto> e\<lparr>sp_next := m\<rparr>)) (sp_next e') (ps @ qs)"
      by (rule Cons.IH [OF e'(2) False Cons.prems(3)])
    moreover have "p \<noteq> last ps" using Cons.prems(5) False last_in_set [OF False] by auto
    ultimately show ?thesis using Cons.prems(1) e'(1) False by (auto simp: fun_upd_def)
  qed
qed simp

lemma chain_rest: "chain E n (ps @ own) \<Longrightarrow> ps \<noteq> [] \<Longrightarrow> E (last ps) = Some e \<Longrightarrow> chain E (sp_next e) own"
  by (induction ps arbitrary: n) (auto split: if_splits)

lemma set_next_Inr:
  assumes "entries s p = Some e" "p \<noteq> 0"
  shows "set_next p n s = Inr (s\<lparr>entries := (entries s)(p \<mapsto> e\<lparr>sp_next := n\<rparr>)\<rparr>)"
  using assms by (simp add: set_next_def get_entry_def)

lemma chains_redirect:
  assumes "pool_chains s ((n, ps @ own) # (m, qs) # L)" "ps \<noteq> []" "entries s (last ps) = Some e"
  shows "\<exists>s'. set_next (last ps) m s = Inr s' \<and> pool_chains s' ((n, ps @ qs) # (sp_next e, own) # L) \<and>
    (\<forall>q. q \<noteq> last ps \<longrightarrow> entries s' q = entries s q)"
proof -
  have c: "chain (entries s) n (ps @ own)" "chain (entries s) m qs" using assms(1) by (auto simp: pool_chains_def)
  have l: "last ps \<in> set ps" using assms(2) by simp
  have "last ps \<in> set (ps @ own)" using l by simp
  then have z: "last ps \<noteq> 0" using chain_nonzero [OF c(1)] by metis
  let ?s = "s\<lparr>entries := (entries s)(last ps \<mapsto> e\<lparr>sp_next := m\<rparr>)\<rparr>"
  have d: "distinct (ps @ own @ qs @ concat (map snd L))" using assms(1) by (simp add: pool_chains_def)
  have "chain (entries ?s) n (ps @ qs)"
    using chain_redirect [OF c(1) assms(2) c(2) assms(3)] d by (auto simp: Int_Un_distrib)
  moreover have o: "chain (entries ?s) k rs = chain (entries s) k rs" if "last ps \<notin> set rs" for k rs
    using that by (intro chain_cong) auto
  moreover have "last ps \<notin> set rs" if "(k, rs) \<in> set L" for k rs using d l that by fastforce
  moreover have "chain (entries ?s) (sp_next e) own"
    using o [of own "sp_next e"] chain_rest [OF c(1) assms(2,3)] d l by auto
  moreover have "skbs_of (entries ?s) rs = skbs_of (entries s) rs" for rs
    using skbs_of_upd_next [of "entries s" "last ps" e m rs] assms(3) by simp
  ultimately have "pool_chains ?s ((n, ps @ qs) # (sp_next e, own) # L)"
    using assms(1) by (auto simp: pool_chains_def)
  then show ?thesis using set_next_Inr [OF assms(3) z] by auto
qed

lemma chains_link:
  assumes "pool_chains s ((n, ps) # (m, qs) # L)" "ps \<noteq> []"
  shows "\<exists>s'. set_next (last ps) m s = Inr s' \<and> pool_chains s' ((n, ps @ qs) # L) \<and>
    (\<forall>q. q \<noteq> last ps \<longrightarrow> entries s' q = entries s q)"
proof -
  have "chain (entries s) n (ps @ [])" "last ps \<in> set ps" using assms by (auto simp: pool_chains_def)
  moreover from this obtain e where e: "entries s (last ps) = Some e" using chain_dom by fastforce
  ultimately have "sp_next e = 0" using chain_rest [of "entries s" n ps "[]" e] assms(2) by simp
  then show ?thesis using chains_redirect [of s n ps "[]" m qs L e] assms e by simp
qed

text \<open>The first entry of a chain, taken off.\<close>

lemma chains_uncons:
  assumes "pool_chains s ((n, p # ps) # L)"
  shows "\<exists>e. entries s p = Some e \<and> p \<noteq> 0 \<and> n = node_of p \<and> n \<noteq> 0 \<and> pool_chains s ((sp_next e, ps) # L)"
  using assms by (auto simp: pool_chains_def)

section \<open>Allocation\<close>

text \<open>What the allocators promise: entries and socket buffers that are not in use.\<close>

definition api_ok :: "pool_api \<Rightarrow> bool" where
  "api_ok api \<longleftrightarrow> (\<forall>s. pa_entry api s \<noteq> 0 \<longrightarrow> pa_entry api s \<notin> dom (entries s)) \<and>
     (\<forall>s. pa_entry api s \<noteq> 0 \<longrightarrow> node_of (pa_entry api s) \<noteq> 0) \<and>
     (\<forall>s. pa_skb api s \<noteq> 0 \<longrightarrow> pa_skb api s \<notin> pool_skbs s)"

lemma entry_alloc_chains:
  assumes "api_ok api" "pool_chains s L" "skbpool_entry_alloc api s = (p, s')"
  shows "if p = 0 then pool_chains s' L \<and> entries s' = entries s else pool_chains s' ((node_of p, [p]) # L) \<and>
    (\<forall>q. q \<noteq> p \<longrightarrow> entries s' q = entries s q) \<and> p \<notin> dom (entries s)"
proof -
  let ?p = "pa_entry api s" and ?k = "pa_skb api s"
  let ?ps = "concat (map snd L)"
  have f: "?p \<noteq> 0 \<Longrightarrow> entries s ?p = None" "?k \<noteq> 0 \<Longrightarrow> ?k \<notin> pool_skbs s" "?p \<noteq> 0 \<Longrightarrow> node_of ?p \<noteq> 0"
    using assms(1) by (auto simp: api_ok_def)
  have np: "?p \<noteq> 0 \<Longrightarrow> ?p \<notin> set ?ps" using f(1) chains_dom [OF assms(2)] by auto
  consider "?p = 0" | "?p \<noteq> 0" "?k = 0" | "?p \<noteq> 0" "?k \<noteq> 0" by blast
  then show ?thesis
  proof cases
    case 1
    then show ?thesis using assms by (auto simp: skbpool_entry_alloc_def Let_def)
  next
    case 2
    then have s': "p = 0" "s' = s\<lparr>entries := (entries s)(?p := None)\<rparr>"
      using assms(3) by (auto simp: skbpool_entry_alloc_def Let_def skbpool_free_def)
    then have "entries s' = entries s" using f(1) 2 by auto
    moreover have "pool_chains s' L = pool_chains s L" using s'(2) f(1) 2 by (intro chains_cong) auto
    ultimately show ?thesis using assms(2) s'(1) by simp
  next
    case 3
    then have s': "p = ?p" "s' = s\<lparr>entries := (entries s)(?p \<mapsto> \<lparr>sp_skb = ?k, sp_next = 0\<rparr>),
        pool_skbs := insert ?k (pool_skbs s)\<rparr>"
      using assms(3) by (auto simp: skbpool_entry_alloc_def Let_def)
    have e: "entries s' q = entries s q" if "q \<noteq> ?p" for q using s'(2) that by simp
    have sk: "skbs_of (entries s') ?ps = skbs_of (entries s) ?ps"
      using e np 3 by (intro skbs_of_cong) metis
    have "chain (entries s') n ps = chain (entries s) n ps" if "(n, ps) \<in> set L" for n ps
    proof (rule chain_cong)
      fix q assume "q \<in> set ps"
      then have "q \<in> set ?ps" using that by force
      then show "entries s' q = entries s q" using e np 3(1) by metis
    qed
    moreover have "distinct (skbs_of (entries s) ?ps)" "set (skbs_of (entries s) ?ps) \<subseteq> pool_skbs s - {0}"
      "\<forall>(n, ps) \<in> set L. chain (entries s) n ps" "distinct ?ps"
      using assms(2) by (auto simp: pool_chains_def)
    ultimately have "pool_chains s' ((node_of ?p, [?p]) # L)"
      using 3 f np sk unfolding pool_chains_def by (auto simp: s'(2))
    then show ?thesis using 3 s'(1) e f(1) by auto
  qed
qed

text \<open>An allocation that fails leaves everything as it was.\<close>

lemma entry_alloc_failed:
  assumes "api_ok api" "skbpool_entry_alloc api s = (0, s')"
  shows "s' = s"
proof -
  have "(entries s)(pa_entry api s := None) = entries s" if "pa_entry api s \<noteq> 0"
    using that assms(1) by (auto simp: api_ok_def)
  then show ?thesis using assms(2)
    by (auto simp: skbpool_entry_alloc_def Let_def skbpool_free_def split: if_splits)
qed

text \<open>
  One round of the worker: from a local batch \<open>ys\<close> (with \<open>head\<close> and \<open>tail\<close> its ends) the inner loop
  does not fault, puts new entries in front, and touches no other entry; it adds none only where the
  first allocation fails.
\<close>

definition batch_ends :: "u64 \<Rightarrow> u64 \<Rightarrow> u64 list \<Rightarrow> bool" where
  "batch_ends head tail ys \<longleftrightarrow> (if ys = [] then head = 0 else head = hd ys \<and> tail = last ys \<and> head \<noteq> 0)"

lemma fill_batch_spec:
  assumes "api_ok api"
  shows "pool_chains s ((if head = 0 then 0 else node_of head, ys) # L) \<Longrightarrow> batch_ends head tail ys \<Longrightarrow>
    \<exists>h t m s' zs. fill_batch api n head tail nr s = Inr (h, t, m, s') \<and>
      pool_chains s' ((if h = 0 then 0 else node_of h, zs @ ys) # L) \<and> batch_ends h t (zs @ ys) \<and>
      m = nr + length zs \<and> length zs \<le> n \<and>
      (\<forall>q \<in> dom (entries s) - set ys. entries s' q = entries s q) \<and>
      (zs = [] \<longrightarrow> 0 < n \<longrightarrow> skbpool_entry_alloc api s = (0, s'))"
proof (induction n arbitrary: head tail nr s ys)
  case 0
  then show ?case by (auto intro!: exI [of _ "[]"])
next
  case (Suc n)
  obtain p s1 where a: "skbpool_entry_alloc api s = (p, s1)" by fastforce
  note c = entry_alloc_chains [OF assms Suc.prems(1) a]
  show ?case
  proof (cases "p = 0")
    case True
    then show ?thesis using a c Suc.prems(2) by (intro exI [of _ "[]"] exI) (auto intro!: exI [of _ "[]"])
  next
    case False
    have nd: "p \<notin> dom (entries s)" and o1: "\<forall>q. q \<noteq> p \<longrightarrow> entries s1 q = entries s q"
      and c1: "pool_chains s1 ((node_of p, [p]) # (if head = 0 then 0 else node_of head, ys) # L)"
      using c False by auto
    show ?thesis
    proof (cases "ys = []")
      case True
      then have h: "head = 0" using Suc.prems(2) by (simp add: batch_ends_def)
      have "pool_chains s1 ((if p = 0 then 0 else node_of p, [p]) # L)" "batch_ends p p [p]"
        using c1 h True False by (auto simp: batch_ends_def)
      from Suc.IH [OF this, of "nr + 1"] obtain h' t' m s' zs where r:
        "fill_batch api n p p (nr + 1) s1 = Inr (h', t', m, s')"
        "pool_chains s' ((if h' = 0 then 0 else node_of h', zs @ [p]) # L)" "batch_ends h' t' (zs @ [p])"
        "m = nr + 1 + length zs" "length zs \<le> n"
        "\<forall>q \<in> dom (entries s1) - set [p]. entries s' q = entries s1 q"
        by blast
      have "\<forall>q \<in> dom (entries s) - set ys. entries s' q = entries s q"
        using r(6) o1 nd by (metis Diff_iff domIff empty_iff insert_iff list.set(1,2))
      then show ?thesis using r a False h True
        by (intro exI [of _ h'] exI [of _ t'] exI [of _ m] exI [of _ s'] exI [of _ "zs @ [p]"]) auto
    next
      case ys: False
      then have h: "head \<noteq> 0" "tail = last ys" using Suc.prems(2) by (auto simp: batch_ends_def)
      obtain s2 where s2: "set_next p (node_of head) s1 = Inr s2"
        "pool_chains s2 ((node_of p, p # ys) # L)" "\<forall>q. q \<noteq> p \<longrightarrow> entries s2 q = entries s1 q"
        using chains_link [of s1 "node_of p" "[p]" "node_of head" ys L] c1 h by auto
      have "pool_chains s2 ((if p = 0 then 0 else node_of p, p # ys) # L)" "batch_ends p tail (p # ys)"
        using s2(2) False h(2) ys by (auto simp: batch_ends_def)
      from Suc.IH [OF this, of "nr + 1"] obtain h' t' m s' zs where r:
        "fill_batch api n p tail (nr + 1) s2 = Inr (h', t', m, s')"
        "pool_chains s' ((if h' = 0 then 0 else node_of h', zs @ p # ys) # L)" "batch_ends h' t' (zs @ p # ys)"
        "m = nr + 1 + length zs" "length zs \<le> n"
        "\<forall>q \<in> dom (entries s2) - set (p # ys). entries s' q = entries s2 q"
        by blast
      have "\<forall>q \<in> dom (entries s) - set ys. entries s' q = entries s q"
        using r(6) o1 s2(3) nd by (metis Diff_iff domIff set_ConsD)
      then show ?thesis using r a False h(1) s2(1)
        by (intro exI [of _ h'] exI [of _ t'] exI [of _ m] exI [of _ s'] exI [of _ "zs @ [p]"]) auto
    qed
  qed
qed

text \<open>The whole refill: it ends, keeps the other chains, and counts what it adds.\<close>

lemma worker_spec:
  assumes "api_ok api"
  shows "pool_chains s ((pool_list s, xs) # L) \<Longrightarrow>
    \<exists>s' ys. skbpool_worker api s = Inr s' \<and> pool_chains s' ((pool_list s', ys @ xs) # L) \<and>
      nr_skbpool_list s' = nr_skbpool_list s + int (length ys) \<and>
      (0 < nr_batch_alloc s \<longrightarrow> 0 \<le> nr_skbpool_list s \<longrightarrow>
        int (min_skbpool_list s) \<le> nr_skbpool_list s' \<or> fst (skbpool_entry_alloc api s') = 0)"
proof (induction "nat (int (min_skbpool_list s) - nr_skbpool_list s)" arbitrary: s xs rule: less_induct)
  case less
  note c0 = less.prems
  show ?case
  proof (cases "0 \<le> nr_skbpool_list s \<and> nr_skbpool_list s < int (min_skbpool_list s)")
    case False
    then show ?thesis using c0 by (intro exI [of _ s] exI [of _ "[]"]) (auto simp: skbpool_worker.simps [of api s])
  next
    case True
    have b: "pool_chains s ((if (0 :: u64) = 0 then 0 else node_of 0, []) # (pool_list s, xs) # L)"
      "batch_ends 0 0 []" using c0 by (simp_all add: batch_ends_def)
    obtain h t m s1 zs where r: "fill_batch api (nr_batch_alloc s) 0 0 0 s = Inr (h, t, m, s1)"
      "pool_chains s1 ((if h = 0 then 0 else node_of h, zs @ []) # (pool_list s, xs) # L)"
      "batch_ends h t (zs @ [])" "m = 0 + length zs"
      "zs = [] \<longrightarrow> 0 < nr_batch_alloc s \<longrightarrow> skbpool_entry_alloc api s = (0, s1)"
      using fill_batch_spec [OF assms b, of "nr_batch_alloc s" 0] by (elim exE conjE) (rule that)
    note f = r(1) r(2,3) [unfolded append_Nil2] r(4) [unfolded add_0] r(5)
    note g = fill_batch_fields [OF f(1)]
    show ?thesis
    proof (cases "h = 0")
      case h: True
      then have z: "zs = []" using f(3) by (auto simp: batch_ends_def split: if_splits)
      then have "0 < nr_batch_alloc s \<longrightarrow> s1 = s \<and> fst (skbpool_entry_alloc api s) = 0"
        using f(5) entry_alloc_failed [OF assms] by auto
      then show ?thesis using True f g h z
        by (intro exI [of _ s1] exI [of _ "[]"]) (auto simp: skbpool_worker.simps [of api s])
    next
      case h: False
      then have z: "zs \<noteq> []" "t = last zs" using f(3) by (auto simp: batch_ends_def split: if_splits)
      obtain s2 where s2: "set_next t (pool_list s1) s1 = Inr s2" "pool_chains s2 ((node_of h, zs @ xs) # L)"
        using chains_link [of s1 "node_of h" zs "pool_list s" xs L] f(2) h z g by auto
      note k = set_next_fields [OF s2(1)]
      let ?s = "s2\<lparr>pool_list := node_of h, nr_skbpool_list := nr_skbpool_list s2 + int m\<rparr>"
      have w: "skbpool_worker api s = skbpool_worker api ?s"
        using True f(1) h s2(1) by (simp add: skbpool_worker.simps [of api s] skbpool_add_batch_def)
      have c: "pool_chains ?s ((pool_list ?s, zs @ xs) # L)"
        using s2(2) chains_cong [of _ ?s s2] by simp
      have lt: "nat (int (min_skbpool_list ?s) - nr_skbpool_list ?s) <
          nat (int (min_skbpool_list s) - nr_skbpool_list s)"
        using True k g z f(4) by simp
      obtain s' ys where r: "skbpool_worker api ?s = Inr s'"
        "pool_chains s' ((pool_list s', ys @ zs @ xs) # L)"
        "nr_skbpool_list s' = nr_skbpool_list ?s + int (length ys)"
        "0 < nr_batch_alloc ?s \<longrightarrow> 0 \<le> nr_skbpool_list ?s \<longrightarrow>
          int (min_skbpool_list ?s) \<le> nr_skbpool_list s' \<or> fst (skbpool_entry_alloc api s') = 0"
        using less.hyps [OF lt c] by (elim exE conjE) (rule that)
      then show ?thesis using w k g f(4) by (intro exI [of _ s'] exI [of _ "ys @ zs"]) auto
    qed
  qed
qed

lemma take_all_spec:
  assumes "api_ok api" "pool_chains s ((pool_list s, xs) # L)" "skbpool_take_all api s = (p, s')"
  shows "case xs of
      x # xs' \<Rightarrow> p = x \<and> s' = s\<lparr>pool_list := 0, nr_skbpool_list := 0\<rparr> \<and> pool_chains s' ((node_of x, xs) # L)
    | [] \<Rightarrow> (if p = 0 then pool_chains s' L \<and> entries s' = entries s
            else pool_chains s' ((node_of p, [p]) # L) \<and> p \<notin> dom (entries s) \<and>
              (\<forall>q. q \<noteq> p \<longrightarrow> entries s' q = entries s q))"
proof (cases xs)
  case Nil
  then have pl: "pool_list s = 0" using chains_chain [OF assms(2)] by simp
  have "pool_chains (s\<lparr>pool_list := 0\<rparr>) L"
    using chains_tail [OF assms(2)] chains_cong [of L "s\<lparr>pool_list := 0\<rparr>" s] by simp
  moreover have "skbpool_entry_alloc api (s\<lparr>pool_list := 0\<rparr>) = (p, s')"
    using assms(3) pl by (simp add: skbpool_take_all_def skbpool_del_all_def)
  ultimately have "if p = 0 then pool_chains s' L \<and> entries s' = entries (s\<lparr>pool_list := 0\<rparr>)
    else pool_chains s' ((node_of p, [p]) # L) \<and>
      (\<forall>q. q \<noteq> p \<longrightarrow> entries s' q = entries (s\<lparr>pool_list := 0\<rparr>) q) \<and> p \<notin> dom (entries (s\<lparr>pool_list := 0\<rparr>))"
    by (rule entry_alloc_chains [OF assms(1)])
  then show ?thesis unfolding Nil list.case by (cases "p = 0") simp_all
next
  case (Cons x xs')
  have pl: "pool_list s = node_of x" "x \<noteq> 0" "node_of x \<noteq> 0"
    using chains_chain [OF assms(2)] Cons by auto
  then have s': "p = x" "s' = s\<lparr>pool_list := 0, nr_skbpool_list := 0\<rparr>"
    using assms(3) by (auto simp: skbpool_take_all_def skbpool_del_all_def)
  have "pool_chains s' ((node_of x, xs) # L) = pool_chains s ((node_of x, xs) # L)"
    by (rule chains_cong) (simp_all add: s'(2))
  then show ?thesis using Cons s' assms(2) pl(1) by simp
qed

text \<open>Relinking an entry that is on none of the chains keeps them.\<close>

lemma chains_relink_outside:
  assumes "pool_chains s L" "q \<notin> set (concat (map snd L))" "set_next q n s = Inr s'"
  shows "pool_chains s' L"
proof -
  have "entries s' r = entries s r" if "r \<noteq> q" for r
    using assms(3) that by (auto simp: set_next_def rbind_eq_Inr)
  then have "pool_chains s' L = pool_chains s L"
    using assms(2) set_next_fields(6) [OF assms(3)] by (intro chains_cong) metis+
  then show ?thesis using assms(1) by simp
qed

lemma chains_queue_work: "pool_chains (queue_skbpool_work s) L = pool_chains s L"
  by (rule chains_cong) (simp_all add: queue_skbpool_work_def)

section \<open>Walking a chain\<close>

definition each :: "(u64 \<Rightarrow> skbpool_entry \<Rightarrow> skbpool \<Rightarrow> skbpool) \<Rightarrow> u64 list \<Rightarrow> skbpool \<Rightarrow> skbpool" where
  "each f ps s = fold (\<lambda>p s. f p (the (entries s p)) s) ps s"

lemma each_simps [simp]: "each f [] s = s" "each f (p # ps) s = each f ps (f p (the (entries s p)) s)"
  by (simp_all add: each_def)

lemma for_each_entry_chain:
  assumes "\<And>p e s q. q \<noteq> p \<Longrightarrow> entries (f p e s) q = entries s q"
  shows "chain (entries s) n ps \<Longrightarrow> distinct ps \<Longrightarrow> for_each_entry f n s = Some (Inr (each f ps s))"
proof (induction ps arbitrary: n s)
  case Nil
  then show ?case by (simp add: for_each_entry.simps)
next
  case (Cons p ps)
  obtain e where e: "entries s p = Some e" "p \<noteq> 0" "n = node_of p" "n \<noteq> 0" "chain (entries s) (sp_next e) ps"
    using Cons.prems(1) by auto
  have "chain (entries (f p e s)) (sp_next e) ps = chain (entries s) (sp_next e) ps"
    using Cons.prems(2) by (intro chain_cong) (auto intro!: assms)
  then have "for_each_entry f (sp_next e) (f p e s) = Some (Inr (each f ps (f p e s)))"
    using Cons e(5) by simp
  moreover have "get_entry p s = Inr e" using e(1,2) by (simp add: get_entry_def)
  ultimately show ?case using e by (subst for_each_entry.simps) simp
qed

lemma each_keeps: "(\<And>p e s. F (f p e s) = F s) \<Longrightarrow> F (each f ps s) = F s"
  by (induction ps arbitrary: s) simp_all

lemma purge_entry_fields [simp]:
  "entries (purge_entry p e s) = (entries s)(p := None)"
  "freed (purge_entry p e s) = freed s @ (if sp_skb e \<noteq> 0 then [sp_skb e] else [])"
  "pool_skbs (purge_entry p e s) = pool_skbs s - (if sp_skb e \<noteq> 0 then {sp_skb e} else {})"
  by (simp_all add: purge_entry_def skbpool_free_def kfree_skb_def)

lemma each_purge:
  "distinct ps \<Longrightarrow> 0 \<notin> set (skbs_of (entries s) ps) \<Longrightarrow>
    entries (each purge_entry ps s) = entries s |` (- set ps) \<and>
    freed (each purge_entry ps s) = freed s @ skbs_of (entries s) ps \<and>
    pool_skbs (each purge_entry ps s) = pool_skbs s - set (skbs_of (entries s) ps)"
proof (induction ps arbitrary: s)
  case (Cons p ps)
  let ?s = "purge_entry p (the (entries s p)) s"
  have "skbs_of (entries ?s) ps = skbs_of (entries s) ps"
    using Cons.prems(1) by (intro skbs_of_cong) auto
  moreover have "0 \<notin> set (skbs_of (entries s) ps)" "sp_skb (the (entries s p)) \<noteq> 0" "distinct ps"
    using Cons.prems by auto
  ultimately have "entries (each purge_entry ps ?s) = entries ?s |` (- set ps) \<and>
    freed (each purge_entry ps ?s) = freed ?s @ skbs_of (entries s) ps \<and>
    pool_skbs (each purge_entry ps ?s) = pool_skbs ?s - set (skbs_of (entries s) ps)"
    using Cons.IH [of ?s] by (simp del: purge_entry_fields)
  moreover have "entries ?s |` (- set ps) = entries s |` (- set (p # ps))"
    by (auto simp: restrict_map_def)
  ultimately show ?case using \<open>sp_skb (the (entries s p)) \<noteq> 0\<close> by auto
qed (simp add: restrict_map_def)

lemma pass_free_fields [simp]:
  "entries (pass_entry p e s) = entries s" "frame_in (pass_entry p e s) = frame_in s"
  "passed (pass_entry p e s) = passed s @ [frame_in s (sp_skb e)]"
  "pool_skbs (pass_entry p e s) = pool_skbs s - {sp_skb e}" "freed (pass_entry p e s) = freed s"
  "free_list (pass_entry p e s) = free_list s" "rxq (pass_entry p e s) = rxq s"
  "entries (free_entry p e s) = (entries s)(p := None)" "passed (free_entry p e s) = passed s"
  "pool_skbs (free_entry p e s) = pool_skbs s" "freed (free_entry p e s) = freed s"
  "free_list (free_entry p e s) = free_list s" "rxq (free_entry p e s) = rxq s"
  by (simp_all add: pass_entry_def free_entry_def skbpool_free_def)

lemma purge_head_chain:
  assumes "chain (entries s) head ps" "distinct ps"
  shows "skbpool_purge_head head s = Some (Inr (each purge_entry ps s))"
proof -
  have "for_each_entry purge_entry head s = Some (Inr (each purge_entry ps s))"
    by (rule for_each_entry_chain [OF _ assms]) simp
  then show ?thesis using assms(1)
    by (cases ps) (auto simp: skbpool_purge_head_def skbpool_del_all_def skbpool_purge_def)
qed

lemma each_purge_keeps:
  "rxq (each purge_entry ps s) = rxq s" "rx_work_queued (each purge_entry ps s) = rx_work_queued s"
  "pool_list (each purge_entry ps s) = pool_list s" "work_queued (each purge_entry ps s) = work_queued s"
  by (rule each_keeps; simp add: purge_entry_def skbpool_free_def kfree_skb_def)+

text \<open>The frames in a list of entries.\<close>

definition frames_in :: "skbpool \<Rightarrow> u64 list \<Rightarrow> u8 list list" where
  "frames_in s ps = map (frame_in s) (skbs_of (entries s) ps)"

lemma each_pass:
  "entries (each pass_entry ps s) = entries s \<and> passed (each pass_entry ps s) = passed s @ frames_in s ps \<and>
    pool_skbs (each pass_entry ps s) = pool_skbs s - set (skbs_of (entries s) ps) \<and>
    freed (each pass_entry ps s) = freed s \<and> free_list (each pass_entry ps s) = free_list s"
  by (induction ps arbitrary: s) (auto simp: frames_in_def)

lemma each_free:
  "entries (each free_entry ps s) = entries s |` (- set ps) \<and> passed (each free_entry ps s) = passed s \<and>
    pool_skbs (each free_entry ps s) = pool_skbs s \<and> freed (each free_entry ps s) = freed s \<and>
    free_list (each free_entry ps s) = free_list s"
proof (induction ps arbitrary: s)
  case (Cons p ps)
  have "entries (free_entry p e s) |` (- set ps) = entries s |` (- set (p # ps))" for e
    by (auto simp: restrict_map_def)
  then show ?case using Cons [of "free_entry p (the (entries s p)) s"]
    by (simp del: pass_free_fields(8))
qed (simp add: restrict_map_def)

text \<open>The worker passes the frames of \<open>rxq\<close> to the stack and frees the entries.\<close>

lemma rx_worker_spec:
  assumes "pool_chains s ((rxq s, ps) # L)"
  shows "\<exists>s'. nf10_lbuf_rx_worker s = Some (Inr s') \<and> passed s' = passed s @ frames_in s ps \<and>
    entries s' = entries s |` (- set ps) \<and> pool_skbs s' = pool_skbs s - set (skbs_of (entries s) ps) \<and>
    freed s' = freed s \<and> free_list s' = free_list s \<and> rxq s' = 0 \<and> \<not> rx_work_queued s' \<and>
    pool_list s' = pool_list s \<and> work_queued s' = work_queued s"
proof (cases ps)
  case Nil
  then have "rxq s = 0" using chains_chain [OF assms] by simp
  then show ?thesis using Nil
    by (simp add: nf10_lbuf_rx_worker_def skbpool_del_all_def frames_in_def restrict_map_def)
next
  case (Cons p ps')
  have h: "rxq s = node_of p" "p \<noteq> 0" "node_of p \<noteq> 0" and d: "distinct ps"
    using assms Cons by (auto simp: pool_chains_def)
  let ?s1 = "s\<lparr>rxq := 0, rx_work_queued := False\<rparr>"
  have c: "chain (entries ?s1) (node_of p) ps" using chains_chain [OF assms] h by simp
  have 1: "for_each_entry pass_entry (node_of p) ?s1 = Some (Inr (each pass_entry ps ?s1))"
    by (rule for_each_entry_chain [OF _ c d]) simp
  have 2: "for_each_entry free_entry (node_of p) (each pass_entry ps ?s1) =
      Some (Inr (each free_entry ps (each pass_entry ps ?s1)))"
    using c each_pass [of ps ?s1] by (intro for_each_entry_chain [OF _ _ d]) simp_all
  have f: "frames_in ?s1 ps = frames_in s ps" by (simp add: frames_in_def)
  let ?s3 = "each free_entry ps (each pass_entry ps ?s1)"
  have "F ?s3 = F ?s1" if "\<And>p e s. F (free_entry p e s) = F s" "\<And>p e s. F (pass_entry p e s) = F s"
    for F :: "skbpool \<Rightarrow> 'b"
    using that by (simp add: each_keeps [of F])
  note keeps = this [of rxq] this [of rx_work_queued] this [of pool_list] this [of work_queued]
  have "rxq ?s3 = 0" "\<not> rx_work_queued ?s3" "pool_list ?s3 = pool_list s" "work_queued ?s3 = work_queued s"
    using keeps by (simp_all add: free_entry_def pass_entry_def skbpool_free_def)
  then show ?thesis using h 1 2 f each_pass [of ps ?s1] each_free [of ps "each pass_entry ps ?s1"]
    by (simp add: nf10_lbuf_rx_worker_def skbpool_del_all_def)
qed

text \<open>
  Handing a batch over cuts it off the chain it is the beginning of, puts it in front of \<open>rxq\<close>, and
  leaves a copy of its last entry in the static, from where the chain goes on.
\<close>

lemma hand_over_spec:
  assumes "pool_chains s ((node_of (hd as), as @ own) # (rxq s, rs) # L)" "as \<noteq> []"
    and "free_list s \<notin> set (as @ own @ rs @ concat (map snd L))" "entries s (last as) = Some e"
  shows "\<exists>s'. pool_hand_over (hd as) (last as) s = Inr s' \<and>
    pool_chains s' ((rxq s', as @ rs) # (sp_next e, own) # L) \<and>
    entries s' (free_list s) = Some e \<and> passed s' = passed s \<and> free_list s' = free_list s \<and>
    freed s' = freed s \<and> frame_in s' = frame_in s \<and> pool_list s' = pool_list s \<and> work_queued s' = work_queued s \<and>
    (\<forall>ps. free_list s \<notin> set ps \<longrightarrow> skbs_of (entries s') ps = skbs_of (entries s) ps)"
proof -
  have "last as \<in> set (as @ own)" using assms(2) by simp
  then have z: "last as \<noteq> 0" using chain_nonzero [OF chains_chain [OF assms(1)]] by metis
  have ne: "free_list s \<noteq> last as" using assms(2,3) last_in_set by fastforce
  let ?s1 = "s\<lparr>entries := (entries s)(free_list s \<mapsto> e)\<rparr>"
  have c1: "pool_chains ?s1 ((node_of (hd as), as @ own) # (rxq s, rs) # L)"
    using assms(1) by (subst chains_cong) (use assms(3) in auto)
  have e1: "entries ?s1 (last as) = Some e" using assms(4) by simp
  obtain s2 where s2: "set_next (last as) (rxq s) ?s1 = Inr s2"
    "pool_chains s2 ((node_of (hd as), as @ rs) # (sp_next e, own) # L)"
    "\<forall>q. q \<noteq> last as \<longrightarrow> entries s2 q = entries ?s1 q"
    using chains_redirect [OF c1 assms(2) e1] by blast
  note k = set_next_fields [OF s2(1)]
  have w: "work_queued s2 = work_queued s" using s2(1) by (auto simp: set_next_def rbind_eq_Inr)
  let ?s' = "s2\<lparr>rxq := node_of (hd as), rx_work_queued := True\<rparr>"
  have "pool_chains ?s' ((node_of (hd as), as @ rs) # (sp_next e, own) # L)"
    using s2(2) by (subst chains_cong) simp_all
  moreover have "skbs_of (entries ?s') ps = skbs_of (entries s) ps" if "free_list s \<notin> set ps" for ps
  proof -
    have s2e: "entries s2 = (entries ?s1)(last as \<mapsto> e\<lparr>sp_next := rxq s\<rparr>)"
      using s2(1) set_next_Inr [OF e1 z] by auto
    have "skbs_of (entries s2) ps = skbs_of (entries ?s1) ps"
      unfolding s2e by (intro skbs_of_upd_next e1)
    also have "\<dots> = skbs_of (entries s) ps" using that by (intro skbs_of_cong) auto
    finally show ?thesis by simp
  qed
  ultimately show ?thesis using s2 k z ne assms(4) w
    by (simp add: pool_hand_over_def get_entry_def skbpool_add_batch_def)
qed

text \<open>Where no memory is left, the rest of a delivery that has no entry changes no entry.\<close>

lemma alloc_no_memory:
  assumes "\<forall>s. pa_entry api s = 0" "pool_list s = 0"
  shows "skbpool_take_all api s = (0, s)"
  using assms by (simp add: skbpool_take_all_def skbpool_del_all_def skbpool_entry_alloc_def)

lemma deliver_no_memory:
  assumes "\<forall>s. pa_entry api s = 0"
  shows "pool_deliver_from api b i nr L s = Inr (L', s') \<Longrightarrow> L = (0, 0, 0, 0) \<Longrightarrow> pool_list s = 0 \<Longrightarrow>
    L' = (0, 0, 0, 0) \<and> entries s' = entries s \<and> free_list s' = free_list s"
  using assms
proof (induction api b i nr L s rule: pool_deliver_from.induct)
  case (1 api b i nr L s)
  obtain len L1 s1 where len: "LBUF_PKT_LEN b i = Inr len"
    and d: "pool_deliver_one api b i len L s = Inr (L1, s1)"
    and pf: "skbpool_prefetch_next (fst L) s = Inr ()"
    using "1.prems"(1) by (auto simp: pool_deliver_from.simps [of api b i] rbind_eq_Inr)
  have s1: "L1 = (0, 0, 0, 0)" "entries s1 = entries s" "free_list s1 = free_list s" "pool_list s1 = 0"
    using d "1.prems"(2,3) alloc_no_memory [OF "1.prems"(4,3)]
    by (auto simp: pool_deliver_one_def skbpool_alloc_def queue_skbpool_work_def split: if_splits)
  let ?j = "LBUF_NEXT_DWORD_IDX i len"
  show ?case
  proof (cases "?j < nr")
    case True
    then have "pool_deliver_from api b ?j nr L1 s1 = Inr (L', s')"
      using "1.prems"(1) len d pf by (simp add: pool_deliver_from.simps [of api b i] Let_def)
    from "1.IH" [OF pf len d refl refl True this s1(1,4) "1.prems"(4)] s1 show ?thesis by simp
  next
    case False
    then show ?thesis using "1.prems"(1) len d pf s1 by (simp add: pool_deliver_from.simps [of api b i] Let_def)
  qed
qed

section \<open>A concrete pool\<close>

text \<open>
  For the examples: an allocator that gives the first free one of three entries and of three socket
  buffers, and pools of up to four entries, at \<open>0x200\<close> to \<open>0x500\<close>, with the static entry at
  \<open>0x100\<close>.
\<close>

definition demo_pool_api :: pool_api where
  "demo_pool_api =
     \<lparr>pa_entry = (\<lambda>s. case filter (\<lambda>p. entries s p = None) [0x600, 0x700, 0x800] of [] \<Rightarrow> 0 | p # _ \<Rightarrow> p),
      pa_skb = (\<lambda>s. case filter (\<lambda>p. p \<notin> pool_skbs s) [6, 7, 8] of [] \<Rightarrow> 0 | p # _ \<Rightarrow> p),
      pa_cache = True, pa_wq = True, pa_rx_wq = True\<rparr>"

definition no_memory_api :: pool_api where
  "no_memory_api = \<lparr>pa_entry = (\<lambda>_. 0), pa_skb = (\<lambda>_. 0), pa_cache = True, pa_wq = True, pa_rx_wq = True\<rparr>"

text \<open>One frame of 64 bytes.\<close>

definition one_frame :: lbuf where "one_frame i = (if i = 1 then 64 else 0)"

definition demo_entries :: "u64 \<Rightarrow> u64 \<Rightarrow> u64 \<rightharpoonup> skbpool_entry" where
  "demo_entries n3 n5 =
     [0x100 \<mapsto> \<lparr>sp_skb = 0, sp_next = 0\<rparr>, 0x200 \<mapsto> \<lparr>sp_skb = 2, sp_next = 0x308\<rparr>,
      0x300 \<mapsto> \<lparr>sp_skb = 3, sp_next = n3\<rparr>, 0x400 \<mapsto> \<lparr>sp_skb = 4, sp_next = 0x508\<rparr>,
      0x500 \<mapsto> \<lparr>sp_skb = 5, sp_next = n5\<rparr>]"

definition demo_pool :: "(u64 \<rightharpoonup> skbpool_entry) \<Rightarrow> u64 \<Rightarrow> int \<Rightarrow> skbpool" where
  "demo_pool E first nr =
     \<lparr>entries = E, free_list = 0x100, pool_list = first, nr_skbpool_list = nr, rxq = 0,
      min_skbpool_list = 3, nr_batch_alloc = 2, pool_skbs = {2, 3, 4, 5}, frame_in = (\<lambda>p. [ucast p]),
      work_queued = False, rx_work_queued = False, passed = [], freed = [],
      skbpool_cache = True, skbpool_wq = True, rx_wq = True\<rparr>"

lemmas demo_pool_simps = demo_pool_def demo_entries_def node_of_def NODE_OFF_def

lemma demo_pool_api_ok: "api_ok demo_pool_api"
proof -
  have "case filter P xs of [] \<Rightarrow> z = 0 | p # _ \<Rightarrow> z = p \<Longrightarrow> z \<noteq> 0 \<Longrightarrow> P z \<and> z \<in> set xs" for P xs and z :: u64
    by (cases "filter P xs") (auto dest: filter_eq_ConsD)
  note this [where z = "case filter P xs of [] \<Rightarrow> 0 | p # _ \<Rightarrow> p" for P xs]
  from this [of _ "[0x600, 0x700, 0x800]"] this [of _ "[6, 7, 8]"] show ?thesis
    by (auto simp: api_ok_def demo_pool_api_def node_of_def NODE_OFF_def split: list.splits)
qed

section \<open>Properties\<close>

text \<open>
  C25: the worker refills the pool. It ends without a fault; what it adds goes in front of the pool's
  chain and does not touch any other chain (the receive path's, \<open>rxq\<close>); the counter grows by the
  number of entries added; and it stops below the minimum only where the next allocation fails.
\<close>

theorem worker_refills_pool:
  assumes "api_ok api" "pool_chains s ((pool_list s, xs) # L)"
  shows "\<exists>s' ys. skbpool_worker api s = Inr s' \<and> pool_chains s' ((pool_list s', ys @ xs) # L) \<and>
    nr_skbpool_list s' = nr_skbpool_list s + int (length ys) \<and>
    (0 < nr_batch_alloc s \<longrightarrow> 0 \<le> nr_skbpool_list s \<longrightarrow>
      int (min_skbpool_list s) \<le> nr_skbpool_list s' \<or> fst (skbpool_entry_alloc api s') = 0)"
  by (rule worker_spec [OF assms])

lemma worker_refills_pool_witness:
  "\<exists>s' ys. skbpool_worker demo_pool_api (demo_pool (demo_entries 0 0) 0x208 2) = Inr s' \<and>
    pool_chains s' [(pool_list s', ys @ [0x200, 0x300])] \<and> nr_skbpool_list s' = 2 + int (length ys) \<and>
    (3 \<le> nr_skbpool_list s' \<or> fst (skbpool_entry_alloc demo_pool_api s') = 0)"
  using worker_refills_pool [OF demo_pool_api_ok, of "demo_pool (demo_entries 0 0) 0x208 2" "[0x200, 0x300]" "[]"]
  by (simp add: demo_pool_simps pool_chains_def)

text \<open>
  C26: as a supply of entries, the chain a consumer holds followed by the pool is a queue:
  \<open>skbpool_alloc\<close> gives its first element, links it behind the entry the consumer had, and leaves the
  rest in order, whether or not it had to take the pool; and it keeps every other chain.
\<close>

theorem skbpool_alloc_takes_next:
  assumes "api_ok api" "entries s entry = Some e" "entry \<noteq> 0" "own @ xs \<noteq> []"
    and "pool_chains s ((sp_next e, own) # (pool_list s, xs) # L)"
    and "entry \<notin> set (own @ xs @ concat (map snd L))"
  shows "\<exists>s' e' own' xs'. skbpool_alloc api entry s = Inr (hd (own @ xs), s') \<and>
    entries s' entry = Some e' \<and> sp_skb e' = sp_skb e \<and>
    pool_chains s' ((sp_next e', hd (own @ xs) # own') # (pool_list s', xs') # L) \<and>
    own' @ xs' = tl (own @ xs)"
proof (cases own)
  case (Cons x own')
  then have "sp_next e = node_of x" "node_of x \<noteq> 0" using chains_chain [OF assms(5)] by auto
  then have "skbpool_alloc api entry s = Inr (x, s)"
    using assms(2,3) by (simp add: skbpool_alloc_def skbpool_next_entry_def get_entry_def)
  then show ?thesis using assms(2,5) Cons by auto
next
  case Nil
  then have n: "sp_next e = 0" using chains_chain [OF assms(5)] by simp
  obtain x xs' where xs: "xs = x # xs'" using assms(4) Nil by (cases xs) auto
  obtain p s1 where t: "skbpool_take_all api s = (p, s1)" by fastforce
  have c: "pool_chains s ((pool_list s, xs) # L)" using assms(5) Nil n by simp
  have s1: "p = x" "s1 = s\<lparr>pool_list := 0, nr_skbpool_list := 0\<rparr>" "pool_chains s1 ((node_of x, xs) # L)"
    using take_all_spec [OF assms(1) c t] xs by auto
  let ?s2 = "s1\<lparr>entries := (entries s1)(entry \<mapsto> e\<lparr>sp_next := node_of x\<rparr>)\<rparr>"
  have sn: "set_next entry (node_of x) s1 = Inr ?s2"
    using set_next_Inr [of s1 entry e] assms(2,3) s1(2) by simp
  have "pool_chains ?s2 ((node_of x, xs) # L)"
    using chains_relink_outside [OF s1(3) _ sn] assms(6) Nil by simp
  then have "pool_chains (queue_skbpool_work ?s2) ((node_of x, x # xs') # (pool_list ?s2, []) # L)"
    using xs s1(2) by (simp add: chains_queue_work)
  moreover have "skbpool_alloc api entry s = Inr (x, queue_skbpool_work ?s2)"
    using assms(2,3) n t s1(1) sn by (simp add: skbpool_alloc_def get_entry_def)
  ultimately show ?thesis using Nil xs s1(2)
    by (intro exI [of _ "queue_skbpool_work ?s2"] exI [of _ "e\<lparr>sp_next := node_of x\<rparr>"] exI [of _ xs'] exI [of _ "[]"])
      (simp add: queue_skbpool_work_def)
qed

lemma skbpool_alloc_takes_next_witness:
  "\<exists>s' e' own' xs'. skbpool_alloc demo_pool_api 0x100 (demo_pool (demo_entries 0 0) 0x208 2) = Inr (0x200, s') \<and>
    entries s' 0x100 = Some e' \<and> pool_chains s' [(sp_next e', 0x200 # own'), (pool_list s', xs')] \<and>
    own' @ xs' = [0x300]"
  using skbpool_alloc_takes_next [OF demo_pool_api_ok, of "demo_pool (demo_entries 0 0) 0x208 2" "0x100"
      "\<lparr>sp_skb = 0, sp_next = 0\<rparr>" "[]" "[0x200, 0x300]" "[]"]
  by (auto simp: demo_pool_simps pool_chains_def)

text \<open>
  C27: running out of memory once poisons the pool. \<open>skbpool_alloc\<close> links the result of a failed
  allocation like any other, and the node of a null entry is not null. So if the chain and the pool
  are at their end and no memory is left while the packets of a buffer are delivered, the delivery
  loses the packets without a fault, but the next delivery, of any buffer and with any memory, reads
  through a null pointer when it prefetches.
\<close>

theorem failed_alloc_crashes_next_delivery:
  assumes "\<forall>s. pa_entry api s = 0" "pool_list s = 0"
    and "entries s (free_list s) = Some e" "free_list s \<noteq> 0" "sp_next e = 0"
    and "LBUF_PKT_LEN b i = Inr len" "60 \<le> len" "len \<le> 1518"
    and "pool_deliver_packets api b i nr s = Inr (n, s')"
  shows "n = 0 \<and> pool_deliver_packets api' b' i' nr' s' = Inl NullDeref"
proof -
  let ?fl = "free_list s" and ?L0 = "(free_list s, 0, 0, 0) :: pool_locals"
  let ?s1 = "queue_skbpool_work (s\<lparr>entries := (entries s)(?fl \<mapsto> e\<lparr>sp_next := node_of 0\<rparr>)\<rparr>)"
  have g: "get_entry ?fl s = Inr e" using assms(3,4) by (simp add: get_entry_def)
  have "skbpool_alloc api ?fl s = Inr (0, ?s1)"
    using g assms(4,5) alloc_no_memory [OF assms(1,2)] set_next_Inr [OF assms(3,4)]
    by (simp add: skbpool_alloc_def)
  then have d: "pool_deliver_one api b i len ?L0 s = Inr ((0, 0, 0, 0), ?s1)"
    using assms(7,8) by (auto simp: pool_deliver_one_def)
  have pf: "skbpool_prefetch_next ?fl s = Inr ()"
    using g assms(5) by (simp add: skbpool_prefetch_next_def)
  obtain L' s2 where r: "pool_deliver_from api b i nr ?L0 s = Inr (L', s2)"
    using assms(9) by (auto simp: pool_deliver_packets_def rbind_eq_Inr)
  let ?j = "LBUF_NEXT_DWORD_IDX i len"
  have u: "(if ?j < nr then pool_deliver_from api b ?j nr (0, 0, 0, 0) ?s1 else Inr ((0, 0, 0, 0), ?s1)) =
      Inr (L', s2)"
    using r pf d assms(6) by (simp add: pool_deliver_from.simps [of api b i] Let_def)
  have pl: "pool_list ?s1 = 0" using assms(2) by (simp add: queue_skbpool_work_def)
  have s2: "L' = (0, 0, 0, 0)" "entries s2 = entries ?s1" "free_list s2 = free_list ?s1"
    using u deliver_no_memory [OF assms(1) _ refl pl, of b ?j nr L' s2] by (auto split: if_splits)
  then have s': "n = 0" "s' = s2" using assms(9) r by (simp_all add: pool_deliver_packets_def)
  have "entries s' (free_list s') = Some (e\<lparr>sp_next := node_of 0\<rparr>)" "free_list s' \<noteq> 0"
    using s2 s' assms(4) by (simp_all add: queue_skbpool_work_def)
  then have "skbpool_prefetch_next (free_list s') s' = Inl NullDeref"
    by (simp add: skbpool_prefetch_next_def get_entry_def node_of_def NODE_OFF_def llist_entry_def)
  then show ?thesis using s'(1)
    by (simp add: pool_deliver_packets_def pool_deliver_from.simps [of api' b' i'])
qed

lemma failed_alloc_crashes_next_delivery_witness:
  "\<exists>n s'. pool_deliver_packets no_memory_api one_frame 0 2
      (demo_pool (demo_entries 0 0) 0 0) = Inr (n, s') \<and> n = 0 \<and>
    pool_deliver_packets demo_pool_api one_frame 0 2 s' = Inl NullDeref"
proof -
  let ?s = "demo_pool (demo_entries 0 0) 0 0"
  have len: "LBUF_PKT_LEN one_frame 0 = Inr 64" by (simp add: LBUF_PKT_LEN_def lbuf_read_def one_frame_def)
  have none: "pa_entry no_memory_api s = 0" for s by (simp add: no_memory_api_def)
  obtain n s' where r: "pool_deliver_packets no_memory_api one_frame 0 2 ?s = Inr (n, s')"
    using none by (simp add: pool_deliver_packets_def pool_deliver_from.simps [of no_memory_api one_frame 0] len
        pool_deliver_one_def skbpool_alloc_def skbpool_take_all_def skbpool_entry_alloc_def skbpool_del_all_def
        skbpool_prefetch_next_def get_entry_def set_next_def demo_pool_simps LBUF_NEXT_DWORD_IDX_def)
  have "n = 0 \<and> pool_deliver_packets demo_pool_api one_frame 0 2 s' = Inl NullDeref"
    by (rule failed_alloc_crashes_next_delivery [OF _ _ _ _ _ len _ _ r, of "\<lparr>sp_skb = 0, sp_next = 0\<rparr>"])
      (simp_all add: no_memory_api_def demo_pool_simps)
  then show ?thesis using r by blast
qed

text \<open>
  Purging a list frees each of its entries and the socket buffer in each, once, in order, and
  nothing else.
\<close>

theorem purge_frees_each_once:
  assumes "pool_chains s ((head, ps) # L)"
  shows "\<exists>s'. skbpool_purge_head head s = Some (Inr s') \<and> entries s' = entries s |` (- set ps) \<and>
    freed s' = freed s @ skbs_of (entries s) ps \<and> distinct (skbs_of (entries s) ps) \<and>
    set (skbs_of (entries s) ps) \<subseteq> pool_skbs s \<and> pool_skbs s' = pool_skbs s - set (skbs_of (entries s) ps)"
proof -
  have c: "chain (entries s) head ps" and d: "distinct ps" and k: "distinct (skbs_of (entries s) ps)"
    "set (skbs_of (entries s) ps) \<subseteq> pool_skbs s - {0}"
    using assms by (auto simp: pool_chains_def)
  have z: "0 \<notin> set (skbs_of (entries s) ps)" using k(2) by auto
  show ?thesis
  proof (cases ps)
    case Nil
    then show ?thesis using c by (simp add: skbpool_purge_head_def skbpool_del_all_def restrict_map_def)
  next
    case (Cons p ps')
    then have h: "head = node_of p" "p \<noteq> 0" "node_of p \<noteq> 0" using c by auto
    have "for_each_entry purge_entry head s = Some (Inr (each purge_entry ps s))"
      by (rule for_each_entry_chain [OF _ c d]) simp
    then show ?thesis using each_purge [OF d z] h k
      by (simp add: skbpool_purge_head_def skbpool_del_all_def skbpool_purge_def subset_Diff_insert)
  qed
qed

lemma purge_frees_each_once_witness:
  "\<exists>s'. skbpool_purge_head 0x208 (demo_pool (demo_entries 0 0) 0x208 2) = Some (Inr s') \<and>
    freed s' = [2, 3] \<and> pool_skbs s' = {4, 5} \<and> entries s' 0x200 = None \<and> entries s' 0x300 = None"
  using purge_frees_each_once [of "demo_pool (demo_entries 0 0) 0x208 2" "0x208" "[0x200, 0x300]" "[]"]
  by (auto simp: demo_pool_simps pool_chains_def restrict_map_def)

text \<open>
  C28: buffers can overtake each other. If two buffers are delivered before the worker runs, it passes
  the frames of the second one to the network stack before those of the first: the batches are pushed
  in front of \<open>rxq\<close> and taken from the front.
\<close>

theorem later_batch_overtakes:
  assumes "pool_chains s ((node_of (hd as), as @ bs @ own) # L)" "as \<noteq> []" "bs \<noteq> []" "rxq s = 0"
    and "free_list s \<notin> set (as @ bs @ own @ concat (map snd L))"
  shows "\<exists>s1 s2 s3. pool_hand_over (hd as) (last as) s = Inr s1 \<and>
    pool_hand_over (hd bs) (last bs) s1 = Inr s2 \<and> nf10_lbuf_rx_worker s2 = Some (Inr s3) \<and>
    passed s3 = passed s @ frames_in s bs @ frames_in s as"
proof -
  have "last as \<in> set as" using assms(2) by simp
  then obtain e where e: "entries s (last as) = Some e" using chains_dom [OF assms(1)] by fastforce
  have "pool_chains s ((node_of (hd as), as @ bs @ own) # (rxq s, []) # L)" using assms(1,4) by simp
  from hand_over_spec [OF this assms(2) _ e] assms(5) obtain s1 where
    s1: "pool_hand_over (hd as) (last as) s = Inr s1" "pool_chains s1 ((rxq s1, as) # (sp_next e, bs @ own) # L)"
      "passed s1 = passed s" "free_list s1 = free_list s" "frame_in s1 = frame_in s"
      "\<forall>ps. free_list s \<notin> set ps \<longrightarrow> skbs_of (entries s1) ps = skbs_of (entries s) ps" by auto
  have c: "pool_chains s1 ((sp_next e, bs @ own) # (rxq s1, as) # L)"
    using s1(2) by (simp add: chains_swap)
  then have n: "sp_next e = node_of (hd bs)" using chains_chain [OF c] assms(3) by (cases bs) auto
  have "last bs \<in> set bs" using assms(3) by simp
  then obtain e1 where "entries s1 (last bs) = Some e1" using chains_dom [OF c] by fastforce
  from hand_over_spec [OF c [unfolded n] assms(3) _ this] assms(5) s1(4) obtain s2 where
    s2: "pool_hand_over (hd bs) (last bs) s1 = Inr s2" "pool_chains s2 ((rxq s2, bs @ as) # (sp_next e1, own) # L)"
      "passed s2 = passed s1" "frame_in s2 = frame_in s1"
      "\<forall>ps. free_list s \<notin> set ps \<longrightarrow> skbs_of (entries s2) ps = skbs_of (entries s1) ps" by auto
  obtain s3 where "nf10_lbuf_rx_worker s2 = Some (Inr s3)" "passed s3 = passed s2 @ frames_in s2 (bs @ as)"
    using rx_worker_spec [OF s2(2)] by blast
  moreover have "frames_in s2 (bs @ as) = frames_in s bs @ frames_in s as"
    using s1(5,6) s2(4,5) assms(5) by (simp add: frames_in_def)
  ultimately show ?thesis using s1 s2 by auto
qed

lemma later_batch_overtakes_witness:
  "\<exists>s1 s2 s3. pool_hand_over 0x200 0x300 (demo_pool (demo_entries 0x408 0) 0 0) = Inr s1 \<and>
    pool_hand_over 0x400 0x500 s1 = Inr s2 \<and> nf10_lbuf_rx_worker s2 = Some (Inr s3) \<and>
    passed s3 = [[4], [5], [2], [3]]"
  using later_batch_overtakes [of "demo_pool (demo_entries 0x408 0) 0 0" "[0x200, 0x300]" "[0x400, 0x500]" "[]" "[]"]
  by (auto simp: demo_pool_simps pool_chains_def frames_in_def)

text \<open>
  C29: unloading the module after packets have been delivered frees a socket buffer the network stack
  owns. The delivery leaves a copy of its last entry, with the pointer to its socket buffer, in the
  static \<open>skb_free_list\<close>; the worker passes that buffer to the stack. When the module is then unloaded,
  with no refill of the pool queued, \<open>nf10_lbuf_free\<close> purges \<open>skb_free_list\<close>: what it frees is, first of
  all, that buffer, then the rest of the chain and of the pool; and it gives the static entry to the
  slab allocator.
\<close>

theorem unload_frees_passed_skb:
  assumes "pool_chains s ((node_of (hd as), as @ own) # (rxq s, rs) # (pool_list s, qs) # L)" "as \<noteq> []"
    and "free_list s \<notin> set (as @ own @ rs @ qs @ concat (map snd L))" "entries s (last as) = Some e"
    and "free_list s \<noteq> 0" "node_of (free_list s) \<noteq> 0" "\<not> work_queued s"
  shows "\<exists>s1 s2 s3. pool_hand_over (hd as) (last as) s = Inr s1 \<and> nf10_lbuf_rx_worker s1 = Some (Inr s2) \<and>
    frame_in s (sp_skb e) \<in> set (passed s2) \<and> sp_skb e \<notin> pool_skbs s2 \<and> freed s2 = freed s \<and>
    nf10_lbuf_free_pool api s2 = Some (Inr s3) \<and>
    freed s3 = freed s2 @ sp_skb e # skbs_of (entries s) own @ skbs_of (entries s) qs \<and>
    free_list s \<notin> dom (entries s3)"
proof -
  let ?fl = "free_list s"
  have nfl: "?fl \<notin> set (as @ own @ rs @ concat (map snd ((pool_list s, qs) # L)))" using assms(3) by simp
  obtain s1 where s1: "pool_hand_over (hd as) (last as) s = Inr s1"
    "pool_chains s1 ((rxq s1, as @ rs) # (sp_next e, own) # (pool_list s, qs) # L)" "entries s1 ?fl = Some e"
    "passed s1 = passed s" "frame_in s1 = frame_in s" "free_list s1 = ?fl" "freed s1 = freed s"
    "pool_list s1 = pool_list s" "\<not> work_queued s1"
    "\<forall>ps. ?fl \<notin> set ps \<longrightarrow> skbs_of (entries s1) ps = skbs_of (entries s) ps"
    using hand_over_spec [OF assms(1,2) nfl assms(4)] assms(7) by auto
  obtain s2 where s2: "nf10_lbuf_rx_worker s1 = Some (Inr s2)" "passed s2 = passed s1 @ frames_in s1 (as @ rs)"
    "entries s2 = entries s1 |` (- set (as @ rs))"
    "pool_skbs s2 = pool_skbs s1 - set (skbs_of (entries s1) (as @ rs))" "freed s2 = freed s1"
    "free_list s2 = free_list s1" "rxq s2 = 0" "\<not> rx_work_queued s2" "pool_list s2 = pool_list s1"
    "work_queued s2 = work_queued s1"
    using rx_worker_spec [OF s1(2)] by blast
  have "sp_skb e \<in> set (skbs_of (entries s) as)"
    using last_in_set [OF assms(2)] assms(4) by (auto simp: skbs_of_def intro!: image_eqI [where x = "last as"])
  then have k: "sp_skb e \<in> set (skbs_of (entries s1) (as @ rs))" using s1(10) assms(3) by simp
  have c1: "chain (entries s1) (sp_next e) own" "chain (entries s1) (pool_list s) qs"
    and d: "distinct own" "distinct qs" "set own \<inter> set qs = {}" "(set own \<union> set qs) \<inter> set (as @ rs) = {}"
    and z: "0 \<notin> set (skbs_of (entries s1) (own @ qs))" "0 \<notin> set (skbs_of (entries s1) (as @ rs))"
    using s1(2) by (auto simp: pool_chains_def)
  have same: "entries s2 q = entries s1 q" if "q \<notin> set (as @ rs)" for q using s2(3) that by (simp add: restrict_map_def)
  have fl: "entries s2 ?fl = Some e" using same [of ?fl] s1(3) assms(3) by simp
  have keep: "skbs_of (entries s2) own = skbs_of (entries s) own" "skbs_of (entries s2) qs = skbs_of (entries s) qs"
    "skbs_of (entries s1) own = skbs_of (entries s) own" "skbs_of (entries s1) qs = skbs_of (entries s) qs"
    using skbs_of_cong [of own "entries s2" "entries s1"] skbs_of_cong [of qs "entries s2" "entries s1"]
      same d(4) s1(10) assms(3) by auto
  let ?t = "each purge_entry (?fl # own) s2"
  have "chain (entries s2) (sp_next e) own = chain (entries s1) (sp_next e) own"
    using d(4) by (intro chain_cong same) auto
  then have c2: "chain (entries s2) (node_of ?fl) (?fl # own)" using c1(1) fl assms(5,6) by simp
  have d2: "distinct (?fl # own)" using d(1) assms(3) by simp
  have "sp_skb e \<noteq> 0" using k z(2) by metis
  then have z2: "0 \<notin> set (skbs_of (entries s2) (?fl # own))" using z(1) fl keep by simp
  have "for_each_entry purge_entry (node_of ?fl) s2 = Some (Inr ?t)"
    by (rule for_each_entry_chain [OF _ c2 d2]) simp
  then have p1: "skbpool_purge (free_list s2) s2 = Some (Inr ?t)"
    using assms(5) s1(6) s2(6) by (simp add: skbpool_purge_def)
  have t: "rxq ?t = 0" "\<not> rx_work_queued ?t" "pool_list ?t = pool_list s" "\<not> work_queued ?t"
    using each_purge_keeps [of "?fl # own" s2] s2(7-10) s1(8,9) by (simp_all del: each_simps)
  note e1 = each_purge [OF d2 z2]
  let ?u = "?t\<lparr>rxq := 0, skbpool_wq := False, pool_list := 0\<rparr>"
  have sq: "entries ?u q = entries s1 q" if "q \<in> set qs" for q
    using e1 that same [of q] d(3,4) assms(3) by (auto simp: restrict_map_def)
  have "chain (entries ?u) (pool_list s) qs = chain (entries s1) (pool_list s) qs"
    by (intro chain_cong sq) auto
  then have p2: "skbpool_purge_head (pool_list s) ?u = Some (Inr (each purge_entry qs ?u))"
    using c1(2) d(2) by (intro purge_head_chain) simp_all
  have sk: "skbs_of (entries ?u) qs = skbs_of (entries s) qs"
    using skbs_of_cong [of qs "entries ?u" "entries s1"] sq keep(4) by auto
  then have z3: "0 \<notin> set (skbs_of (entries ?u) qs)" using z(1) keep(4) by simp
  note e2 = each_purge [OF d(2) z3]
  let ?w = "each purge_entry qs ?u"
  have r: "\<not> rx_work_queued ?w" using each_purge_keeps(2) [of qs ?u] t(2) by (simp del: each_simps)
  obtain s3 where s3: "nf10_lbuf_free_pool api s2 = Some (Inr s3)" "entries s3 = entries ?w" "freed s3 = freed ?w"
    using p1 p2 t r by (simp add: nf10_lbuf_free_pool_def pbind_def skbpool_purge_head_def [of 0] skbpool_del_all_def
        skbpool_destroy_def destroy_skbpool_wq_def destroy_rx_wq_def)
  have "freed s3 = freed s2 @ sp_skb e # skbs_of (entries s) own @ skbs_of (entries s) qs"
    using s3(3) e1 e2 sk fl keep(1) by simp
  moreover have "?fl \<notin> dom (entries s3)" using s3(2) e1 e2 by (simp add: domIff restrict_map_def)
  moreover have "frame_in s (sp_skb e) \<in> set (passed s2)"
    using s2(2) k s1(5) by (auto simp: frames_in_def)
  moreover have "sp_skb e \<notin> pool_skbs s2" using s2(4) k by simp
  ultimately show ?thesis using s1(1,7) s2(1,5) s3(1) by auto
qed

lemma unload_frees_passed_skb_witness:
  "\<exists>s1 s2 s3. pool_hand_over 0x200 0x300 (demo_pool (demo_entries 0x408 0) 0 0) = Inr s1 \<and>
    nf10_lbuf_rx_worker s1 = Some (Inr s2) \<and> [3] \<in> set (passed s2) \<and> 3 \<notin> pool_skbs s2 \<and> freed s2 = [] \<and>
    nf10_lbuf_free_pool demo_pool_api s2 = Some (Inr s3) \<and> freed s3 = [3, 4, 5]"
proof -
  let ?s = "demo_pool (demo_entries 0x408 0) 0 0" and ?e = "\<lparr>sp_skb = 3, sp_next = 0x408\<rparr>"
  have "\<exists>s1 s2 s3. pool_hand_over (hd [0x200, 0x300]) (last [0x200, 0x300]) ?s = Inr s1 \<and>
    nf10_lbuf_rx_worker s1 = Some (Inr s2) \<and> frame_in ?s (sp_skb ?e) \<in> set (passed s2) \<and>
    sp_skb ?e \<notin> pool_skbs s2 \<and> freed s2 = freed ?s \<and> nf10_lbuf_free_pool demo_pool_api s2 = Some (Inr s3) \<and>
    freed s3 = freed s2 @ sp_skb ?e # skbs_of (entries ?s) [0x400, 0x500] @ skbs_of (entries ?s) [] \<and>
    free_list ?s \<notin> dom (entries s3)"
    by (rule unload_frees_passed_skb [of _ _ _ "[]" _ "[]"]) (auto simp: demo_pool_simps pool_chains_def)
  then show ?thesis by (simp add: demo_pool_def demo_entries_def) (elim exE conjE, intro exI conjI; simp)
qed

end
