(* ===== verification/Xenvif.thy ===== *)
theory Xenvif
  imports Lbuf_Rx
begin

text \<open>
  The data path of the Xen back end, the second half of \<open>sw/driver/xen_nfback.c\<close>: a kernel thread
  takes filled buffers from the queue \<open>rx_buf_head\<close>, cuts them into pages, copies each page into a
  page the guest has granted through a request on the shared ring, answers the requests, and releases
  the buffers that are done. The guest writes the shared ring at any time and need not keep its
  protocol.
\<close>

section \<open>State\<close>

text \<open>
  \<open>XEN_NETIF_RX_RING_SIZE\<close> is \<open>__CONST_RING_SIZE(xen_netif_rx, PAGE_SIZE)\<close>: the largest power of two of
  8-byte entries in a page with a header of 64 bytes.
\<close>

definition XEN_NETIF_RX_RING_SIZE :: nat where "XEN_NETIF_RX_RING_SIZE = 256"

definition MAX_GRANT_COPY_OPS :: nat where "MAX_GRANT_COPY_OPS = 1 * XEN_NETIF_RX_RING_SIZE"

definition PAGE_SIZE :: u32 where "PAGE_SIZE = 4096"

text \<open>A request of the guest (its id and the reference of the granted page) and a response to it.\<close>

record rx_request =
  rq_id :: u16
  rq_gref :: u32

record rx_response =
  rs_id :: u16
  rs_offset :: u16
  rs_flags :: u16
  rs_status :: u16

text \<open>One grant copy: its length, the source frame, and the granted page of the guest.\<close>

record gnttab_copy =
  gc_len :: u32
  gc_gmfn :: u64
  gc_domid :: u16
  gc_ref :: u32

text \<open>
  \<open>struct xenvif\<close> with the shared ring: \<open>req_prod\<close>, \<open>req_event\<close>, \<open>rsp_prod\<close>, the slots of the requests and
  those of the responses are in the shared page, of which the guest writes \<open>req_prod\<close> and the requests;
  \<open>req_cons\<close> and \<open>rsp_prod_pvt\<close> are the back end's own. \<open>copied\<close> are the copies the hypervisor has been
  asked for and \<open>notified\<close> counts the events sent to the guest. The queue \<open>rx_buf_head\<close> is in the
  state \<open>nic\<close>, where the receive path puts buffers.
\<close>

record xenvif =
  domid :: u16
  handle :: int
  task :: bool
  tx_irq :: u32
  tx_sring :: u64
  rx_irq :: u32
  rx_sring :: u64
  rx_last_slots :: u32
  req_prod :: u32
  req_event :: u32
  rsp_prod :: u32
  requests :: "nat \<Rightarrow> rx_request"
  responses :: "nat \<Rightarrow> rx_response"
  req_cons :: u32
  rsp_prod_pvt :: u32
  copied :: "gnttab_copy list"
  notified :: nat

text \<open>
  What the thread meets: \<open>xf_req_prod\<close> is the guest's \<open>req_prod\<close> when it is read again after \<open>req_event\<close>
  has been published; \<open>xf_copy_okay\<close> is whether the hypervisor reports \<open>GNTST_okay\<close> for a copy;
  \<open>xf_notify\<close> is whether \<open>RING_PUSH_RESPONSES_AND_CHECK_NOTIFY\<close> asks for an event; \<open>virt_to_mfn\<close> gives
  the machine frame of a kernel address.
\<close>

record xen_front =
  xf_req_prod :: "xenvif \<Rightarrow> u32"
  xf_copy_okay :: "gnttab_copy \<Rightarrow> bool"
  xf_notify :: "xenvif \<Rightarrow> bool"
  virt_to_mfn :: "u64 \<Rightarrow> u64"

section \<open>The shared ring\<close>

definition ring_slot :: "u32 \<Rightarrow> nat" where
  "ring_slot i = unat i mod XEN_NETIF_RX_RING_SIZE"

text \<open>The loop goes on as long as the guest changes \<open>req_prod\<close> without adding enough.\<close>

partial_function (option) xenvif_rx_ring_slots_available ::
  "xen_front \<Rightarrow> u32 \<Rightarrow> xenvif \<Rightarrow> (bool \<times> xenvif) option" where
  "xenvif_rx_ring_slots_available xf needed v =
     (let prod = req_prod v; cons = req_cons v
      in if needed \<le> prod - cons then Some (True, v)
         else let v1 = v\<lparr>req_event := prod + 1\<rparr>;
                  v2 = v1\<lparr>req_prod := xf_req_prod xf v1\<rparr>
              in if req_prod v2 \<noteq> prod then xenvif_rx_ring_slots_available xf needed v2
                 else Some (False, v2))"

text \<open>\<open>st\<close> is an \<open>s8\<close>, \<open>size\<close> a \<open>u16\<close>; both are stored in the 16 bits of the status.\<close>

definition make_rx_response :: "u16 \<Rightarrow> int \<Rightarrow> u16 \<Rightarrow> u16 \<Rightarrow> u16 \<Rightarrow> xenvif \<Rightarrow> xenvif" where
  "make_rx_response i st offset sz flags v =
     v\<lparr>responses := (responses v)(ring_slot (rsp_prod_pvt v) :=
         \<lparr>rs_id = i, rs_offset = offset, rs_flags = flags,
          rs_status = if st < 0 then of_int st else sz\<rparr>),
       rsp_prod_pvt := rsp_prod_pvt v + 1\<rparr>"

section \<open>Interrupts\<close>

definition xenvif_kick_thread :: "nic \<Rightarrow> nic" where
  "xenvif_kick_thread s = emit XenKick s"

definition xenvif_tx_interrupt :: "nic \<Rightarrow> nic" where
  "xenvif_tx_interrupt s = s"

definition xenvif_rx_interrupt :: "nic \<Rightarrow> nic" where
  "xenvif_rx_interrupt s = xenvif_kick_thread s"

definition xenvif_interrupt :: "nic \<Rightarrow> nic" where
  "xenvif_interrupt s = xenvif_rx_interrupt (xenvif_tx_interrupt s)"

section \<open>Copying buffers to the guest\<close>

text \<open>
  An entry of \<open>meta\<close> with the copy beside it in \<open>grant_copy_op\<close>; both arrays have 256 entries and are
  filled from the beginning, so \<open>copy_prod\<close> is the length of the list. \<open>bytes\<close> is the smaller of what
  remains of the buffer and a page.
\<close>

type_synonym copy_op = "u16 \<times> u32 \<times> gnttab_copy"

definition fill_one ::
  "xen_front \<Rightarrow> desc \<Rightarrow> copy_op list \<Rightarrow> xenvif \<Rightarrow> fault + desc \<times> copy_op list \<times> xenvif" where
  "fill_one xf d ops v =
     (let buf_addr = kern_addr d + ucast (desc_offset d);
          remaining_size = desc_size d - desc_offset d;
          req = requests v (ring_slot (req_cons v));
          v1 = v\<lparr>req_cons := req_cons v + 1\<rparr>;
          bytes = (if remaining_size < PAGE_SIZE then remaining_size else PAGE_SIZE);
          copy = \<lparr>gc_len = bytes, gc_gmfn = virt_to_mfn xf buf_addr, gc_domid = domid v1,
                  gc_ref = rq_gref req\<rparr>
      in if XEN_NETIF_RX_RING_SIZE \<le> length ops then Inl (OutOfBounds (length ops))
         else Inr (d\<lparr>desc_offset := desc_offset d + bytes\<rparr>, ops @ [(rq_id req, bytes, copy)], v1))"

text \<open>The loop over one buffer: whether it is finished, and the buffer with its new offset.\<close>

function fill_desc ::
  "xen_front \<Rightarrow> desc \<Rightarrow> copy_op list \<Rightarrow> xenvif \<Rightarrow>
   (fault + bool \<times> desc \<times> copy_op list \<times> xenvif) option" where
  "fill_desc xf d ops v =
     (if desc_offset d < desc_size d then
        Option.bind (xenvif_rx_ring_slots_available xf 1 v) (\<lambda>(avail, v1).
          if \<not> avail then Some (Inr (False, d, ops, v1\<lparr>rx_last_slots := 1\<rparr>))
          else case fill_one xf d ops v1 of
                 Inl e \<Rightarrow> Some (Inl e)
               | Inr (d1, ops1, v2) \<Rightarrow> fill_desc xf d1 ops1 v2)
      else Some (Inr (True, d, ops, v)))"
  by pat_completeness auto
termination
proof (relation "measure (\<lambda>(xf, d, ops, v). unat (desc_size d) - unat (desc_offset d))")
  fix xf d ops v x avail v1 b d1 y ops1 v2
  assume lt: "desc_offset d < desc_size d" and r: "fill_one xf d ops v1 = Inr b" "(d1, y) = b"
  have s: "unat (desc_size d - desc_offset d) = unat (desc_size d) - unat (desc_offset d)"
    using lt by (simp add: unat_sub)
  define n where "n = (if desc_size d - desc_offset d < PAGE_SIZE then desc_size d - desc_offset d else PAGE_SIZE)"
  have n: "0 < unat n" "unat n \<le> unat (desc_size d) - unat (desc_offset d)"
    using lt s by (auto simp: n_def PAGE_SIZE_def word_less_nat_alt)
  have "d1 = d\<lparr>desc_offset := desc_offset d + n\<rparr>"
    using r by (auto simp: fill_one_def Let_def n_def split: if_splits)
  moreover have "unat (desc_offset d + n) = unat (desc_offset d) + unat n"
    using n(2) lt unat_lt_pow [of "desc_size d"] by (intro unat_add_no_wrap) (simp add: word_less_nat_alt)
  ultimately show "((xf, d1, ops1, v2), xf, d, ops, v) \<in>
      measure (\<lambda>(xf, d, ops, v). unat (desc_size d) - unat (desc_offset d))"
    using n lt by (simp add: word_less_nat_alt)
qed simp

declare fill_desc.simps [simp del]

text \<open>
  The loop over the queue. A buffer that cannot be finished is put back at the head. The result is the
  queue left, the buffers finished (the local list \<open>rxq\<close>), the copies and the interface.
\<close>

fun fill_queue ::
  "xen_front \<Rightarrow> lbuf_head \<Rightarrow> lbuf_head \<Rightarrow> copy_op list \<Rightarrow> xenvif \<Rightarrow>
   (fault + lbuf_head \<times> lbuf_head \<times> copy_op list \<times> xenvif) option" where
  "fill_queue xf [] rxq ops v = Some (Inr ([], rxq, ops, v))"
| "fill_queue xf ((p, d) # rest) rxq ops v =
     Option.bind (fill_desc xf d ops v) (\<lambda>r.
       case r of
         Inl e \<Rightarrow> Some (Inl e)
       | Inr (finished, d1, ops1, v1) \<Rightarrow>
           if finished then fill_queue xf rest (lbuf_queue_tail (p, d1) rxq) ops1 v1
           else Some (Inr (lbuf_queue_head (p, d1) rest, rxq, ops1, v1)))"

text \<open>The responses: \<open>XEN_NETIF_RSP_OKAY\<close> is 0 and \<open>XEN_NETIF_RSP_ERROR\<close> is -1.\<close>

fun respond :: "xen_front \<Rightarrow> copy_op list \<Rightarrow> bool \<Rightarrow> xenvif \<Rightarrow> bool \<times> xenvif" where
  "respond xf [] need_to_notify v = (need_to_notify, v)"
| "respond xf ((i, sz, copy) # ops) need_to_notify v =
     (let status = (if xf_copy_okay xf copy then 0 else - 1);
          v1 = make_rx_response i status 0 (ucast sz) 0 v;
          ret = xf_notify xf v1;
          v2 = v1\<lparr>rsp_prod := rsp_prod_pvt v1\<rparr>
      in respond xf ops (need_to_notify \<or> ret) v2)"

definition xenvif_rx_action ::
  "config \<Rightarrow> xen_front \<Rightarrow> xenvif \<Rightarrow> nic \<Rightarrow> (fault + xenvif \<times> nic) option" where
  "xenvif_rx_action cfg xf v s =
     map_option (\<lambda>r.
       rbind r (\<lambda>(rest, rxq, ops, v1).
         if MAX_GRANT_COPY_OPS < length ops then Inl KernelBug
         else let v2 = v1\<lparr>copied := copied v1 @ map (\<lambda>(i, sz, copy). copy) ops\<rparr>;
                  (need_to_notify, v3) = respond xf ops False v2;
                  v4 = (if need_to_notify then v3\<lparr>notified := notified v3 + 1\<rparr> else v3)
              in Inr (v4, fold (release_lbuf cfg) rxq (s\<lparr>rx_buf_head := rest\<rparr>))))
       (fill_queue xf (rx_buf_head s) lbuf_head_init [] v)"

section \<open>The thread\<close>

definition rx_work_todo :: "xen_front \<Rightarrow> xenvif \<Rightarrow> nic \<Rightarrow> (bool \<times> xenvif) option" where
  "rx_work_todo xf v s =
     map_option (\<lambda>(avail, v1). (\<not> lbuf_queue_empty (rx_buf_head s) \<and> avail, v1))
       (xenvif_rx_ring_slots_available xf (rx_last_slots v) v)"

text \<open>One turn of the loop, when the thread is woken and not to stop.\<close>

definition kthread_turn ::
  "config \<Rightarrow> xen_front \<Rightarrow> xenvif \<Rightarrow> nic \<Rightarrow> (fault + xenvif \<times> nic) option" where
  "kthread_turn cfg xf v s =
     Option.bind (rx_work_todo xf v s) (\<lambda>(todo, v1).
       if todo \<and> \<not> lbuf_queue_empty (rx_buf_head s) then xenvif_rx_action cfg xf v1 s
       else Some (Inr (v1, s)))"

definition bin_remaining :: "config \<Rightarrow> nic \<Rightarrow> nic" where
  "bin_remaining cfg s = fold (release_lbuf cfg) (rx_buf_head s) (s\<lparr>rx_buf_head := []\<rparr>)"

text \<open>
  A run of the thread: at each wake-up the guest and the receive path have changed what they share
  with it (the function), and the guest behaves as the \<open>xen_front\<close> says; after the last one the
  thread is told to stop.
\<close>

type_synonym wakeup = "(xenvif \<times> nic \<Rightarrow> xenvif \<times> nic) \<times> xen_front"

fun xenvif_kthread :: "config \<Rightarrow> wakeup list \<Rightarrow> xenvif \<Rightarrow> nic \<Rightarrow> (fault + xenvif \<times> nic) option" where
  "xenvif_kthread cfg [] v s = Some (Inr (v, bin_remaining cfg s))"
| "xenvif_kthread cfg ((meantime, xf) # ws) v s =
     (let (v1, s1) = meantime (v, s)
      in Option.bind (kthread_turn cfg xf v1 s1) (\<lambda>r.
           case r of Inl e \<Rightarrow> Some (Inl e) | Inr (v2, s2) \<Rightarrow> xenvif_kthread cfg ws v2 s2))"

section \<open>Buffers as pages\<close>

text \<open>
  The specification of the data path: a buffer is the list of its pages from its offset on, each an
  address and a length, and a queue the pages of its buffers in order.
\<close>

function pages_from :: "u64 \<Rightarrow> nat \<Rightarrow> nat \<Rightarrow> (u64 \<times> nat) list" where
  "pages_from a off sz =
     (if off < sz then (a + of_nat off, min (sz - off) 4096) # pages_from a (off + min (sz - off) 4096) sz
      else [])"
  by pat_completeness auto
termination by (relation "measure (\<lambda>(a, off, sz). sz - off)") auto

declare pages_from.simps [simp del]

definition desc_pages :: "desc \<Rightarrow> (u64 \<times> nat) list" where
  "desc_pages d = pages_from (kern_addr d) (unat (desc_offset d)) (unat (desc_size d))"

definition queue_pages :: "lbuf_head \<Rightarrow> (u64 \<times> nat) list" where
  "queue_pages q = concat (map (\<lambda>(p, d). desc_pages d) q)"

lemma queue_pages_simps [simp]:
  "queue_pages [] = []" "queue_pages ((p, d) # q) = desc_pages d @ queue_pages q"
  "queue_pages (q @ r) = queue_pages q @ queue_pages r"
  by (simp_all add: queue_pages_def)

text \<open>The pages of a buffer are its bytes, each once and in order.\<close>

lemma pages_cover:
  "concat (map (\<lambda>(b, n). map (\<lambda>i. b + of_nat i) [0..<n]) (pages_from a off sz)) =
    map (\<lambda>i. a + of_nat i) [off..<sz]"
proof (induction a off sz rule: pages_from.induct)
  case (1 a off sz)
  show ?case
  proof (cases "off < sz")
    case True
    define n where "n = min (sz - off) 4096"
    have n: "off + n \<le> sz" using True by (simp add: n_def)
    have "map (\<lambda>i. a + of_nat off + of_nat i) [0..<n] = map (\<lambda>i. a + of_nat i) [off..<off + n]"
      by (rule nth_equalityI) (simp_all add: add.assoc)
    moreover have "[off..<sz] = [off..<off + n] @ [off + n..<sz]" using n upt_add_eq_append [of off "off + n" "sz - (off + n)"] by simp
    ultimately show ?thesis using 1 True by (simp add: pages_from.simps [of a off sz] n_def [symmetric])
  qed (simp add: pages_from.simps [of a off sz])
qed

text \<open>The copies and responses for a list of pages, with the requests from ring index \<open>j\<close> on.\<close>

fun ops_for :: "xen_front \<Rightarrow> u16 \<Rightarrow> (nat \<Rightarrow> rx_request) \<Rightarrow> u32 \<Rightarrow> (u64 \<times> nat) list \<Rightarrow> copy_op list" where
  "ops_for xf dm rqs j [] = []"
| "ops_for xf dm rqs j ((b, n) # ps) =
     (rq_id (rqs (ring_slot j)), of_nat n,
      \<lparr>gc_len = of_nat n, gc_gmfn = virt_to_mfn xf b, gc_domid = dm, gc_ref = rq_gref (rqs (ring_slot j))\<rparr>)
     # ops_for xf dm rqs (j + 1) ps"

lemma length_ops_for [simp]: "length (ops_for xf dm rqs j ps) = length ps"
  by (induction ps arbitrary: j) auto

lemma ops_for_append:
  "ops_for xf dm rqs j (ps @ qs) = ops_for xf dm rqs j ps @ ops_for xf dm rqs (j + of_nat (length ps)) qs"
  by (induction ps arbitrary: j) (auto simp: add.assoc)

section \<open>The ring protocol\<close>

text \<open>
  A guest that keeps the protocol of the ring has at most 256 requests that are not answered, and
  does not take one back.
\<close>

definition front_ok :: "xen_front \<Rightarrow> bool" where
  "front_ok xf \<longleftrightarrow> (\<forall>v. unat (req_prod v - rsp_prod v) \<le> XEN_NETIF_RX_RING_SIZE \<longrightarrow>
     unat (req_prod v - rsp_prod v) \<le> unat (xf_req_prod xf v - rsp_prod v) \<and>
     unat (xf_req_prod xf v - rsp_prod v) \<le> XEN_NETIF_RX_RING_SIZE)"

text \<open>Between two actions every request taken is answered; within one, \<open>n\<close> of them are not. The driver
  waits for at most one slot.\<close>

definition filling :: "nat \<Rightarrow> xenvif \<Rightarrow> bool" where
  "filling n v \<longleftrightarrow> unat (req_prod v - rsp_prod v) \<le> XEN_NETIF_RX_RING_SIZE \<and>
     n \<le> unat (req_prod v - rsp_prod v) \<and> req_cons v = rsp_prod v + of_nat n \<and>
     rx_last_slots v \<in> {0, 1}"

definition xring_ok :: "xenvif \<Rightarrow> bool" where
  "xring_ok v \<longleftrightarrow> filling 0 v \<and> rsp_prod_pvt v = rsp_prod v"

text \<open>What the copying changes of the interface.\<close>

definition ring_upd :: "u32 \<Rightarrow> u32 \<Rightarrow> u32 \<Rightarrow> u32 \<Rightarrow> xenvif \<Rightarrow> xenvif" where
  "ring_upd e p c l v = v\<lparr>req_event := e, req_prod := p, req_cons := c, rx_last_slots := l\<rparr>"

lemma ring_upd_fields [simp]:
  "req_prod (ring_upd e p c l v) = p" "req_cons (ring_upd e p c l v) = c"
  "rsp_prod (ring_upd e p c l v) = rsp_prod v" "domid (ring_upd e p c l v) = domid v"
  "requests (ring_upd e p c l v) = requests v" "responses (ring_upd e p c l v) = responses v"
  "rsp_prod_pvt (ring_upd e p c l v) = rsp_prod_pvt v" "copied (ring_upd e p c l v) = copied v"
  "ring_upd e p c l (ring_upd e' p' c' l' v) = ring_upd e p c l v"
  "rx_last_slots (ring_upd e p c l v) = l"
  by (simp_all add: ring_upd_def)

lemma ring_upd_id: "ring_upd (req_event v) (req_prod v) (req_cons v) (rx_last_slots v) v = v"
  by (simp add: ring_upd_def)

lemma filling_avail:
  assumes "filling n v"
  shows "n = unat (req_prod v - rsp_prod v) \<longleftrightarrow> req_prod v = req_cons v"
proof -
  let ?u = "req_prod v - rsp_prod v"
  have n: "n \<le> unat ?u" "req_cons v = rsp_prod v + of_nat n" using assms by (simp_all add: filling_def)
  then have "unat (of_nat n :: u32) = n"
    using unat_lt_pow [of ?u] by (simp add: unsigned_of_nat take_bit_nat_eq_self)
  then have "n = unat ?u \<longleftrightarrow> ?u = of_nat n" by (auto simp: word_unat_eq_iff)
  also have "\<dots> \<longleftrightarrow> req_prod v = req_cons v" using n(2) by (auto simp: algebra_simps)
  finally show ?thesis .
qed

lemma word_nonzero_ge_one: "(1 :: u32) \<le> x \<longleftrightarrow> x \<noteq> 0"
  by (simp add: word_le_nat_alt Suc_le_eq unat_gt_0)

text \<open>With one slot needed the wait for the guest ends after at most two rounds, for every guest.\<close>

lemma slots_available_one:
  "\<exists>b e p. xenvif_rx_ring_slots_available xf 1 v = Some (b, ring_upd e p (req_cons v) (rx_last_slots v) v) \<and>
    (b \<longleftrightarrow> p \<noteq> req_cons v) \<and>
    (p = req_prod v \<or> req_prod v = req_cons v \<and> (\<exists>w. req_prod w = req_prod v \<and> rsp_prod w = rsp_prod v \<and> p = xf_req_prod xf w))"
proof (cases "req_prod v = req_cons v")
  case False
  then show ?thesis
    by (intro exI [of _ True] exI [of _ "req_event v"] exI [of _ "req_prod v"])
      (simp add: xenvif_rx_ring_slots_available.simps word_nonzero_ge_one ring_upd_id)
next
  case True
  let ?v1 = "v\<lparr>req_event := req_prod v + 1\<rparr>"
  let ?p = "xf_req_prod xf ?v1"
  have w: "\<exists>w. req_prod w = req_prod v \<and> rsp_prod w = rsp_prod v \<and> ?p = xf_req_prod xf w"
    by (intro exI [of _ ?v1]) simp
  show ?thesis
  proof (cases "?p = req_prod v")
    case True
    then show ?thesis using \<open>req_prod v = req_cons v\<close>
      by (intro exI [of _ False] exI [of _ "req_prod v + 1"] exI [of _ ?p])
        (simp add: xenvif_rx_ring_slots_available.simps [of xf 1 v] word_nonzero_ge_one ring_upd_def Let_def)
  next
    case False
    then have "xenvif_rx_ring_slots_available xf 1 v =
        xenvif_rx_ring_slots_available xf 1 (?v1\<lparr>req_prod := ?p\<rparr>)"
      using True by (subst xenvif_rx_ring_slots_available.simps) (simp add: Let_def word_nonzero_ge_one)
    also have "\<dots> = Some (True, ?v1\<lparr>req_prod := ?p\<rparr>)"
      using False True by (subst xenvif_rx_ring_slots_available.simps) (simp add: Let_def word_nonzero_ge_one)
    finally show ?thesis using False True w
      by (intro exI [of _ True] exI [of _ "req_prod v + 1"] exI [of _ ?p]) (simp add: ring_upd_def)
  qed
qed

lemma slots_available_filling:
  assumes "front_ok xf" "filling n v"
  shows "\<exists>b e p. xenvif_rx_ring_slots_available xf 1 v = Some (b, ring_upd e p (req_cons v) (rx_last_slots v) v) \<and>
    (b \<longleftrightarrow> p \<noteq> req_cons v) \<and> filling n (ring_upd e p (req_cons v) (rx_last_slots v) v)"
proof -
  obtain b e p where r: "xenvif_rx_ring_slots_available xf 1 v = Some (b, ring_upd e p (req_cons v) (rx_last_slots v) v)"
    "b \<longleftrightarrow> p \<noteq> req_cons v" and p: "p = req_prod v \<or>
      req_prod v = req_cons v \<and> (\<exists>w. req_prod w = req_prod v \<and> rsp_prod w = rsp_prod v \<and> p = xf_req_prod xf w)"
    using slots_available_one [of xf v] by (elim exE conjE) (rule that)
  have "filling n (ring_upd e p (req_cons v) (rx_last_slots v) v)"
    using p
  proof
    assume "p = req_prod v"
    then show ?thesis using assms(2) by (simp add: filling_def)
  next
    assume "req_prod v = req_cons v \<and> (\<exists>w. req_prod w = req_prod v \<and> rsp_prod w = rsp_prod v \<and> p = xf_req_prod xf w)"
    then obtain w where w: "req_prod w = req_prod v" "rsp_prod w = rsp_prod v" "p = xf_req_prod xf w" by blast
    have "unat (req_prod w - rsp_prod w) \<le> XEN_NETIF_RX_RING_SIZE" using assms(2) w by (simp add: filling_def)
    then have "unat (req_prod w - rsp_prod w) \<le> unat (p - rsp_prod w) \<and> unat (p - rsp_prod w) \<le> XEN_NETIF_RX_RING_SIZE"
      using assms(1) w(3) by (simp add: front_ok_def)
    then show ?thesis using assms(2) w(1,2) by (simp add: filling_def)
  qed
  then show ?thesis using r by blast
qed

section \<open>Filling\<close>

lemma filling_next:
  assumes "filling n v" "req_prod v \<noteq> req_cons v"
  shows "n < XEN_NETIF_RX_RING_SIZE" "filling (Suc n) (ring_upd e (req_prod v) (req_cons v + 1) (rx_last_slots v) v)"
proof -
  have "n < unat (req_prod v - rsp_prod v)"
    using assms filling_avail [OF assms(1)] by (auto simp: filling_def)
  then show "n < XEN_NETIF_RX_RING_SIZE" "filling (Suc n) (ring_upd e (req_prod v) (req_cons v + 1) (rx_last_slots v) v)"
    using assms(1) by (simp_all add: filling_def)
qed

text \<open>One page of a buffer.\<close>

lemma desc_pages_Nil: "desc_pages d = [] \<longleftrightarrow> desc_size d \<le> desc_offset d"
  by (simp add: desc_pages_def pages_from.simps word_le_nat_alt)

lemma fill_one_page:
  assumes "desc_offset d < desc_size d"
  shows "\<exists>b n o'. desc_pages d = (b, n) # desc_pages (d\<lparr>desc_offset := o'\<rparr>) \<and>
    fill_one xf d ops v =
      (if XEN_NETIF_RX_RING_SIZE \<le> length ops then Inl (OutOfBounds (length ops))
       else Inr (d\<lparr>desc_offset := o'\<rparr>, ops @ ops_for xf (domid v) (requests v) (req_cons v) [(b, n)],
         v\<lparr>req_cons := req_cons v + 1\<rparr>))"
proof -
  let ?n = "if desc_size d - desc_offset d < PAGE_SIZE then desc_size d - desc_offset d else PAGE_SIZE"
  have s: "unat (desc_size d - desc_offset d) = unat (desc_size d) - unat (desc_offset d)"
    using assms by (simp add: unat_sub)
  have n: "unat ?n = min (unat (desc_size d) - unat (desc_offset d)) 4096"
    using s by (auto simp: PAGE_SIZE_def word_less_nat_alt)
  have "unat (desc_offset d + ?n) = unat (desc_offset d) + unat ?n"
    using n assms unat_lt_pow [of "desc_size d"] by (intro unat_add_no_wrap) (simp add: word_less_nat_alt)
  then have p: "desc_pages d = (kern_addr d + of_nat (unat (desc_offset d)), unat ?n) #
      desc_pages (d\<lparr>desc_offset := desc_offset d + ?n\<rparr>)"
    using assms n by (simp add: desc_pages_def pages_from.simps [of "kern_addr d" "unat (desc_offset d)"] word_less_nat_alt)
  show ?thesis
    by (rule exI, rule exI, rule exI, rule conjI [OF p]) (simp add: fill_one_def Let_def of_nat_unat)
qed

text \<open>
  The loop over one buffer: it takes the first pages of the buffer, as many as there are requests,
  and stops either at its end or where no request is left.
\<close>

lemma fill_desc_pages:
  "front_ok xf \<Longrightarrow> filling (length ops) v \<Longrightarrow> \<exists>fin o' ps e p l.
    fill_desc xf d ops v = Some (Inr (fin, d\<lparr>desc_offset := o'\<rparr>,
      ops @ ops_for xf (domid v) (requests v) (req_cons v) ps, ring_upd e p (req_cons v + of_nat (length ps)) l v)) \<and>
    desc_pages d = ps @ desc_pages (d\<lparr>desc_offset := o'\<rparr>) \<and>
    filling (length ops + length ps) (ring_upd e p (req_cons v + of_nat (length ps)) l v) \<and>
    (if fin then desc_pages (d\<lparr>desc_offset := o'\<rparr>) = [] else p = req_cons v + of_nat (length ps))"
proof (induction xf d ops v rule: fill_desc.induct)
  case (1 xf d ops v)
  show ?case
  proof (cases "desc_offset d < desc_size d")
    case False
    then have "desc_pages d = []" by (simp add: desc_pages_Nil)
    then show ?thesis using False "1.prems"(2)
      by - (rule exI [of _ True], rule exI [of _ "desc_offset d"], rule exI [of _ "[]"], rule exI [of _ "req_event v"], rule exI [of _ "req_prod v"], rule exI [of _ "rx_last_slots v"],
          simp add: fill_desc.simps [of xf d] ring_upd_id)
  next
    case True
    obtain b e p where av: "xenvif_rx_ring_slots_available xf 1 v = Some (b, ring_upd e p (req_cons v) (rx_last_slots v) v)"
      "b \<longleftrightarrow> p \<noteq> req_cons v" "filling (length ops) (ring_upd e p (req_cons v) (rx_last_slots v) v)"
      using slots_available_filling [OF "1.prems"] by (elim exE conjE) (rule that)
    let ?v1 = "ring_upd e p (req_cons v) (rx_last_slots v) v"
    show ?thesis
    proof (cases b)
      case False
      have "?v1\<lparr>rx_last_slots := 1\<rparr> = ring_upd e p (req_cons v) 1 v" by (simp add: ring_upd_def)
      moreover have "filling (length ops) (ring_upd e p (req_cons v) 1 v)" using av(3) by (simp add: filling_def)
      ultimately show ?thesis using False True av
        by - (rule exI [of _ False], rule exI [of _ "desc_offset d"], rule exI [of _ "[]"], rule exI [of _ e], rule exI [of _ p], rule exI [of _ 1],
          simp add: fill_desc.simps [of xf d])
    next
      case b: True
      note nx = filling_next [OF av(3)]
      obtain a n o1 where pg: "desc_pages d = (a, n) # desc_pages (d\<lparr>desc_offset := o1\<rparr>)"
        "fill_one xf d ops ?v1 = (if XEN_NETIF_RX_RING_SIZE \<le> length ops then Inl (OutOfBounds (length ops))
         else Inr (d\<lparr>desc_offset := o1\<rparr>, ops @ ops_for xf (domid ?v1) (requests ?v1) (req_cons ?v1) [(a, n)],
           ?v1\<lparr>req_cons := req_cons ?v1 + 1\<rparr>))"
        using fill_one_page [OF True, of xf ops ?v1] by (elim exE conjE) (rule that)
      let ?d = "d\<lparr>desc_offset := o1\<rparr>" and ?ops = "ops @ ops_for xf (domid v) (requests v) (req_cons v) [(a, n)]"
        and ?v2 = "ring_upd e p (req_cons v + 1) (rx_last_slots v) v"
      have lt: "length ops < XEN_NETIF_RX_RING_SIZE" using nx(1) av(2) b by simp
      have f1: "fill_one xf d ops ?v1 = Inr (?d, ?ops, ?v2)" using pg(2) lt by (simp add: ring_upd_def)
      have fl: "filling (length ?ops) ?v2" using nx(2) [of e] av(2) b by (simp add: ring_upd_def)
      have u: "fill_desc xf d ops v = fill_desc xf ?d ?ops ?v2"
        using True av(1) b f1 by (simp add: fill_desc.simps [of xf d])
      have "\<exists>fin o' ps e' p' l. fill_desc xf ?d ?ops ?v2 = Some (Inr (fin, ?d\<lparr>desc_offset := o'\<rparr>,
          ?ops @ ops_for xf (domid ?v2) (requests ?v2) (req_cons ?v2) ps, ring_upd e' p' (req_cons ?v2 + of_nat (length ps)) l ?v2)) \<and>
        desc_pages ?d = ps @ desc_pages (?d\<lparr>desc_offset := o'\<rparr>) \<and>
        filling (length ?ops + length ps) (ring_upd e' p' (req_cons ?v2 + of_nat (length ps)) l ?v2) \<and>
        (if fin then desc_pages (?d\<lparr>desc_offset := o'\<rparr>) = [] else p' = req_cons ?v2 + of_nat (length ps))"
        by (rule "1.IH" [OF True av(1) refl _ f1 refl refl "1.prems"(1) fl]) (use b in simp)
      then obtain fin o' ps e' p' l where r: "fill_desc xf ?d ?ops ?v2 = Some (Inr (fin, ?d\<lparr>desc_offset := o'\<rparr>,
          ?ops @ ops_for xf (domid ?v2) (requests ?v2) (req_cons ?v2) ps, ring_upd e' p' (req_cons ?v2 + of_nat (length ps)) l ?v2))"
        "desc_pages ?d = ps @ desc_pages (?d\<lparr>desc_offset := o'\<rparr>)"
        "filling (length ?ops + length ps) (ring_upd e' p' (req_cons ?v2 + of_nat (length ps)) l ?v2)"
        "if fin then desc_pages (?d\<lparr>desc_offset := o'\<rparr>) = [] else p' = req_cons ?v2 + of_nat (length ps)"
        by (elim exE conjE) (rule that)
      have c: "req_cons ?v2 + of_nat (length ps) = req_cons v + of_nat (length ((a, n) # ps))" by (simp add: add.assoc)
      show ?thesis using u r pg(1) unfolding c
        by - (rule exI [of _ fin], rule exI [of _ o'], rule exI [of _ "(a, n) # ps"], rule exI [of _ e'], rule exI [of _ p'], rule exI [of _ l],
            cases fin, simp_all add: add.assoc)
    qed
  qed
qed

text \<open>The address and the DMA address of the buffers of a queue, with the slab objects.\<close>

definition buffers :: "lbuf_head \<Rightarrow> (u64 \<times> u64 \<times> u64) list" where
  "buffers q = map (\<lambda>(p, d). (p, kern_addr d, dma_addr d)) q"

lemma buffers_simps [simp]:
  "buffers [] = []" "buffers ((p, d) # q) = (p, kern_addr d, dma_addr d) # buffers q"
  "buffers (q @ r) = buffers q @ buffers r"
  by (simp_all add: buffers_def)

lemma fill_queue_pages:
  assumes "front_ok xf"
  shows "filling (length ops) v \<Longrightarrow> \<exists>rest fin ps e p l.
    fill_queue xf q rxq ops v = Some (Inr (rest, rxq @ fin,
      ops @ ops_for xf (domid v) (requests v) (req_cons v) ps, ring_upd e p (req_cons v + of_nat (length ps)) l v)) \<and>
    queue_pages q = ps @ queue_pages rest \<and> buffers q = buffers (fin @ rest) \<and>
    filling (length ops + length ps) (ring_upd e p (req_cons v + of_nat (length ps)) l v) \<and>
    (rest = [] \<or> p = req_cons v + of_nat (length ps))"
proof (induction q arbitrary: rxq ops v)
  case Nil
  then show ?case
    by - (rule exI [of _ "[]"], rule exI [of _ "[]"], rule exI [of _ "[]"], rule exI [of _ "req_event v"], rule exI [of _ "req_prod v"], rule exI [of _ "rx_last_slots v"],
          simp add: ring_upd_id)
next
  case (Cons pd q)
  obtain a d where pd: "pd = (a, d)" by fastforce
  obtain fin o' ps e p l where r: "fill_desc xf d ops v = Some (Inr (fin, d\<lparr>desc_offset := o'\<rparr>,
      ops @ ops_for xf (domid v) (requests v) (req_cons v) ps, ring_upd e p (req_cons v + of_nat (length ps)) l v))"
    "desc_pages d = ps @ desc_pages (d\<lparr>desc_offset := o'\<rparr>)"
    "filling (length ops + length ps) (ring_upd e p (req_cons v + of_nat (length ps)) l v)"
    "if fin then desc_pages (d\<lparr>desc_offset := o'\<rparr>) = [] else p = req_cons v + of_nat (length ps)"
    using fill_desc_pages [OF assms Cons.prems, of d] by (elim exE conjE) (rule that)
  let ?d = "d\<lparr>desc_offset := o'\<rparr>"
  show ?case
  proof (cases fin)
    case False
    then show ?thesis using r
      by - (rule exI [of _ "(a, ?d) # q"], rule exI [of _ "[]"], rule exI [of _ ps], rule exI [of _ e], rule exI [of _ p], rule exI [of _ l],
          simp add: pd lbuf_queue_head_def)
  next
    case True
    let ?ops = "ops @ ops_for xf (domid v) (requests v) (req_cons v) ps"
    let ?v1 = "ring_upd e p (req_cons v + of_nat (length ps)) l v"
    have fl: "filling (length ?ops) ?v1" using r(3) by simp
    obtain rest fin' ps' e' p' l' where r': "fill_queue xf q (rxq @ [(a, ?d)]) ?ops ?v1 = Some (Inr (rest, (rxq @ [(a, ?d)]) @ fin',
        ?ops @ ops_for xf (domid ?v1) (requests ?v1) (req_cons ?v1) ps', ring_upd e' p' (req_cons ?v1 + of_nat (length ps')) l' ?v1))"
      "queue_pages q = ps' @ queue_pages rest" "buffers q = buffers (fin' @ rest)"
      "filling (length ?ops + length ps') (ring_upd e' p' (req_cons ?v1 + of_nat (length ps')) l' ?v1)"
      "rest = [] \<or> p' = req_cons ?v1 + of_nat (length ps')"
      using Cons.IH [OF fl, of "rxq @ [(a, ?d)]"] by (elim exE conjE) (rule that)
    have c: "req_cons ?v1 + of_nat (length ps') = req_cons v + of_nat (length (ps @ ps'))" by (simp add: add.assoc)
    show ?thesis using True r r' unfolding c
      by - (rule exI [of _ rest], rule exI [of _ "(a, ?d) # fin'"], rule exI [of _ "ps @ ps'"], rule exI [of _ e'], rule exI [of _ p'], rule exI [of _ l'],
          simp add: pd lbuf_queue_tail_def ops_for_append add.assoc)
  qed
qed

section \<open>Responses\<close>

fun response_to :: "xen_front \<Rightarrow> copy_op \<Rightarrow> rx_response" where
  "response_to xf (i, sz, copy) = \<lparr>rs_id = i, rs_offset = 0, rs_flags = 0,
     rs_status = if xf_copy_okay xf copy then ucast sz else - 1\<rparr>"

lemma ring_slot_add: "ring_slot (i + of_nat a) = (unat i + a) mod XEN_NETIF_RX_RING_SIZE"
proof -
  have d: "(256 :: nat) dvd 2 ^ 32" by simp
  have "unat (i + of_nat a) mod 256 = ((unat i + a mod 2 ^ 32) mod 2 ^ 32) mod 256"
    by (simp add: unat_word_ariths unsigned_of_nat take_bit_eq_mod)
  also have "\<dots> = (unat i + a) mod 256"
    unfolding mod_mod_cancel [OF d] by (metis d mod_add_right_eq mod_mod_cancel)
  finally show ?thesis by (simp add: ring_slot_def XEN_NETIF_RX_RING_SIZE_def)
qed

lemma ring_slot_later:
  assumes "0 < a" "a < XEN_NETIF_RX_RING_SIZE"
  shows "ring_slot (i + of_nat a) \<noteq> ring_slot i"
proof
  assume "ring_slot (i + of_nat a) = ring_slot i"
  then have "(unat i + a) mod 256 = unat i mod 256"
    using ring_slot_add [of i a] by (simp add: ring_slot_def XEN_NETIF_RX_RING_SIZE_def)
  then have "256 dvd (unat i + a) - unat i" by (metis mod_eq_dvd_iff_nat le_add1)
  then show False using assms by (auto simp: XEN_NETIF_RX_RING_SIZE_def dest: dvd_imp_le)
qed

text \<open>Each copy is answered in the next response slot, and all responses are pushed.\<close>

lemma respond_spec:
  "length ops \<le> XEN_NETIF_RX_RING_SIZE \<Longrightarrow> respond xf ops b v = (b', v') \<Longrightarrow>
    rsp_prod_pvt v' = rsp_prod_pvt v + of_nat (length ops) \<and>
    rsp_prod v' = (if ops = [] then rsp_prod v else rsp_prod_pvt v') \<and>
    req_prod v' = req_prod v \<and> req_cons v' = req_cons v \<and> copied v' = copied v \<and>
    rx_last_slots v' = rx_last_slots v \<and>
    (\<forall>j < length ops. responses v' (ring_slot (rsp_prod_pvt v + of_nat j)) = response_to xf (ops ! j)) \<and>
    (\<forall>k. (\<forall>j < length ops. k \<noteq> ring_slot (rsp_prod_pvt v + of_nat j)) \<longrightarrow> responses v' k = responses v k)"
proof (induction ops arbitrary: b v)
  case Nil
  then show ?case by simp
next
  case (Cons op ops)
  obtain i sz copy where op: "op = (i, sz, copy)" by (cases op) auto
  let ?r = "rsp_prod_pvt v"
  let ?v1 = "make_rx_response i (if xf_copy_okay xf copy then 0 else - 1) 0 (ucast sz) 0 v"
  let ?v2 = "?v1\<lparr>rsp_prod := rsp_prod_pvt ?v1\<rparr>"
  have r: "respond xf ops (b \<or> xf_notify xf ?v1) ?v2 = (b', v')" using Cons.prems(2) by (simp add: op Let_def)
  have len: "length ops \<le> XEN_NETIF_RX_RING_SIZE" using Cons.prems(1) by simp
  have v2: "rsp_prod_pvt ?v2 = ?r + 1" "rsp_prod ?v2 = ?r + 1" "req_prod ?v2 = req_prod v" "req_cons ?v2 = req_cons v"
    "copied ?v2 = copied v" "rx_last_slots ?v2 = rx_last_slots v"
    "responses ?v2 = (responses v)(ring_slot ?r := response_to xf op)"
    by (simp_all add: make_rx_response_def op)
  note ih = Cons.IH [OF len r, unfolded v2]
  have sh: "?r + 1 + of_nat j = ?r + of_nat (Suc j)" for j by (simp add: add.assoc)
  have first: "responses v' (ring_slot ?r) = response_to xf op"
  proof -
    have "ring_slot ?r \<noteq> ring_slot (?r + 1 + of_nat j)" if "j < length ops" for j
      using ring_slot_later [of "Suc j" ?r] that Cons.prems(1) unfolding sh by simp
    then show ?thesis using ih by simp
  qed
  have 1: "\<forall>j < length (op # ops). responses v' (ring_slot (?r + of_nat j)) = response_to xf ((op # ops) ! j)"
  proof (intro allI impI)
    fix j assume j: "j < length (op # ops)"
    show "responses v' (ring_slot (?r + of_nat j)) = response_to xf ((op # ops) ! j)"
      using first ih j by (cases j) (simp_all add: sh [symmetric] del: of_nat_Suc)
  qed
  have 2: "responses v' k = responses v k" if k: "\<forall>j < length (op # ops). k \<noteq> ring_slot (?r + of_nat j)" for k
  proof -
    have "k \<noteq> ring_slot ?r" using k [rule_format, of 0] by simp
    moreover have "k \<noteq> ring_slot (?r + 1 + of_nat j)" if "j < length ops" for j
      using k [rule_format, of "Suc j"] that by (simp add: sh [symmetric] del: of_nat_Suc)
    ultimately show ?thesis using ih by simp
  qed
  have 3: "rsp_prod v' = rsp_prod_pvt v'" using ih by (cases ops) simp_all
  show ?case using ih 1 2 3 by (simp add: add.assoc)
qed

section \<open>One action\<close>

text \<open>The events of releasing a buffer.\<close>

fun release_events :: "config \<Rightarrow> u64 \<times> u64 \<times> u64 \<Rightarrow> kev list" where
  "release_events cfg (p, a, dma) =
     [if \<not> coherent cfg then FreePages a else FreeCoherent LBUF_SIZE a dma, KmemFree DescCache p]"

lemma fold_release:
  "fold (release_lbuf cfg) q s = s\<lparr>hist := hist s @ concat (map (release_events cfg) (buffers q))\<rparr>"
proof (induction q arbitrary: s)
  case (Cons pd q)
  then show ?case
    by (cases pd) (simp add: release_lbuf_def free_lbuf_def free_desc_def emit_def)
qed simp

definition ops_of :: "xen_front \<Rightarrow> xenvif \<Rightarrow> (u64 \<times> nat) list \<Rightarrow> copy_op list" where
  "ops_of xf v ps = ops_for xf (domid v) (requests v) (req_cons v) ps"

lemma rx_action_spec:
  assumes "front_ok xf" "xring_ok v"
  shows "\<exists>v' s' ps fin. xenvif_rx_action cfg xf v s = Some (Inr (v', s')) \<and> xring_ok v' \<and>
    queue_pages (rx_buf_head s) = ps @ queue_pages (rx_buf_head s') \<and>
    copied v' = copied v @ map (\<lambda>(i, sz, copy). copy) (ops_of xf v ps) \<and>
    req_cons v' = req_cons v + of_nat (length ps) \<and>
    (\<forall>j < length ps. responses v' (ring_slot (req_cons v + of_nat j)) = response_to xf (ops_of xf v ps ! j)) \<and>
    (rx_buf_head s' = [] \<or> req_prod v' = req_cons v') \<and>
    buffers (rx_buf_head s) = fin @ buffers (rx_buf_head s') \<and>
    hist s' = hist s @ concat (map (release_events cfg) fin)"
proof -
  have f0: "filling (length ([] :: copy_op list)) v" "rsp_prod_pvt v = rsp_prod v" "req_cons v = rsp_prod v"
    using assms(2) by (simp_all add: xring_ok_def filling_def)
  obtain rest fin ps e p l where r: "fill_queue xf (rx_buf_head s) [] [] v = Some (Inr (rest, fin, ops_of xf v ps,
      ring_upd e p (req_cons v + of_nat (length ps)) l v))"
    "queue_pages (rx_buf_head s) = ps @ queue_pages rest" "buffers (rx_buf_head s) = buffers (fin @ rest)"
    "filling (length ps) (ring_upd e p (req_cons v + of_nat (length ps)) l v)"
    "rest = [] \<or> p = req_cons v + of_nat (length ps)"
    using fill_queue_pages [OF assms(1) f0(1), of "rx_buf_head s" "[]"]
    by (auto simp: ops_of_def)
  let ?v1 = "ring_upd e p (req_cons v + of_nat (length ps)) l v" and ?ops = "ops_of xf v ps"
  have n: "length ?ops \<le> XEN_NETIF_RX_RING_SIZE" using r(4) by (simp add: filling_def ops_of_def)
  let ?v2 = "?v1\<lparr>copied := copied ?v1 @ map (\<lambda>(i, sz, copy). copy) ?ops\<rparr>"
  obtain b v3 where v3: "respond xf ?ops False ?v2 = (b, v3)" by fastforce
  let ?v4 = "if b then v3\<lparr>notified := notified v3 + 1\<rparr> else v3"
  let ?s1 = "fold (release_lbuf cfg) fin (s\<lparr>rx_buf_head := rest\<rparr>)"
  note q = respond_spec [OF n v3]
  have act: "xenvif_rx_action cfg xf v s = Some (Inr (?v4, ?s1))"
    using r(1) n v3 by (simp add: xenvif_rx_action_def lbuf_head_init_def MAX_GRANT_COPY_OPS_def Let_def)
  have rp: "rsp_prod v3 = rsp_prod v + of_nat (length ps)" "rsp_prod_pvt v3 = rsp_prod v + of_nat (length ps)"
    using q f0(2) by (cases ps; auto simp: ops_of_def)+
  have "unat (p - (rsp_prod v + of_nat (length ps))) \<le> unat (p - rsp_prod v)"
  proof -
    have u: "length ps \<le> unat (p - rsp_prod v)" using r(4) by (simp add: filling_def)
    then have "of_nat (length ps) \<le> p - rsp_prod v"
      using unat_lt_pow [of "p - rsp_prod v"] by (simp add: word_le_nat_alt unsigned_of_nat take_bit_nat_eq_self)
    then have "p - rsp_prod v - of_nat (length ps) \<le> p - rsp_prod v" by (simp add: word_sub_le)
    then show ?thesis by (simp add: word_le_nat_alt diff_diff_eq)
  qed
  then have ok: "xring_ok ?v4" using q r(4) rp f0(3) by (simp add: xring_ok_def filling_def)
  have resp: "\<forall>j < length ps. responses ?v4 (ring_slot (req_cons v + of_nat j)) = response_to xf (?ops ! j)"
    using q f0 by (simp add: ops_of_def)
  have rest: "?s1 = s\<lparr>rx_buf_head := rest, hist := hist s @ concat (map (release_events cfg) (buffers fin))\<rparr>"
    by (simp add: fold_release)
  show ?thesis
    using act ok resp r(2,3,5) q unfolding rest
    by - (rule exI, rule exI, rule exI [of _ ps], rule exI [of _ "buffers fin"], rule conjI, assumption, auto)
qed

section \<open>A guest that breaks the protocol\<close>

text \<open>
  As long as the guest claims more requests than the arrays have entries, every page is taken
  without asking, until the arrays are full.
\<close>

definition claims :: "nat \<Rightarrow> xenvif \<Rightarrow> bool" where
  "claims n v \<longleftrightarrow> XEN_NETIF_RX_RING_SIZE < n + unat (req_prod v - req_cons v)"

lemma claims_next:
  assumes "claims n v" "n \<le> XEN_NETIF_RX_RING_SIZE"
  shows "req_prod v \<noteq> req_cons v" "claims (Suc n) (v\<lparr>req_cons := req_cons v + 1\<rparr>)"
proof -
  show ne: "req_prod v \<noteq> req_cons v" using assms by (auto simp: claims_def)
  then have "unat (req_prod v - req_cons v - 1) = unat (req_prod v - req_cons v) - 1"
    by (simp add: unat_sub word_nonzero_ge_one)
  then show "claims (Suc n) (v\<lparr>req_cons := req_cons v + 1\<rparr>)"
    using assms ne by (simp add: claims_def diff_diff_eq)
qed

lemma fill_desc_claims:
  "claims (length ops) v \<Longrightarrow> length ops \<le> XEN_NETIF_RX_RING_SIZE \<Longrightarrow>
    (if XEN_NETIF_RX_RING_SIZE < length ops + length (desc_pages d)
     then fill_desc xf d ops v = Some (Inl (OutOfBounds XEN_NETIF_RX_RING_SIZE))
     else \<exists>d' ops' v'. fill_desc xf d ops v = Some (Inr (True, d', ops', v')) \<and>
       length ops' = length ops + length (desc_pages d) \<and> claims (length ops') v')"
proof (induction xf d ops v rule: fill_desc.induct)
  case (1 xf d ops v)
  show ?case
  proof (cases "desc_offset d < desc_size d")
    case False
    then have "desc_pages d = []" by (simp add: desc_pages_Nil)
    then show ?thesis using False "1.prems" by (simp add: fill_desc.simps [of xf d])
  next
    case True
    note nx = claims_next [OF "1.prems"]
    have av: "xenvif_rx_ring_slots_available xf 1 v = Some (True, v)"
      using nx(1) by (simp add: xenvif_rx_ring_slots_available.simps word_nonzero_ge_one)
    let ?R = "XEN_NETIF_RX_RING_SIZE"
    obtain a n o1 where pg: "desc_pages d = (a, n) # desc_pages (d\<lparr>desc_offset := o1\<rparr>)"
      "fill_one xf d ops v = (if ?R \<le> length ops then Inl (OutOfBounds (length ops))
       else Inr (d\<lparr>desc_offset := o1\<rparr>, ops @ ops_for xf (domid v) (requests v) (req_cons v) [(a, n)],
         v\<lparr>req_cons := req_cons v + 1\<rparr>))"
      using fill_one_page [OF True, of xf ops v] by (elim exE conjE) (rule that)
    show ?thesis
    proof (cases "?R \<le> length ops")
      case full: True
      then show ?thesis using "1.prems"(2) pg True av by (simp add: fill_desc.simps [of xf d])
    next
      case False
      let ?d = "d\<lparr>desc_offset := o1\<rparr>" and ?ops = "ops @ ops_for xf (domid v) (requests v) (req_cons v) [(a, n)]"
        and ?v2 = "v\<lparr>req_cons := req_cons v + 1\<rparr>"
      have f1: "fill_one xf d ops v = Inr (?d, ?ops, ?v2)" using pg(2) False by simp
      have u: "fill_desc xf d ops v = fill_desc xf ?d ?ops ?v2"
        using True av f1 by (simp add: fill_desc.simps [of xf d])
      have c: "claims (length ?ops) ?v2" "length ?ops \<le> ?R" using nx(2) False by simp_all
      have "if ?R < length ?ops + length (desc_pages ?d)
        then fill_desc xf ?d ?ops ?v2 = Some (Inl (OutOfBounds ?R))
        else \<exists>d' ops' v'. fill_desc xf ?d ?ops ?v2 = Some (Inr (True, d', ops', v')) \<and>
          length ops' = length ?ops + length (desc_pages ?d) \<and> claims (length ops') v'"
        by (rule "1.IH" [OF True av refl _ f1 refl refl c]) simp
      moreover have "length ?ops + length (desc_pages ?d) = length ops + length (desc_pages d)"
        by (simp add: pg(1))
      ultimately show ?thesis unfolding u by (simp only:)
    qed
  qed
qed

lemma fill_queue_claims:
  "claims (length ops) v \<Longrightarrow> length ops \<le> XEN_NETIF_RX_RING_SIZE \<Longrightarrow>
    XEN_NETIF_RX_RING_SIZE < length ops + length (queue_pages q) \<Longrightarrow>
    fill_queue xf q rxq ops v = Some (Inl (OutOfBounds XEN_NETIF_RX_RING_SIZE))"
proof (induction q arbitrary: rxq ops v)
  case Nil
  then show ?case by simp
next
  case (Cons pd q)
  obtain p d where pd: "pd = (p, d)" by fastforce
  show ?case
  proof (cases "XEN_NETIF_RX_RING_SIZE < length ops + length (desc_pages d)")
    case True
    then show ?thesis using fill_desc_claims [OF Cons.prems(1,2), of d xf] by (simp add: pd)
  next
    case False
    then obtain d' ops' v' where r: "fill_desc xf d ops v = Some (Inr (True, d', ops', v'))"
      "length ops' = length ops + length (desc_pages d)" "claims (length ops') v'"
      using fill_desc_claims [OF Cons.prems(1,2), of d xf] by auto
    have "fill_queue xf q (lbuf_queue_tail (p, d') rxq) ops' v' = Some (Inl (OutOfBounds XEN_NETIF_RX_RING_SIZE))"
      by (rule Cons.IH [OF r(3)]) (use r(2) False Cons.prems(3) in \<open>simp_all add: pd\<close>)
    then show ?thesis using r(1) by (simp add: pd)
  qed
qed

section \<open>A run of the thread\<close>

text \<open>
  What happens between two turns: the receive path queues the buffers \<open>q\<close>, and \<open>u\<close> is what the guest
  does to the ring.
\<close>

definition arrive :: "(xenvif \<Rightarrow> xenvif) \<Rightarrow> lbuf_head \<Rightarrow> xenvif \<times> nic \<Rightarrow> xenvif \<times> nic" where
  "arrive u q = (\<lambda>(v, s). (u v, fold xenvif_start_xmit q s))"

lemma arrive_app: "arrive u q (v, s) = (u v, fold xenvif_start_xmit q s)"
  by (simp add: arrive_def)

definition in_protocol :: "(u64 \<Rightarrow> u64) \<Rightarrow> (xenvif \<Rightarrow> xenvif) \<Rightarrow> xen_front \<Rightarrow> bool" where
  "in_protocol mfn u xf \<longleftrightarrow> front_ok xf \<and> virt_to_mfn xf = mfn \<and>
     (\<forall>v. xring_ok v \<longrightarrow> xring_ok (u v) \<and> copied (u v) = copied v \<and> req_cons (u v) = req_cons v)"

fun is_release :: "kev \<Rightarrow> bool" where
  "is_release XenKick = False"
| "is_release _ = True"

lemma fold_start_xmit:
  "rx_buf_head (fold xenvif_start_xmit q s) = rx_buf_head s @ q"
  "filter is_release (hist (fold xenvif_start_xmit q s)) = filter is_release (hist s)"
  by (induction q arbitrary: s) (simp_all add: xenvif_start_xmit_def lbuf_queue_tail_def)

lemma release_events_release: "filter is_release (concat (map (release_events cfg) bs)) = concat (map (release_events cfg) bs)"
  by (induction bs) auto

text \<open>The frames the guest is sent: of each copy the source and the length.\<close>

definition sent :: "gnttab_copy list \<Rightarrow> (u64 \<times> u32) list" where
  "sent cs = map (\<lambda>c. (gc_gmfn c, gc_len c)) cs"

lemma sent_append [simp]: "sent (cs @ ds) = sent cs @ sent ds"
  by (simp add: sent_def)

lemma sent_ops_for:
  "sent (map (\<lambda>(i, sz, copy). copy) (ops_for xf dm rqs j ps)) =
    map (\<lambda>(a, n). (virt_to_mfn xf a, of_nat n)) ps"
  by (induction ps arbitrary: j) (auto simp: sent_def)

lemma kthread_turn_spec:
  assumes "front_ok xf" "xring_ok v"
  shows "\<exists>v' s' ps fin. kthread_turn cfg xf v s = Some (Inr (v', s')) \<and> xring_ok v' \<and>
    queue_pages (rx_buf_head s) = ps @ queue_pages (rx_buf_head s') \<and>
    sent (copied v') = sent (copied v) @ map (\<lambda>(a, n). (virt_to_mfn xf a, of_nat n)) ps \<and>
    req_cons v' = req_cons v + of_nat (length ps) \<and> (rx_buf_head s' = [] \<or> req_prod v' = req_cons v') \<and>
    buffers (rx_buf_head s) = fin @ buffers (rx_buf_head s') \<and>
    hist s' = hist s @ concat (map (release_events cfg) fin)"
proof -
  have v: "filling 0 v" "rsp_prod_pvt v = rsp_prod v" using assms(2) by (simp_all add: xring_ok_def)
  obtain b v1 where av: "xenvif_rx_ring_slots_available xf (rx_last_slots v) v = Some (b, v1)"
    "xring_ok v1" "copied v1 = copied v" "req_cons v1 = req_cons v" "b \<or> req_prod v1 = req_cons v1"
  proof (cases "rx_last_slots v = 0")
    case True
    then show ?thesis using that [of True v] assms(2) by (simp add: xenvif_rx_ring_slots_available.simps)
  next
    case False
    then have l: "rx_last_slots v = 1" using v(1) by (simp add: filling_def)
    obtain b e p where "xenvif_rx_ring_slots_available xf 1 v = Some (b, ring_upd e p (req_cons v) (rx_last_slots v) v)"
      "b \<longleftrightarrow> p \<noteq> req_cons v" "filling 0 (ring_upd e p (req_cons v) (rx_last_slots v) v)"
      using slots_available_filling [OF assms(1) v(1)] by (elim exE conjE) (rule that)
    then show ?thesis using that v(2) by (simp add: l xring_ok_def)
  qed
  show ?thesis
  proof (cases "b \<and> \<not> lbuf_queue_empty (rx_buf_head s)")
    case True
    obtain v' s' ps fin where "xenvif_rx_action cfg xf v1 s = Some (Inr (v', s'))" "xring_ok v'"
      "queue_pages (rx_buf_head s) = ps @ queue_pages (rx_buf_head s')"
      "copied v' = copied v1 @ map (\<lambda>(i, sz, copy). copy) (ops_of xf v1 ps)"
      "req_cons v' = req_cons v1 + of_nat (length ps)" "rx_buf_head s' = [] \<or> req_prod v' = req_cons v'"
      "buffers (rx_buf_head s) = fin @ buffers (rx_buf_head s')"
      "hist s' = hist s @ concat (map (release_events cfg) fin)"
      using rx_action_spec [OF assms(1) av(2), of cfg s] by (elim exE conjE) (rule that)
    then show ?thesis using True av
      by (simp add: kthread_turn_def rx_work_todo_def ops_of_def sent_ops_for)
  next
    case False
    then show ?thesis using av
      by (intro exI [of _ v1] exI [of _ s] exI [of _ "[]"])
        (auto simp: kthread_turn_def rx_work_todo_def lbuf_queue_empty_def)
  qed
qed

lemma kthread_spec:
  "\<forall>(u, q, xf) \<in> set L. in_protocol mfn u xf \<Longrightarrow> xring_ok v \<Longrightarrow>
    \<exists>v' s' ps rest. xenvif_kthread cfg (map (\<lambda>(u, q, xf). (arrive u q, xf)) L) v s = Some (Inr (v', s')) \<and>
      xring_ok v' \<and> rx_buf_head s' = [] \<and>
      queue_pages (rx_buf_head s @ concat (map (\<lambda>(u, q, xf). q) L)) = ps @ rest \<and>
      sent (copied v') = sent (copied v) @ map (\<lambda>(a, n). (mfn a, of_nat n)) ps \<and>
      req_cons v' = req_cons v + of_nat (length ps) \<and>
      (L \<noteq> [] \<longrightarrow> rest = [] \<or> req_prod v' = req_cons v') \<and>
      filter is_release (hist s') = filter is_release (hist s) @
        concat (map (release_events cfg) (buffers (rx_buf_head s @ concat (map (\<lambda>(u, q, xf). q) L))))"
proof (induction L arbitrary: v s)
  case Nil
  then show ?case
    by (simp add: bin_remaining_def fold_release release_events_release)
next
  case (Cons w L)
  obtain u q xf where w: "w = (u, q, xf)" by (cases w) auto
  let ?s = "fold xenvif_start_xmit q s"
  have p: "front_ok xf" "virt_to_mfn xf = mfn" "xring_ok (u v)" "copied (u v) = copied v"
    "req_cons (u v) = req_cons v"
    using Cons.prems by (auto simp: w in_protocol_def)
  obtain v1 s1 ps fin where t: "kthread_turn cfg xf (u v) ?s = Some (Inr (v1, s1))" "xring_ok v1"
    "queue_pages (rx_buf_head ?s) = ps @ queue_pages (rx_buf_head s1)"
    "sent (copied v1) = sent (copied (u v)) @ map (\<lambda>(a, n). (virt_to_mfn xf a, of_nat n)) ps"
    "req_cons v1 = req_cons (u v) + of_nat (length ps)" "rx_buf_head s1 = [] \<or> req_prod v1 = req_cons v1"
    "buffers (rx_buf_head ?s) = fin @ buffers (rx_buf_head s1)"
    "hist s1 = hist ?s @ concat (map (release_events cfg) fin)"
    using kthread_turn_spec [OF p(1,3), of cfg ?s] by (elim exE conjE) (rule that)
  obtain v' s' ps' rest where r: "xenvif_kthread cfg (map (\<lambda>(u, q, xf). (arrive u q, xf)) L) v1 s1 = Some (Inr (v', s'))"
    "xring_ok v'" "rx_buf_head s' = []"
    "queue_pages (rx_buf_head s1 @ concat (map (\<lambda>(u, q, xf). q) L)) = ps' @ rest"
    "sent (copied v') = sent (copied v1) @ map (\<lambda>(a, n). (mfn a, of_nat n)) ps'"
    "req_cons v' = req_cons v1 + of_nat (length ps')" "L \<noteq> [] \<longrightarrow> rest = [] \<or> req_prod v' = req_cons v'"
    "filter is_release (hist s') = filter is_release (hist s1) @
        concat (map (release_events cfg) (buffers (rx_buf_head s1 @ concat (map (\<lambda>(u, q, xf). q) L))))"
    using Cons.IH [OF _ t(2), of s1] Cons.prems(1) by (auto simp: w)
  have "queue_pages (rx_buf_head s @ concat (map (\<lambda>(u, q, xf). q) (w # L))) = (ps @ ps') @ rest"
  proof -
    have "queue_pages (rx_buf_head s @ concat (map (\<lambda>(u, q, xf). q) (w # L))) =
        queue_pages (rx_buf_head ?s) @ queue_pages (concat (map (\<lambda>(u, q, xf). q) L))"
      by (simp add: w fold_start_xmit)
    also have "\<dots> = ps @ ps' @ rest" using t(3) r(4) by simp
    finally show ?thesis by simp
  qed
  moreover have "sent (copied v') = sent (copied v) @ map (\<lambda>(a, n). (mfn a, of_nat n)) (ps @ ps')"
    using r(5) t(4) p by simp
  moreover have b: "buffers (rx_buf_head s @ concat (map (\<lambda>(u, q, xf). q) (w # L))) =
      fin @ buffers (rx_buf_head s1 @ concat (map (\<lambda>(u, q, xf). q) L))"
    using t(7) by (simp add: w fold_start_xmit)
  have "filter is_release (hist s') = filter is_release (hist s) @
      concat (map (release_events cfg) (buffers (rx_buf_head s @ concat (map (\<lambda>(u, q, xf). q) (w # L)))))"
    unfolding b r(8) t(8) by (simp add: fold_start_xmit release_events_release)
  moreover have "xenvif_kthread cfg (map (\<lambda>(u, q, xf). (arrive u q, xf)) (w # L)) v s = Some (Inr (v', s'))"
    using r(1) t(1) by (simp add: w arrive_app)
  moreover have "req_cons v' = req_cons v + of_nat (length (ps @ ps'))" using r(6) t(5) p(5) by simp
  moreover have "rest = [] \<or> req_prod v' = req_cons v'"
  proof (cases L)
    case Nil
    then have "v' = v1" "ps' = []" using r(1,5) by auto
    then show ?thesis using t(6) r(4) Nil by auto
  qed (use r(7) in simp)
  ultimately show ?case using r(2,3) by blast
qed

section \<open>A concrete interface\<close>

lemma div_pages_step: "0 < k \<Longrightarrow> Suc ((k - min k 4096 + 4095) div 4096) = (k + 4095) div (4096 :: nat)"
proof (cases "k < 4096")
  case True
  assume "0 < k"
  then have "(k + 4095) div 4096 = Suc ((k - 1) div 4096)" using div_add_self1 [of 4096 "k - 1"] by simp
  then show ?thesis using True by simp
next
  case False
  then obtain m where "k = 4096 + m" using le_Suc_ex not_less by blast
  then show ?thesis using div_add_self1 [of 4096 "m + 4095"] by (simp add: add.assoc)
qed

lemma length_pages_from: "length (pages_from a off sz) = (sz - off + 4095) div 4096"
proof (induction a off sz rule: pages_from.induct)
  case (1 a off sz)
  then show ?case using div_pages_step [of "sz - off"]
    by (cases "off < sz") (simp_all add: pages_from.simps [of a off sz] diff_diff_eq)
qed

text \<open>A guest that adds no request while the thread runs, and a buffer of \<open>sz\<close> bytes.\<close>

definition quiet_front :: xen_front where
  "quiet_front = \<lparr>xf_req_prod = req_prod, xf_copy_okay = (\<lambda>_. True), xf_notify = (\<lambda>_. True),
     virt_to_mfn = drop_bit 12\<rparr>"

definition demo_vif :: "u32 \<Rightarrow> xenvif" where
  "demo_vif n = \<lparr>domid = 1, handle = 0, task = True, tx_irq = 40, tx_sring = 0x700000, rx_irq = 40,
     rx_sring = 0x701000, rx_last_slots = 0, req_prod = n, req_event = 0, rsp_prod = 0,
     requests = (\<lambda>i. \<lparr>rq_id = of_nat i, rq_gref = 100 + of_nat i\<rparr>),
     responses = (\<lambda>_. \<lparr>rs_id = 0, rs_offset = 0, rs_flags = 0, rs_status = 0\<rparr>),
     req_cons = 0, rsp_prod_pvt = 0, copied = [], notified = 0\<rparr>"

definition demo_xdesc :: "u32 \<Rightarrow> pdesc" where
  "demo_xdesc sz = (0x9000, \<lparr>kern_addr = 0x200000, dma_addr = 0xF0000000, skb = 0,
     desc_size = sz, desc_offset = 0\<rparr>)"

lemma quiet_front_ok: "front_ok quiet_front"
  by (simp add: front_ok_def quiet_front_def)

lemma demo_vif_ok: "unat n \<le> 256 \<Longrightarrow> xring_ok (demo_vif n)"
  by (simp add: xring_ok_def filling_def demo_vif_def XEN_NETIF_RX_RING_SIZE_def)

lemma demo_run:
  "\<exists>v' s'. xenvif_kthread \<lparr>coherent = False, xen = True\<rparr> [(arrive id [demo_xdesc 10000], quiet_front)]
      (demo_vif 2) nic_init = Some (Inr (v', s')) \<and> req_prod v' = 2"
  by (simp add: arrive_app kthread_turn_def rx_work_todo_def xenvif_rx_ring_slots_available.simps demo_vif_def
     xenvif_start_xmit_def lbuf_queue_tail_def nic_init_def demo_xdesc_def xenvif_rx_action_def fill_desc.simps
     fill_one_def Let_def PAGE_SIZE_def ring_slot_def XEN_NETIF_RX_RING_SIZE_def quiet_front_def lbuf_head_init_def
     lbuf_queue_head_def lbuf_queue_empty_def MAX_GRANT_COPY_OPS_def make_rx_response_def word_less_nat_alt
     word_le_nat_alt)

section \<open>Properties\<close>

text \<open>
  C30: one action of the thread copies the queued buffers to the guest page by page. Whatever
  a guest that keeps the ring protocol does meanwhile, the action ends without a fault; it has copied
  a prefix of the pages of the queue, in order, each into the page of the next request, and the queue
  holds the rest; it stops only when the queue is empty or the guest has no request left; every
  request taken is answered with its id and the page's size, or an error where the copy failed; and
  the buffers that are done are released, once and in order.
\<close>

theorem rx_action_copies_in_order:
  assumes "front_ok xf" "xring_ok v"
  shows "\<exists>v' s' ps fin. xenvif_rx_action cfg xf v s = Some (Inr (v', s')) \<and> xring_ok v' \<and>
    queue_pages (rx_buf_head s) = ps @ queue_pages (rx_buf_head s') \<and>
    copied v' = copied v @ map (\<lambda>(i, sz, copy). copy) (ops_of xf v ps) \<and>
    req_cons v' = req_cons v + of_nat (length ps) \<and>
    (\<forall>j < length ps. responses v' (ring_slot (req_cons v + of_nat j)) = response_to xf (ops_of xf v ps ! j)) \<and>
    (rx_buf_head s' = [] \<or> req_prod v' = req_cons v') \<and>
    buffers (rx_buf_head s) = fin @ buffers (rx_buf_head s') \<and>
    hist s' = hist s @ concat (map (release_events cfg) fin)"
  by (rule rx_action_spec [OF assms])

lemma rx_action_copies_in_order_witness:
  "\<exists>v' s' ps. xenvif_rx_action \<lparr>coherent = False, xen = True\<rparr> quiet_front (demo_vif 2)
      (nic_init\<lparr>rx_buf_head := [demo_xdesc 10000]\<rparr>) = Some (Inr (v', s')) \<and> xring_ok v' \<and>
    queue_pages [demo_xdesc 10000] = ps @ queue_pages (rx_buf_head s') \<and>
    copied v' = map (\<lambda>(i, sz, copy). copy) (ops_of quiet_front (demo_vif 2) ps)"
  using rx_action_copies_in_order [OF quiet_front_ok demo_vif_ok, of 2 "\<lparr>coherent = False, xen = True\<rparr>"
      "nic_init\<lparr>rx_buf_head := [demo_xdesc 10000]\<rparr>"]
  by (auto simp: demo_vif_def)



text \<open>
  C32: a guest can overrun the back end's arrays. The number of requests is taken from the
  shared page and not limited to the size of the ring, and the check of the number of copies comes
  after the loop that fills the arrays: if the guest claims more than 256 requests while more than 256
  pages are queued (a full buffer has 512), the thread writes behind the end of \<open>meta\<close>.
\<close>

theorem hostile_guest_overruns:
  assumes "256 < unat (req_prod v - req_cons v)" "256 < length (queue_pages (rx_buf_head s))"
  shows "xenvif_rx_action cfg xf v s = Some (Inl (OutOfBounds 256))"
proof -
  have "claims (length ([] :: copy_op list)) v" using assms(1) by (simp add: claims_def XEN_NETIF_RX_RING_SIZE_def)
  from fill_queue_claims [OF this, of "rx_buf_head s" xf "[]"] assms(2) show ?thesis
    by (simp add: xenvif_rx_action_def lbuf_head_init_def XEN_NETIF_RX_RING_SIZE_def)
qed

lemma hostile_guest_overruns_witness:
  "xenvif_rx_action \<lparr>coherent = False, xen = True\<rparr> quiet_front (demo_vif 1000)
    (nic_init\<lparr>rx_buf_head := [demo_xdesc 2097152]\<rparr>) = Some (Inl (OutOfBounds 256))"
  by (rule hostile_guest_overruns)
    (simp_all add: demo_vif_def demo_xdesc_def desc_pages_def length_pages_from)

end
