(* ===== verification/Xenbus.thy ===== *)
theory Xenbus
  imports Xenvif
begin

text \<open>
  The control path of the Xen back end, the first half of \<open>sw/driver/xen_nfback.c\<close>: the state machine
  that follows the guest's front end through the Xen bus, connecting and disconnecting the shared
  rings, the event channels and the thread, and probing and removing the device.
\<close>

section \<open>State\<close>

datatype xenbus_state = XenbusStateUnknown | XenbusStateInitialising | XenbusStateInitWait
  | XenbusStateInitialised | XenbusStateConnected | XenbusStateClosing | XenbusStateClosed
  | XenbusStateReconfiguring | XenbusStateReconfigured

text \<open>What the Xen bus and the kernel are asked for, in order.\<close>

datatype xbev =
    SwitchState xenbus_state
  | MapRing u64
  | UnmapRing u64
  | BindIrq u32
  | UnbindIrq u32
  | EnableIrq u32
  | DisableIrq u32
  | ThreadStart
  | ThreadStop
  | WatchHotplug
  | UnwatchHotplug
  | AbortTransaction
  | Fatal int
  | UeventOnline
  | UeventOffline
  | RmHotplugStatus
  | DeviceUnregister
  | UnregisterDriver

text \<open>\<open>struct backend_info\<close>; a state of 0, which \<open>kzalloc\<close> leaves, is \<open>XenbusStateUnknown\<close>.\<close>

record backend_info =
  be_vif :: u64
  be_state :: xenbus_state
  frontend_state :: xenbus_state
  have_hotplug_status_watch :: bool

definition backend_zero :: backend_info where
  "backend_zero = \<lparr>be_vif = 0, be_state = XenbusStateUnknown, frontend_state = XenbusStateUnknown,
     have_hotplug_status_watch = False\<rparr>"

text \<open>
  One device with its \<open>backend_info\<close> (\<open>bound\<close>: the driver data is set), the interfaces by address, the
  global \<open>FIXME_vif\<close> and the log.
\<close>

record xbus =
  vifs :: "u64 \<rightharpoonup> xenvif"
  FIXME_vif :: u64
  backend :: backend_info
  bound :: bool
  registered :: bool
  xlog :: "xbev list"

text \<open>
  The answers of the Xen bus and the kernel: 0, an address or an interrupt, or an error (negative).
  \<open>xa_map\<close> is \<open>xenbus_map_ring_valloc\<close> and \<open>xa_ring_page\<close> what the guest's page at an address holds:
  \<open>req_prod\<close>, \<open>req_event\<close>, \<open>rsp_prod\<close>, the requests and the responses. \<open>xa_trans_start\<close>, \<open>xa_printf\<close> and \<open>xa_trans_end\<close> may answer
  differently at each attempt.
\<close>

record xenbus_api =
  xa_domid :: u16
  xa_gather_rings :: int
  xa_gather_evtchn :: int
  xa_tx_evtchn :: u32
  xa_rx_evtchn :: u32
  xa_scan_evtchn :: int
  xa_evtchn :: u32
  xa_scan_rx_copy :: int
  xa_rx_copy :: u32
  xa_map :: "xbev list \<Rightarrow> int \<times> u64"
  xa_ring_page :: "u64 \<Rightarrow> u32 \<times> u32 \<times> u32 \<times> (nat \<Rightarrow> rx_request) \<times> (nat \<Rightarrow> rx_response)"
  xa_bind :: "xbev list \<Rightarrow> u32 \<Rightarrow> int"
  xa_kthread :: int
  xa_watch :: int
  xa_hotplug_status :: "string option"
  xa_scan_handle :: int
  xa_handle :: int
  xa_kzalloc_vif :: u64
  xa_vmalloc :: bool
  xa_online :: bool
  xa_kzalloc_be :: bool
  xa_trans_start :: "nat \<Rightarrow> int"
  xa_printf :: "nat \<Rightarrow> int"
  xa_trans_end :: "nat \<Rightarrow> int"
  xa_switch_state :: int
  xa_register :: int

definition xemit :: "xbev \<Rightarrow> xbus \<Rightarrow> xbus" where
  "xemit e w = w\<lparr>xlog := xlog w @ [e]\<rparr>"

definition upd_be :: "(backend_info \<Rightarrow> backend_info) \<Rightarrow> xbus \<Rightarrow> xbus" where
  "upd_be f w = w\<lparr>backend := f (backend w)\<rparr>"

definition get_vif :: "u64 \<Rightarrow> xbus \<Rightarrow> fault + xenvif" where
  "get_vif p w =
     (if p = 0 then Inl NullDeref
      else case vifs w p of None \<Rightarrow> Inl (UseAfterFree p) | Some v \<Rightarrow> Inr v)"

definition set_vif :: "u64 \<Rightarrow> xenvif \<Rightarrow> xbus \<Rightarrow> xbus" where
  "set_vif p v w = w\<lparr>vifs := (vifs w)(p \<mapsto> v)\<rparr>"

text \<open>Error pointers: the last 4095 addresses.\<close>

definition ERR_PTR :: "int \<Rightarrow> u64" where "ERR_PTR err = of_int err"

definition IS_ERR :: "u64 \<Rightarrow> bool" where "IS_ERR p \<longleftrightarrow> of_int (- 4095) \<le> p"

section \<open>The interface\<close>

definition vif_zero :: xenvif where
  "vif_zero = \<lparr>domid = 0, handle = 0, task = False, tx_irq = 0, tx_sring = 0, rx_irq = 0, rx_sring = 0,
     rx_last_slots = 0, req_prod = 0, req_event = 0, rsp_prod = 0,
     requests = (\<lambda>_. \<lparr>rq_id = 0, rq_gref = 0\<rparr>),
     responses = (\<lambda>_. \<lparr>rs_id = 0, rs_offset = 0, rs_flags = 0, rs_status = 0\<rparr>),
     req_cons = 0, rsp_prod_pvt = 0, copied = [], notified = 0\<rparr>"

definition xenvif_alloc :: "xenbus_api \<Rightarrow> xbus \<Rightarrow> u64 \<times> xbus" where
  "xenvif_alloc api w =
     (let vif = xa_kzalloc_vif api
      in if vif = 0 then (0, w)
         else if \<not> xa_vmalloc api then (ERR_PTR (- ENOMEM), w)
         else (vif, set_vif vif (vif_zero\<lparr>domid := xa_domid api, handle := xa_handle api\<rparr>) w))"

definition xenvif_free :: "u64 \<Rightarrow> xbus \<Rightarrow> fault + xbus" where
  "xenvif_free p w = rbind (get_vif p w) (\<lambda>v. Inr (w\<lparr>vifs := (vifs w)(p := None)\<rparr>))"

definition backend_switch_state :: "xenbus_state \<Rightarrow> xbus \<Rightarrow> xbus" where
  "backend_switch_state state w =
     (let w1 = upd_be (\<lambda>be. be\<lparr>be_state := state\<rparr>) w
      in if \<not> have_hotplug_status_watch (backend w1) then xemit (SwitchState state) w1 else w1)"

definition xenvif_unmap_frontend_rings :: "xenvif \<Rightarrow> xbus \<Rightarrow> xbus" where
  "xenvif_unmap_frontend_rings v w =
     (let w1 = (if tx_sring v \<noteq> 0 then xemit (UnmapRing (tx_sring v)) w else w)
      in if rx_sring v \<noteq> 0 then xemit (UnmapRing (rx_sring v)) w1 else w1)"

definition xenbus_map_ring_valloc :: "xenbus_api \<Rightarrow> xbus \<Rightarrow> int \<times> u64 \<times> xbus" where
  "xenbus_map_ring_valloc api w =
     (let (err, addr) = xa_map api (xlog w)
      in (err, addr, if err = 0 then xemit (MapRing addr) w else w))"

text \<open>\<open>BACK_RING_INIT\<close> of the receive ring: the shared part is now the guest's page.\<close>

definition rx_back_ring_init :: "xenbus_api \<Rightarrow> u64 \<Rightarrow> xenvif \<Rightarrow> xenvif" where
  "rx_back_ring_init api addr v =
     (let (prod, event, rsp, reqs, rsps) = xa_ring_page api addr
      in v\<lparr>rx_sring := addr, req_cons := 0, rsp_prod_pvt := 0,
           req_prod := prod, req_event := event, rsp_prod := rsp, requests := reqs, responses := rsps\<rparr>)"

definition xenvif_map_frontend_rings :: "xenbus_api \<Rightarrow> xenvif \<Rightarrow> xbus \<Rightarrow> int \<times> xenvif \<times> xbus" where
  "xenvif_map_frontend_rings api v w =
     (let (err, addr, w1) = xenbus_map_ring_valloc api w
      in if err \<noteq> 0 then (err, v, xenvif_unmap_frontend_rings v w1)
         else let v1 = v\<lparr>tx_sring := addr\<rparr>;
                  (err, addr, w2) = xenbus_map_ring_valloc api w1
              in if err \<noteq> 0 then (err, v1, xenvif_unmap_frontend_rings v1 w2)
                 else (0, rx_back_ring_init api addr v1, w2))"

text \<open>The error paths of \<open>xenvif_connect\<close>.\<close>

definition err_unmap :: "int \<Rightarrow> xenvif \<Rightarrow> xbus \<Rightarrow> int \<times> xenvif \<times> xbus" where
  "err_unmap err v w = (err, v, xenvif_unmap_frontend_rings v w)"

definition err_tx_unbind :: "int \<Rightarrow> xenvif \<Rightarrow> xbus \<Rightarrow> int \<times> xenvif \<times> xbus" where
  "err_tx_unbind err v w = err_unmap err (v\<lparr>tx_irq := 0\<rparr>) (xemit (UnbindIrq (tx_irq v)) w)"

definition err_rx_unbind :: "int \<Rightarrow> xenvif \<Rightarrow> xbus \<Rightarrow> int \<times> xenvif \<times> xbus" where
  "err_rx_unbind err v w = err_tx_unbind err (v\<lparr>rx_irq := 0\<rparr>) (xemit (UnbindIrq (rx_irq v)) w)"

text \<open>The last part: the thread, and the interrupts are enabled.\<close>

definition connect_thread :: "xenbus_api \<Rightarrow> xenvif \<Rightarrow> xbus \<Rightarrow> int \<times> xenvif \<times> xbus" where
  "connect_thread api v w =
     (if xa_kthread api < 0 then err_rx_unbind (xa_kthread api) v w
      else let v1 = v\<lparr>task := True\<rparr>;
               w1 = xemit (EnableIrq (tx_irq v1)) w;
               w2 = (if tx_irq v1 \<noteq> rx_irq v1 then xemit (EnableIrq (rx_irq v1)) w1 else w1)
           in (0, v1, xemit ThreadStart w2))"

definition bind_evtchn :: "xenbus_api \<Rightarrow> u32 \<Rightarrow> xbus \<Rightarrow> int \<times> xbus" where
  "bind_evtchn api evtchn w =
     (let irq = xa_bind api (xlog w) evtchn
      in (irq, if irq < 0 then w else xemit (DisableIrq (of_int irq)) (xemit (BindIrq (of_int irq)) w)))"

definition xenvif_connect ::
  "xenbus_api \<Rightarrow> u32 \<Rightarrow> u32 \<Rightarrow> xenvif \<Rightarrow> xbus \<Rightarrow> fault + int \<times> xenvif \<times> xbus" where
  "xenvif_connect api tx_evtchn rx_evtchn v w =
     (if tx_irq v \<noteq> 0 then Inl KernelBug
      else Inr (let (err, v1, w1) = xenvif_map_frontend_rings api v w
        in if err < 0 then (err, v1, w1)
           else if tx_evtchn = rx_evtchn then
             (let (irq, w2) = bind_evtchn api tx_evtchn w1
              in if irq < 0 then err_unmap irq v1 w2
                 else connect_thread api (v1\<lparr>tx_irq := of_int irq, rx_irq := of_int irq\<rparr>) w2)
           else
             (let (irq, w2) = bind_evtchn api tx_evtchn w1
              in if irq < 0 then err_unmap irq v1 w2
                 else let v2 = v1\<lparr>tx_irq := of_int irq\<rparr>; (irq, w3) = bind_evtchn api rx_evtchn w2
                      in if irq < 0 then err_tx_unbind irq v2 w3
                         else connect_thread api (v2\<lparr>rx_irq := of_int irq\<rparr>) w3)))"

definition xenvif_disconnect :: "xenvif \<Rightarrow> xbus \<Rightarrow> xenvif \<times> xbus" where
  "xenvif_disconnect v w =
     (let w1 = xemit (DisableIrq (tx_irq v)) w;
          w2 = (if tx_irq v \<noteq> rx_irq v then xemit (DisableIrq (rx_irq v)) w1 else w1);
          (v1, w3) = (if task v then (v\<lparr>task := False\<rparr>, xemit ThreadStop w2) else (v, w2));
          (v2, w4) =
            (if tx_irq v1 \<noteq> 0 then
               (v1\<lparr>tx_irq := 0\<rparr>,
                if tx_irq v1 = rx_irq v1 then xemit (UnbindIrq (tx_irq v1)) w3
                else xemit (UnbindIrq (rx_irq v1)) (xemit (UnbindIrq (tx_irq v1)) w3))
             else (v1, w3))
      in (v2, xenvif_unmap_frontend_rings v2 w4))"

section \<open>The back end\<close>

text \<open>The event channels: two, or one for both directions.\<close>

definition gather_evtchns :: "xenbus_api \<Rightarrow> xbus \<Rightarrow> (int \<times> xbus) + (u32 \<times> u32)" where
  "gather_evtchns api w =
     (if xa_gather_evtchn api < 0 then
        (let err = xa_scan_evtchn api
         in if err < 0 then Inl (err, xemit (Fatal err) w) else Inr (xa_evtchn api, xa_evtchn api))
      else Inr (xa_tx_evtchn api, xa_rx_evtchn api))"

definition connect_rings :: "xenbus_api \<Rightarrow> xbus \<Rightarrow> fault + int \<times> xbus" where
  "connect_rings api w =
     (let err = xa_gather_rings api
      in if err \<noteq> 0 then Inr (err, xemit (Fatal err) w)
         else case gather_evtchns api w of
           Inl r \<Rightarrow> Inr r
         | Inr (tx_evtchn, rx_evtchn) \<Rightarrow>
             (let err = xa_scan_rx_copy api;
                  (err, rx_copy) = (if err = - ENOENT then (0, 0) else (err, xa_rx_copy api))
              in if err < 0 then Inr (err, xemit (Fatal err) w)
                 else if rx_copy = 0 then Inr (- EOPNOTSUPP, w)
                 else rbind (get_vif (be_vif (backend w)) w) (\<lambda>v.
                   rbind (xenvif_connect api tx_evtchn rx_evtchn v w) (\<lambda>(err, v1, w1).
                     let w2 = set_vif (be_vif (backend w)) v1 w1
                     in Inr (err, if err \<noteq> 0 then xemit (Fatal err) w2 else w2)))))"

definition unregister_hotplug_status_watch :: "xbus \<Rightarrow> xbus" where
  "unregister_hotplug_status_watch w =
     upd_be (\<lambda>be. be\<lparr>have_hotplug_status_watch := False\<rparr>)
       (if have_hotplug_status_watch (backend w) then xemit UnwatchHotplug w else w)"

definition hotplug_status_changed :: "xenbus_api \<Rightarrow> xbus \<Rightarrow> xbus" where
  "hotplug_status_changed api w =
     (if xa_hotplug_status api = Some ''connected'' then
        unregister_hotplug_status_watch (xemit (SwitchState (be_state (backend w))) w)
      else w)"

definition connect :: "xenbus_api \<Rightarrow> xbus \<Rightarrow> fault + xbus" where
  "connect api w =
     rbind (connect_rings api w) (\<lambda>(err, w1).
       if err \<noteq> 0 then Inr w1
       else let w2 = unregister_hotplug_status_watch w1
            in Inr (if xa_watch api = 0
                    then upd_be (\<lambda>be. be\<lparr>have_hotplug_status_watch := True\<rparr>) (xemit WatchHotplug w2)
                    else w2))"

definition backend_create_xenvif :: "xenbus_api \<Rightarrow> xbus \<Rightarrow> xbus" where
  "backend_create_xenvif api w =
     (if be_vif (backend w) \<noteq> 0 then w
      else if xa_scan_handle api \<noteq> 1 then xemit (Fatal (xa_scan_handle api)) w
      else let (vif, w1) = xenvif_alloc api w; w2 = upd_be (\<lambda>be. be\<lparr>be_vif := vif\<rparr>) w1
           in if IS_ERR vif then xemit (Fatal (- ENOMEM)) (upd_be (\<lambda>be. be\<lparr>be_vif := 0\<rparr>) w2)
              else xemit UeventOnline (w2\<lparr>FIXME_vif := be_vif (backend w2)\<rparr>))"

definition backend_disconnect :: "xbus \<Rightarrow> fault + xbus" where
  "backend_disconnect w =
     (if be_vif (backend w) \<noteq> 0 then
        rbind (get_vif (be_vif (backend w)) w) (\<lambda>v.
          let (v1, w1) = xenvif_disconnect v w in Inr (set_vif (be_vif (backend w)) v1 w1))
      else Inr w)"

definition backend_connect :: "xenbus_api \<Rightarrow> xbus \<Rightarrow> fault + xbus" where
  "backend_connect api w = (if be_vif (backend w) \<noteq> 0 then connect api w else Inr w)"

section \<open>The state machine\<close>

text \<open>One turn of the loop of \<open>set_backend_state\<close>; \<open>BUG()\<close> where there is no way on.\<close>

definition backend_step :: "xenbus_api \<Rightarrow> xenbus_state \<Rightarrow> xbus \<Rightarrow> fault + xbus" where
  "backend_step api state w =
     (case be_state (backend w) of
        XenbusStateClosed \<Rightarrow>
          (if state = XenbusStateInitWait \<or> state = XenbusStateConnected
           then Inr (backend_switch_state XenbusStateInitWait w)
           else if state = XenbusStateClosing then Inr (backend_switch_state XenbusStateClosing w)
           else Inl KernelBug)
      | XenbusStateInitWait \<Rightarrow>
          (if state = XenbusStateConnected then
             rbind (backend_connect api w) (\<lambda>w1. Inr (backend_switch_state XenbusStateConnected w1))
           else if state = XenbusStateClosing \<or> state = XenbusStateClosed
           then Inr (backend_switch_state XenbusStateClosing w)
           else Inl KernelBug)
      | XenbusStateConnected \<Rightarrow>
          (if state = XenbusStateInitWait \<or> state = XenbusStateClosing \<or> state = XenbusStateClosed then
             rbind (backend_disconnect w) (\<lambda>w1. Inr (backend_switch_state XenbusStateClosing w1))
           else Inl KernelBug)
      | XenbusStateClosing \<Rightarrow>
          (if state = XenbusStateInitWait \<or> state = XenbusStateConnected \<or> state = XenbusStateClosed
           then Inr (backend_switch_state XenbusStateClosed w)
           else Inl KernelBug)
      | _ \<Rightarrow> Inl KernelBug)"

text \<open>How many turns are left.\<close>

fun turns :: "xenbus_state \<Rightarrow> xenbus_state \<Rightarrow> nat" where
  "turns XenbusStateInitWait XenbusStateConnected = 1"
| "turns XenbusStateInitWait XenbusStateClosing = 1"
| "turns XenbusStateInitWait XenbusStateClosed = 2"
| "turns XenbusStateConnected XenbusStateClosing = 1"
| "turns XenbusStateConnected XenbusStateClosed = 2"
| "turns XenbusStateConnected XenbusStateInitWait = 3"
| "turns XenbusStateClosing XenbusStateClosed = 1"
| "turns XenbusStateClosing XenbusStateInitWait = 2"
| "turns XenbusStateClosing XenbusStateConnected = 3"
| "turns XenbusStateClosed XenbusStateClosing = 1"
| "turns XenbusStateClosed XenbusStateInitWait = 1"
| "turns XenbusStateClosed XenbusStateConnected = 2"
| "turns _ _ = 0"

lemma be_state_switch [simp]: "be_state (backend (backend_switch_state st w)) = st"
  by (simp add: backend_switch_state_def Let_def upd_be_def xemit_def)

lemma backend_step_turns:
  "backend_step api state w = Inr w' \<Longrightarrow>
    turns (be_state (backend w')) state < turns (be_state (backend w)) state"
  by (cases "be_state (backend w)"; cases state) (auto simp: backend_step_def rbind_eq_Inr)

function set_backend_state :: "xenbus_api \<Rightarrow> xenbus_state \<Rightarrow> xbus \<Rightarrow> fault + xbus" where
  "set_backend_state api state w =
     (if be_state (backend w) \<noteq> state then
        rbind (backend_step api state w) (\<lambda>w1. set_backend_state api state w1)
      else Inr w)"
  by pat_completeness auto
termination
  by (relation "measure (\<lambda>(api, state, w). turns (be_state (backend w)) state)")
    (auto dest: backend_step_turns)

declare set_backend_state.simps [simp del]

section \<open>The front end's changes, probe and remove\<close>

text \<open>Without driver data both callbacks read through the null pointer.\<close>

definition nfback_remove :: "xenbus_api \<Rightarrow> xbus \<Rightarrow> fault + xbus" where
  "nfback_remove api w =
     (if \<not> bound w then Inl NullDeref
      else rbind (set_backend_state api XenbusStateClosed w) (\<lambda>w1.
        let w2 = unregister_hotplug_status_watch w1
        in rbind (if be_vif (backend w2) \<noteq> 0 then
                    rbind (xenvif_free (be_vif (backend w2)) (xemit RmHotplugStatus (xemit UeventOffline w2))) (\<lambda>w3.
                      Inr (upd_be (\<lambda>be. be\<lparr>be_vif := 0\<rparr>) w3))
                  else Inr w2) (\<lambda>w3. Inr (w3\<lparr>bound := False\<rparr>))))"

text \<open>
  The callback when the front end's state changes. Unregistering the device unbinds the driver before
  it returns, through \<open>nfback_remove\<close>.
\<close>

definition frontend_changed :: "xenbus_api \<Rightarrow> xenbus_state \<Rightarrow> xbus \<Rightarrow> fault + xbus" where
  "frontend_changed api fs w =
     (let w1 = upd_be (\<lambda>be. be\<lparr>frontend_state := fs\<rparr>) w;
          unregister = (\<lambda>w. rbind (set_backend_state api XenbusStateClosed w) (\<lambda>w1.
            nfback_remove api (xemit DeviceUnregister w1)))
      in if \<not> bound w then Inl NullDeref
         else case fs of
           XenbusStateInitialising \<Rightarrow> set_backend_state api XenbusStateInitWait w1
         | XenbusStateInitialised \<Rightarrow> Inr w1
         | XenbusStateConnected \<Rightarrow> set_backend_state api XenbusStateConnected w1
         | XenbusStateClosing \<Rightarrow> set_backend_state api XenbusStateClosing w1
         | XenbusStateClosed \<Rightarrow>
             rbind (set_backend_state api XenbusStateClosed w1) (\<lambda>w2.
               if xa_online api then Inr w2 else unregister w2)
         | XenbusStateUnknown \<Rightarrow> unregister w1
         | _ \<Rightarrow> Inr (xemit (Fatal (- EINVAL)) w1))"

text \<open>
  The transaction that announces \<open>feature-rx-copy\<close>: it is tried again as long as its end answers
  \<open>-EAGAIN\<close>; \<open>n\<close> counts the attempts.
\<close>

partial_function (option) write_features :: "xenbus_api \<Rightarrow> nat \<Rightarrow> xbus \<Rightarrow> (int \<times> xbus) option" where
  "write_features api n w =
     (let err = xa_trans_start api n
      in if err \<noteq> 0 then Some (err, xemit (Fatal err) w)
         else let err = xa_printf api n
              in if err \<noteq> 0 then Some (err, xemit (Fatal err) (xemit AbortTransaction w))
                 else let err = xa_trans_end api n
                      in if err = - EAGAIN then write_features api (n + 1) w
                         else if err \<noteq> 0 then Some (err, xemit (Fatal err) w)
                         else Some (0, w))"

definition probe_fail :: "xenbus_api \<Rightarrow> int \<Rightarrow> xbus \<Rightarrow> fault + int \<times> xbus" where
  "probe_fail api err w = rbind (nfback_remove api w) (\<lambda>w1. Inr (err, w1))"

definition nfback_probe :: "xenbus_api \<Rightarrow> xbus \<Rightarrow> (fault + int \<times> xbus) option" where
  "nfback_probe api w =
     (if \<not> xa_kzalloc_be api then Some (Inr (- ENOMEM, xemit (Fatal (- ENOMEM)) w))
      else map_option (\<lambda>(err, w2).
             if err \<noteq> 0 then probe_fail api err w2
             else let err = xa_switch_state api; w3 = xemit (SwitchState XenbusStateInitWait) w2
                  in if err \<noteq> 0 then probe_fail api err w3
                     else Inr (0, backend_create_xenvif api (upd_be (\<lambda>be. be\<lparr>be_state := XenbusStateInitWait\<rparr>) w3)))
        (write_features api 0 (w\<lparr>backend := backend_zero, bound := True\<rparr>)))"

definition xen_nfback_init :: "xenbus_api \<Rightarrow> xbus \<Rightarrow> bool \<times> xbus" where
  "xen_nfback_init api w = (xa_register api \<noteq> 0, w\<lparr>registered := xa_register api = 0\<rparr>)"

definition xen_nfback_fini :: "xbus \<Rightarrow> xbus" where
  "xen_nfback_fini w = (if registered w then xemit UnregisterDriver w else w)"

section \<open>The receive path's view\<close>

definition xenvif_connected :: "xbus \<Rightarrow> fault + bool" where
  "xenvif_connected w =
     (if FIXME_vif w = 0 then Inr False
      else rbind (get_vif (FIXME_vif w) w) (\<lambda>vif. Inr (task vif)))"

section \<open>The documented graph\<close>

text \<open>
  The comment above \<open>set_backend_state\<close> draws the allowed transitions and promises the shortest path.
  \<open>enter\<close> is what a transition does: leaving \<open>Connected\<close> disconnects, entering it connects.
\<close>

definition backend_states :: "xenbus_state set" where
  "backend_states = {XenbusStateInitWait, XenbusStateConnected, XenbusStateClosing, XenbusStateClosed}"

definition allowed :: "(xenbus_state \<times> xenbus_state) set" where
  "allowed = {(XenbusStateInitWait, XenbusStateConnected), (XenbusStateInitWait, XenbusStateClosing),
     (XenbusStateConnected, XenbusStateClosing), (XenbusStateClosing, XenbusStateClosed),
     (XenbusStateClosed, XenbusStateClosing), (XenbusStateClosed, XenbusStateInitWait)}"

fun walk :: "xenbus_state \<Rightarrow> xenbus_state list \<Rightarrow> xenbus_state \<Rightarrow> bool" where
  "walk a [] t \<longleftrightarrow> a = t"
| "walk a (c # p) t \<longleftrightarrow> (a, c) \<in> allowed \<and> walk c p t"

definition enter :: "xenbus_api \<Rightarrow> xenbus_state \<Rightarrow> xbus \<Rightarrow> fault + xbus" where
  "enter api st w =
     rbind (if be_state (backend w) = XenbusStateConnected then backend_disconnect w else Inr w) (\<lambda>w1.
       rbind (if st = XenbusStateConnected then backend_connect api w1 else Inr w1) (\<lambda>w2.
         Inr (backend_switch_state st w2)))"

fun follow :: "xenbus_api \<Rightarrow> xenbus_state list \<Rightarrow> xbus \<Rightarrow> fault + xbus" where
  "follow api [] w = Inr w"
| "follow api (st # sts) w = rbind (enter api st w) (follow api sts)"

lemma enter_state: "enter api st w = Inr w' \<Longrightarrow> be_state (backend w') = st"
  by (auto simp: enter_def rbind_eq_Inr)

text \<open>The next state on the way, and the table of turns as distances in the graph.\<close>

fun next_state :: "xenbus_state \<Rightarrow> xenbus_state \<Rightarrow> xenbus_state" where
  "next_state XenbusStateClosed t = (if t = XenbusStateClosing then t else XenbusStateInitWait)"
| "next_state XenbusStateInitWait t = (if t = XenbusStateConnected then t else XenbusStateClosing)"
| "next_state XenbusStateConnected t = XenbusStateClosing"
| "next_state _ t = XenbusStateClosed"

lemma next_state_on_way:
  assumes "a \<in> backend_states" "t \<in> backend_states" "a \<noteq> t"
  shows "(a, next_state a t) \<in> allowed \<and> turns a t = Suc (turns (next_state a t) t) \<and>
    next_state a t \<in> backend_states"
  using assms by (auto simp: backend_states_def allowed_def)

lemma backend_step_enter:
  assumes "be_state (backend w) \<in> backend_states" "t \<in> backend_states" "be_state (backend w) \<noteq> t"
  shows "backend_step api t w = enter api (next_state (be_state (backend w)) t) w"
  using assms by (auto simp: backend_states_def backend_step_def enter_def)

lemma turns_triangle:
  assumes "(a, c) \<in> allowed" "t \<in> backend_states"
  shows "turns a t \<le> Suc (turns c t)"
  using assms by (auto simp: backend_states_def allowed_def)

lemma turns_shortest: "walk a p t \<Longrightarrow> t \<in> backend_states \<Longrightarrow> turns a t \<le> length p"
proof (induction p arbitrary: a)
  case Nil
  then show ?case by (cases t) auto
next
  case (Cons c p)
  then have "turns a t \<le> Suc (turns c t)" "turns c t \<le> length p" using turns_triangle by auto
  then show ?case by simp
qed

lemma set_backend_state_path:
  assumes "t \<in> backend_states"
  shows "a \<in> backend_states \<Longrightarrow> \<exists>p. walk a p t \<and> length p = turns a t \<and>
    (\<forall>w. be_state (backend w) = a \<longrightarrow> set_backend_state api t w = follow api p w)"
proof (induction "turns a t" arbitrary: a rule: less_induct)
  case less
  show ?case
  proof (cases "a = t")
    case True
    then have "turns a t = 0" by (cases t) simp_all
    then show ?thesis using True by (intro exI [of _ "[]"]) (simp add: set_backend_state.simps)
  next
    case False
    let ?n = "next_state a t"
    note n = next_state_on_way [OF less.prems assms False]
    obtain p where p: "walk ?n p t" "length p = turns ?n t"
      "\<forall>w. be_state (backend w) = ?n \<longrightarrow> set_backend_state api t w = follow api p w"
      using less.hyps [of ?n] n by auto
    have "set_backend_state api t w = follow api (?n # p) w" if w: "be_state (backend w) = a" for w
    proof -
      have "set_backend_state api t w = rbind (enter api ?n w) (\<lambda>w1. set_backend_state api t w1)"
        using False w backend_step_enter [of w t api] less.prems assms
        by (simp add: set_backend_state.simps [of api t w])
      also have "\<dots> = rbind (enter api ?n w) (follow api p)"
        using p(3) enter_state [of api ?n w] by (intro rbind_cong) auto
      finally show ?thesis by simp
    qed
    then show ?thesis using p(1,2) n by (intro exI [of _ "?n # p"]) simp
  qed
qed

section \<open>The invariant of the back end\<close>

text \<open>
  The back end is in one of its four states, its interface is live, and no event channel is bound
  unless it is connected.
\<close>

definition vif_of :: "xbus \<Rightarrow> xenvif option" where
  "vif_of w = vifs w (be_vif (backend w))"

definition backend_ok :: "xbus \<Rightarrow> bool" where
  "backend_ok w \<longleftrightarrow> be_state (backend w) \<in> backend_states \<and>
     (be_vif (backend w) = 0 \<or>
      (\<exists>v. vif_of w = Some v \<and> (be_state (backend w) \<noteq> XenbusStateConnected \<longrightarrow> tx_irq v = 0)))"

lemma xemit_fields [simp]:
  "vifs (xemit e w) = vifs w" "FIXME_vif (xemit e w) = FIXME_vif w" "backend (xemit e w) = backend w"
  "bound (xemit e w) = bound w" "registered (xemit e w) = registered w" "xlog (xemit e w) = xlog w @ [e]"
  by (simp_all add: xemit_def)

lemma upd_be_fields [simp]:
  "vifs (upd_be f w) = vifs w" "FIXME_vif (upd_be f w) = FIXME_vif w" "backend (upd_be f w) = f (backend w)"
  "bound (upd_be f w) = bound w" "registered (upd_be f w) = registered w" "xlog (upd_be f w) = xlog w"
  by (simp_all add: upd_be_def)

lemma set_vif_fields [simp]:
  "vifs (set_vif p v w) = (vifs w)(p \<mapsto> v)" "FIXME_vif (set_vif p v w) = FIXME_vif w"
  "backend (set_vif p v w) = backend w" "bound (set_vif p v w) = bound w"
  "registered (set_vif p v w) = registered w" "xlog (set_vif p v w) = xlog w"
  by (simp_all add: set_vif_def)

text \<open>Operations on the interface only write the log: they keep all else of the bus.\<close>

definition only_log :: "xbus \<Rightarrow> xbus \<Rightarrow> bool" where
  "only_log w w' \<longleftrightarrow> vifs w' = vifs w \<and> FIXME_vif w' = FIXME_vif w \<and> backend w' = backend w \<and>
     bound w' = bound w \<and> registered w' = registered w"

lemma only_log_refl [simp]: "only_log w w"
  by (simp add: only_log_def)

lemma only_log_xemit [simp]: "only_log w (xemit e w') = only_log w w'"
  by (simp add: only_log_def)

lemma only_log_unmap [simp]: "only_log w (xenvif_unmap_frontend_rings v w') = only_log w w'"
  by (simp add: xenvif_unmap_frontend_rings_def Let_def)

lemma only_log_map [simp]: "only_log w0 (snd (snd (xenvif_map_frontend_rings api v w))) = only_log w0 w"
  by (simp add: xenvif_map_frontend_rings_def xenbus_map_ring_valloc_def Let_def split_beta)

lemma only_log_bind [simp]: "only_log w0 (snd (bind_evtchn api e w)) = only_log w0 w"
  by (simp add: bind_evtchn_def Let_def)

lemma only_log_thread [simp]: "only_log w0 (snd (snd (connect_thread api v w))) = only_log w0 w"
  by (simp add: connect_thread_def err_rx_unbind_def err_tx_unbind_def err_unmap_def Let_def)

lemma xenvif_connect_ok:
  assumes "tx_irq v = 0"
  shows "\<exists>err v' w'. xenvif_connect api te re v w = Inr (err, v', w') \<and> only_log w w'"
proof -
  obtain x where x: "xenvif_connect api te re v w = Inr x" using assms by (simp add: xenvif_connect_def)
  have "only_log w (snd (snd x))"
    using x assms by (auto simp: xenvif_connect_def err_tx_unbind_def err_unmap_def Let_def split_beta)
  then show ?thesis using x by (cases x) auto
qed

lemma disconnect_ok:
  "tx_irq (fst (xenvif_disconnect v w)) = 0" "only_log w (snd (xenvif_disconnect v w))"
  by (auto simp: xenvif_disconnect_def Let_def)

lemma connect_ok:
  assumes "be_vif (backend w) \<noteq> 0" "vif_of w = Some v" "tx_irq v = 0"
  shows "\<exists>w' v'. connect api w = Inr w' \<and> vif_of w' = Some v' \<and> be_vif (backend w') = be_vif (backend w) \<and>
    FIXME_vif w' = FIXME_vif w \<and> bound w' = bound w"
proof -
  have g: "get_vif (be_vif (backend w)) w = Inr v" using assms by (simp add: get_vif_def vif_of_def)
  have "\<exists>err w1 v1. connect_rings api w = Inr (err, w1) \<and> vif_of w1 = Some v1 \<and>
    be_vif (backend w1) = be_vif (backend w) \<and> FIXME_vif w1 = FIXME_vif w \<and> bound w1 = bound w"
  proof (cases "gather_evtchns api w")
    case (Inl r)
    then have "only_log w (snd r)" by (auto simp: gather_evtchns_def Let_def split: if_splits)
    then show ?thesis using Inl assms(2)
      by (cases r) (auto simp: connect_rings_def Let_def only_log_def vif_of_def)
  next
    case (Inr r)
    obtain te re where r: "r = (te, re)" by fastforce
    obtain err v' w' where "xenvif_connect api te re v w = Inr (err, v', w')" "only_log w w'"
      using xenvif_connect_ok [OF assms(3)] by blast
    then show ?thesis using Inr r g assms(2)
      by (auto simp: connect_rings_def Let_def only_log_def vif_of_def)
  qed
  then show ?thesis
    by (auto simp: connect_def unregister_hotplug_status_watch_def vif_of_def Let_def)
qed

lemma switch_fields [simp]:
  "vifs (backend_switch_state st w) = vifs w" "FIXME_vif (backend_switch_state st w) = FIXME_vif w"
  "be_vif (backend (backend_switch_state st w)) = be_vif (backend w)"
  "bound (backend_switch_state st w) = bound w"
  by (simp_all add: backend_switch_state_def Let_def)

lemma enter_ok:
  assumes "backend_ok w" "st \<in> backend_states" "(be_state (backend w), st) \<in> allowed"
  shows "\<exists>w'. enter api st w = Inr w' \<and> backend_ok w' \<and> be_vif (backend w') = be_vif (backend w) \<and>
    FIXME_vif w' = FIXME_vif w \<and> bound w' = bound w"
proof (cases "be_vif (backend w) = 0")
  case True
  then show ?thesis using assms(2)
    by (auto simp: enter_def backend_disconnect_def backend_connect_def backend_ok_def)
next
  case False
  then obtain v where v: "vif_of w = Some v" "be_state (backend w) \<noteq> XenbusStateConnected \<longrightarrow> tx_irq v = 0"
    using assms(1) by (auto simp: backend_ok_def)
  show ?thesis
  proof (cases "be_state (backend w) = XenbusStateConnected")
    case True
    then have "st \<noteq> XenbusStateConnected" using assms(3) by (auto simp: allowed_def)
    then show ?thesis using True False v(1) assms(2) disconnect_ok [where v = v and w = w]
      by (auto simp: enter_def backend_disconnect_def get_vif_def vif_of_def backend_ok_def only_log_def Let_def
          split: prod.splits)
  next
    case nc: False
    show ?thesis
    proof (cases "st = XenbusStateConnected")
      case True
      obtain w' v' where "connect api w = Inr w'" "vif_of w' = Some v'" "be_vif (backend w') = be_vif (backend w)"
        "FIXME_vif w' = FIXME_vif w" "bound w' = bound w"
        using connect_ok [OF False v(1)] v(2) nc by blast
      then show ?thesis using True nc False assms(2)
        by (auto simp: enter_def backend_connect_def backend_ok_def vif_of_def)
    next
      case False
      then show ?thesis using nc v assms(2) by (auto simp: enter_def backend_ok_def vif_of_def)
    qed
  qed
qed

lemma follow_ok:
  "walk (be_state (backend w)) p t \<Longrightarrow> backend_ok w \<Longrightarrow>
    \<exists>w'. follow api p w = Inr w' \<and> backend_ok w' \<and> be_state (backend w') = t \<and>
      be_vif (backend w') = be_vif (backend w) \<and> FIXME_vif w' = FIXME_vif w \<and> bound w' = bound w"
proof (induction p arbitrary: w)
  case Nil
  then show ?case by simp
next
  case (Cons st p)
  then have a: "(be_state (backend w), st) \<in> allowed" by simp
  then have "st \<in> backend_states" by (auto simp: allowed_def backend_states_def)
  from enter_ok [OF Cons.prems(2) this a] obtain w1 where w1: "enter api st w = Inr w1" "backend_ok w1"
    "be_vif (backend w1) = be_vif (backend w)" "FIXME_vif w1 = FIXME_vif w" "bound w1 = bound w" by blast
  then show ?case using Cons.IH [of w1] Cons.prems(1) enter_state [OF w1(1)] by auto
qed

lemma set_backend_state_ok:
  assumes "backend_ok w" "t \<in> backend_states"
  shows "\<exists>w'. set_backend_state api t w = Inr w' \<and> backend_ok w' \<and> be_state (backend w') = t \<and>
    be_vif (backend w') = be_vif (backend w) \<and> FIXME_vif w' = FIXME_vif w \<and> bound w' = bound w"
proof -
  have "be_state (backend w) \<in> backend_states" using assms(1) by (simp add: backend_ok_def)
  from set_backend_state_path [OF assms(2) this, of api] obtain p where
    "walk (be_state (backend w)) p t" "set_backend_state api t w = follow api p w" by blast
  then show ?thesis using follow_ok [OF _ assms(1)] by auto
qed

text \<open>
  Every state the back end can come to, whatever the services answer, as long as the device is bound:
  unregistering it ends with \<open>nfback_remove\<close>, after which there are no more callbacks.
\<close>

inductive xb_reach :: "xbus \<Rightarrow> bool" where
  probed: "nfback_probe api w = Some (Inr (0, w')) \<Longrightarrow> xa_kzalloc_be api \<Longrightarrow> xb_reach w'"
| changed: "xb_reach w \<Longrightarrow> frontend_changed api fs w = Inr w' \<Longrightarrow> bound w' \<Longrightarrow> xb_reach w'"
| hotplug: "xb_reach w \<Longrightarrow> xb_reach (hotplug_status_changed api w)"

lemma hotplug_ok: "backend_ok w \<Longrightarrow> backend_ok (hotplug_status_changed api w)"
  by (auto simp: hotplug_status_changed_def unregister_hotplug_status_watch_def backend_ok_def vif_of_def)

lemma hotplug_bound: "bound (hotplug_status_changed api w) = bound w"
  by (simp add: hotplug_status_changed_def unregister_hotplug_status_watch_def)

lemma upd_frontend_ok: "backend_ok (upd_be (\<lambda>be. be\<lparr>frontend_state := fs\<rparr>) w) = backend_ok w"
  by (simp add: backend_ok_def vif_of_def)

lemma xemit_ok [simp]: "backend_ok (xemit e w) = backend_ok w"
  by (simp add: backend_ok_def vif_of_def)

lemma remove_ok:
  assumes "backend_ok w" "bound w"
  shows "\<exists>w'. nfback_remove api w = Inr w' \<and> \<not> bound w' \<and> FIXME_vif w' = FIXME_vif w \<and>
    (be_vif (backend w) \<noteq> 0 \<longrightarrow> vifs w' (be_vif (backend w)) = None)"
proof -
  obtain w1 where w1: "set_backend_state api XenbusStateClosed w = Inr w1" "backend_ok w1"
    "be_vif (backend w1) = be_vif (backend w)" "FIXME_vif w1 = FIXME_vif w"
    using set_backend_state_ok [OF assms(1), of XenbusStateClosed api] by (auto simp: backend_states_def)
  then show ?thesis using assms(2)
    by (auto simp: nfback_remove_def unregister_hotplug_status_watch_def xenvif_free_def get_vif_def backend_ok_def
        vif_of_def Let_def)
qed

lemma unregister_ok:
  assumes "backend_ok w" "bound w"
  shows "\<exists>w'. rbind (set_backend_state api XenbusStateClosed w) (\<lambda>w1.
    nfback_remove api (xemit DeviceUnregister w1)) = Inr w' \<and> \<not> bound w'"
proof -
  obtain w1 where w1: "set_backend_state api XenbusStateClosed w = Inr w1" "backend_ok w1" "bound w1 = bound w"
    using set_backend_state_ok [OF assms(1), of XenbusStateClosed api] by (auto simp: backend_states_def)
  then show ?thesis using remove_ok [of "xemit DeviceUnregister w1" api] assms(2) by auto
qed

lemma frontend_changed_ok:
  assumes "backend_ok w" "bound w"
  shows "\<exists>w'. frontend_changed api fs w = Inr w' \<and> (bound w' \<longrightarrow> backend_ok w')"
proof -
  let ?w1 = "upd_be (\<lambda>be. be\<lparr>frontend_state := fs\<rparr>) w"
  let ?unregister = "\<lambda>w. rbind (set_backend_state api XenbusStateClosed w) (\<lambda>w1.
    nfback_remove api (xemit DeviceUnregister w1))"
  have b: "backend_ok ?w1" "bound ?w1" using assms by (simp_all add: upd_frontend_ok)
  have s: "\<exists>w'. set_backend_state api t ?w1 = Inr w' \<and> backend_ok w' \<and> bound w'" if "t \<in> backend_states" for t
    using set_backend_state_ok [OF b(1) that, of api] b(2) by auto
  have u: "\<exists>w'. ?unregister w2 = Inr w' \<and> (bound w' \<longrightarrow> backend_ok w')" if "backend_ok w2" "bound w2" for w2
    using unregister_ok [OF that, of api] by auto
  have c: "\<exists>w'. rbind (set_backend_state api XenbusStateClosed ?w1) (\<lambda>w2.
      if xa_online api then Inr w2 else ?unregister w2) = Inr w' \<and> (bound w' \<longrightarrow> backend_ok w')"
  proof -
    obtain w2 where w2: "set_backend_state api XenbusStateClosed ?w1 = Inr w2" "backend_ok w2" "bound w2"
      using s [of XenbusStateClosed] by (auto simp: backend_states_def)
    then show ?thesis using u [OF w2(2,3)] by (cases "xa_online api") auto
  qed
  show ?thesis
  proof (cases fs)
    case XenbusStateUnknown
    then show ?thesis using u [OF b] assms(2) by (simp add: frontend_changed_def Let_def)
  next
    case XenbusStateClosed
    then show ?thesis using c assms(2) by (simp add: frontend_changed_def Let_def)
  qed (use b s assms(2) in \<open>auto simp: frontend_changed_def Let_def backend_states_def\<close>)
qed

lemma vif_of_create:
  assumes "be_state (backend w) = XenbusStateInitWait" "be_vif (backend w) = 0"
  shows "backend_ok (backend_create_xenvif api w)"
  using assms by (auto simp: backend_create_xenvif_def xenvif_alloc_def backend_ok_def vif_of_def vif_zero_def
      backend_states_def Let_def IS_ERR_def ERR_PTR_def ENOMEM_def)

lemma write_features_raw:
  assumes "write_features api n w = Some r"
  shows "backend (snd r) = backend w \<and> bound (snd r) = bound w"
  by (rule write_features.raw_induct [OF _ assms, of "\<lambda>api n w r. backend (snd r) = backend w \<and> bound (snd r) = bound w"])
    (auto simp: Let_def split: if_splits)

lemma write_features_fields:
  "write_features api n w = Some (err, w') \<Longrightarrow> backend w' = backend w \<and> bound w' = bound w"
  using write_features_raw [of api n w "(err, w')"] by simp

lemma probe_fail_err: "probe_fail api err w = Inr (e, w') \<Longrightarrow> e = err"
  by (auto simp: probe_fail_def rbind_eq_Inr)

lemma create_bound: "bound (backend_create_xenvif api w) = bound w"
  by (simp add: backend_create_xenvif_def xenvif_alloc_def Let_def)

lemma probe_ok:
  assumes "nfback_probe api w = Some (Inr (0, w'))" "xa_kzalloc_be api"
  shows "backend_ok w' \<and> bound w'"
proof -
  obtain err w2 where wf: "write_features api 0 (w\<lparr>backend := backend_zero, bound := True\<rparr>) = Some (err, w2)"
    using assms by (cases "write_features api 0 (w\<lparr>backend := backend_zero, bound := True\<rparr>)") (auto simp: nfback_probe_def)
  then have b: "be_vif (backend w2) = 0" "bound w2"
    using write_features_fields [OF wf] by (simp_all add: backend_zero_def)
  show ?thesis using assms wf b
    by (auto simp: nfback_probe_def Let_def create_bound split: if_splits
        dest!: probe_fail_err intro!: vif_of_create)
qed

lemma reach_ok: "xb_reach w \<Longrightarrow> backend_ok w \<and> bound w"
proof (induction rule: xb_reach.induct)
  case (probed api w w')
  then show ?case by (rule probe_ok)
next
  case (changed w api fs w')
  then show ?case using frontend_changed_ok [of w api fs] by auto
next
  case (hotplug w api)
  then show ?case by (simp add: hotplug_ok hotplug_bound)
qed

text \<open>The events that acquire or release something.\<close>

fun is_resource :: "xbev \<Rightarrow> bool" where
  "is_resource (MapRing a) = True"
| "is_resource (UnmapRing a) = True"
| "is_resource (BindIrq i) = True"
| "is_resource (UnbindIrq i) = True"
| "is_resource ThreadStart = True"
| "is_resource ThreadStop = True"
| "is_resource WatchHotplug = True"
| "is_resource UnwatchHotplug = True"
| "is_resource _ = False"

definition resources :: "xbus \<Rightarrow> xbev list" where
  "resources w = filter is_resource (xlog w)"

lemma resources_simps [simp]:
  "resources (xemit e w) = resources w @ (if is_resource e then [e] else [])"
  "resources (upd_be f w) = resources w" "resources (set_vif p v w) = resources w"
  by (simp_all add: resources_def)

lemma switch_watch: "have_hotplug_status_watch (backend (backend_switch_state st w)) = have_hotplug_status_watch (backend w)"
  by (simp add: backend_switch_state_def Let_def)

lemma resources_update [simp]: "resources (w\<lparr>vifs := x\<rparr>) = resources w" "resources (w\<lparr>bound := y\<rparr>) = resources w"
  by (simp_all add: resources_def)

lemma resources_switch [simp]: "resources (backend_switch_state st w) = resources w"
  by (simp add: backend_switch_state_def Let_def)

lemma remove_closing:
  assumes "be_state (backend w) = XenbusStateClosing" "bound w" "p \<noteq> 0" "vifs w p = Some v" "be_vif (backend w) = p"
  shows "\<exists>w'. nfback_remove api w = Inr w' \<and> \<not> bound w' \<and> vifs w' p = None \<and>
    resources w' = resources w @ (if have_hotplug_status_watch (backend w) then [UnwatchHotplug] else [])"
proof -
  have "set_backend_state api XenbusStateClosed w = Inr (backend_switch_state XenbusStateClosed w)"
    using assms(1) by (simp add: set_backend_state.simps [of api XenbusStateClosed] backend_step_def)
  then show ?thesis using assms(2-5)
    by (simp add: nfback_remove_def unregister_hotplug_status_watch_def xenvif_free_def get_vif_def switch_watch Let_def)
qed

text \<open>The front end has published its rings and channels, asks for copying, and its pages can be mapped.\<close>

definition front_published :: "xenbus_api \<Rightarrow> xbus \<Rightarrow> u32 \<Rightarrow> u32 \<Rightarrow> u64 \<Rightarrow> u64 \<Rightarrow> bool" where
  "front_published api w te re a b \<longleftrightarrow> xa_gather_rings api = 0 \<and> gather_evtchns api w = Inr (te, re) \<and>
     0 \<le> xa_scan_rx_copy api \<and> xa_rx_copy api \<noteq> 0 \<and> a \<noteq> 0 \<and> b \<noteq> 0 \<and>
     xa_map api (xlog w) = (0, a) \<and> xa_map api (xlog w @ [MapRing a]) = (0, b)"

lemma map_rings_published:
  assumes "front_published api w te re a b"
  shows "xenvif_map_frontend_rings api v w =
    (0, rx_back_ring_init api b (v\<lparr>tx_sring := a\<rparr>), xemit (MapRing b) (xemit (MapRing a) w))"
  using assms by (simp add: front_published_def xenvif_map_frontend_rings_def xenbus_map_ring_valloc_def)

lemma ring_init_fields [simp]:
  "tx_irq (rx_back_ring_init api b v) = tx_irq v" "tx_sring (rx_back_ring_init api b v) = tx_sring v"
  "rx_sring (rx_back_ring_init api b v) = b" "rx_irq (rx_back_ring_init api b v) = rx_irq v"
  "task (rx_back_ring_init api b v) = task v"
  by (simp_all add: rx_back_ring_init_def split_beta)

lemma connect_rings_published:
  assumes "front_published api w te re a b" "vif_of w = Some v" "be_vif (backend w) \<noteq> 0"
    "xenvif_connect api te re v w = Inr (err, v1, w1)"
  shows "connect_rings api w = Inr (err, let w2 = set_vif (be_vif (backend w)) v1 w1 in if err \<noteq> 0 then xemit (Fatal err) w2 else w2)"
  using assms by (auto simp: connect_rings_def front_published_def get_vif_def vif_of_def ENOENT_def Let_def)

lemma resources_unmap:
  "tx_sring v \<noteq> 0 \<Longrightarrow> rx_sring v \<noteq> 0 \<Longrightarrow> resources (xenvif_unmap_frontend_rings v w) =
    resources w @ [UnmapRing (tx_sring v), UnmapRing (rx_sring v)]"
  by (simp add: xenvif_unmap_frontend_rings_def)

text \<open>A guest whose ring page is in order.\<close>

definition page_ok :: "xenbus_api \<Rightarrow> u64 \<Rightarrow> bool" where
  "page_ok api b \<longleftrightarrow> (case xa_ring_page api b of (p, ev, rsp, _) \<Rightarrow> rsp = 0 \<and> unat p \<le> XEN_NETIF_RX_RING_SIZE)"

lemma ring_init_ok:
  "page_ok api b \<Longrightarrow> rx_last_slots v \<in> {0, 1} \<Longrightarrow> xring_ok (rx_back_ring_init api b v)"
  by (auto simp: page_ok_def rx_back_ring_init_def xring_ok_def filling_def)

section \<open>A concrete bus\<close>

text \<open>Every service succeeds; the rings are mapped at \<open>0x700000\<close> and \<open>0x701000\<close>; the front end has one
  event channel, and \<open>irq\<close> is what binding it answers.\<close>

definition demo_xapi :: "int \<Rightarrow> xenbus_api" where
  "demo_xapi irq = \<lparr>xa_domid = 1, xa_gather_rings = 0, xa_gather_evtchn = - ENOENT, xa_tx_evtchn = 0,
     xa_rx_evtchn = 0, xa_scan_evtchn = 1, xa_evtchn = 9, xa_scan_rx_copy = 1, xa_rx_copy = 1,
     xa_map = (\<lambda>h. (0, if MapRing 0x700000 \<in> set h then 0x701000 else 0x700000)),
     xa_ring_page = (\<lambda>_. (2, 0, 0, \<lambda>i. \<lparr>rq_id = of_nat i, rq_gref = 100 + of_nat i\<rparr>,
       \<lambda>_. \<lparr>rs_id = 0, rs_offset = 0, rs_flags = 0, rs_status = 0\<rparr>)),
     xa_bind = (\<lambda>_ _. irq), xa_kthread = 0, xa_watch = 0, xa_hotplug_status = Some ''connected'',
     xa_scan_handle = 1, xa_handle = 0, xa_kzalloc_vif = 0x9000, xa_vmalloc = True, xa_online = True,
     xa_kzalloc_be = True, xa_trans_start = (\<lambda>_. 0), xa_printf = (\<lambda>_. 0), xa_trans_end = (\<lambda>_. 0),
     xa_switch_state = 0, xa_register = 0\<rparr>"

definition no_bus :: xbus where
  "no_bus = \<lparr>vifs = Map.empty, FIXME_vif = 0, backend = backend_zero, bound = False, registered = True, xlog = []\<rparr>"

text \<open>The bus after the probe.\<close>

definition demo_bus :: xbus where
  "demo_bus = \<lparr>vifs = [0x9000 \<mapsto> vif_zero\<lparr>domid := 1\<rparr>], FIXME_vif = 0x9000,
     backend = \<lparr>be_vif = 0x9000, be_state = XenbusStateInitWait, frontend_state = XenbusStateUnknown,
       have_hotplug_status_watch = False\<rparr>,
     bound = True, registered = True, xlog = [SwitchState XenbusStateInitWait, UeventOnline]\<rparr>"

lemma demo_nfback_probe: "nfback_probe (demo_xapi 40) no_bus = Some (Inr (0, demo_bus))"
  by (simp add: nfback_probe_def write_features.simps demo_xapi_def no_bus_def demo_bus_def backend_zero_def
      backend_create_xenvif_def xenvif_alloc_def IS_ERR_def set_vif_def upd_be_def xemit_def vif_zero_def EAGAIN_def)

lemma demo_reach: "xb_reach demo_bus"
  by (rule probed [OF demo_nfback_probe]) (simp add: demo_xapi_def)

lemma demo_published: "front_published (demo_xapi irq) demo_bus 9 9 0x700000 0x701000"
  by (simp add: front_published_def demo_xapi_def demo_bus_def gather_evtchns_def ENOENT_def)

lemma demo_vif_of: "vif_of demo_bus = Some (vif_zero\<lparr>domid := 1\<rparr>)"
  by (simp add: vif_of_def demo_bus_def)

section \<open>Properties\<close>

text \<open>
  C33: \<open>set_backend_state\<close> does what its comment says: from each of the four states of a back end to each
  other it goes a shortest path of the drawn graph, whatever the state of the bus, disconnecting where
  it leaves \<open>Connected\<close> and connecting where it enters it.
\<close>

theorem set_backend_state_shortest:
  assumes "a \<in> backend_states" "t \<in> backend_states"
  shows "\<exists>p. walk a p t \<and> (\<forall>q. walk a q t \<longrightarrow> length p \<le> length q) \<and>
    (\<forall>w. be_state (backend w) = a \<longrightarrow> set_backend_state api t w = follow api p w)"
  using set_backend_state_path [OF assms(2,1), of api] turns_shortest assms(2) by fastforce

lemma set_backend_state_shortest_witness:
  "\<exists>p. walk XenbusStateConnected p XenbusStateInitWait \<and>
    (\<forall>w. be_state (backend w) = XenbusStateConnected \<longrightarrow>
      set_backend_state (demo_xapi 40) XenbusStateInitWait w = follow (demo_xapi 40) p w)"
  using set_backend_state_shortest [of XenbusStateConnected XenbusStateInitWait "demo_xapi 40"]
  by (auto simp: backend_states_def)

text \<open>
  C34: after a successful probe nothing the front end does brings the back end to a \<open>BUG()\<close>, a
  failing \<open>BUG_ON\<close> or an interface that is gone: in every state that state changes and hotplug events
  can lead to, with the services failing in any way, the next state change is handled and the device
  can be removed.
\<close>

theorem reach_never_bugs:
  assumes "xb_reach w"
  shows "(\<exists>w'. frontend_changed api fs w = Inr w') \<and> (\<exists>w'. nfback_remove api w = Inr w' \<and> \<not> bound w')"
  using frontend_changed_ok [of w api fs] remove_ok [of w api] reach_ok [OF assms] by blast

lemma reach_never_bugs_witness:
  "(\<exists>w'. frontend_changed (demo_xapi (- 12)) XenbusStateConnected demo_bus = Inr w') \<and>
    (\<exists>w'. nfback_remove (demo_xapi 40) demo_bus = Inr w')"
  using reach_never_bugs [OF demo_reach] by blast

text \<open>
  C35: a probe that fails after the first allocation stops the kernel. Its error path removes the
  device through the state machine, whose state is still \<open>XenbusStateUnknown\<close>, from which there is no
  way to \<open>Closed\<close>.
\<close>

theorem failed_probe_bugs:
  assumes "xa_kzalloc_be api"
    and "write_features api 0 (w\<lparr>backend := backend_zero, bound := True\<rparr>) = Some (err, w2)"
    and "err \<noteq> 0 \<or> xa_switch_state api \<noteq> 0"
  shows "nfback_probe api w = Some (Inl KernelBug)"
proof -
  have "be_state (backend w2) = XenbusStateUnknown" "bound w2"
    using write_features_fields [OF assms(2)] by (simp_all add: backend_zero_def)
  then have "nfback_remove api w' = Inl KernelBug" if "backend w' = backend w2" "bound w' = bound w2" for w'
    using that by (simp add: nfback_remove_def set_backend_state.simps [of api XenbusStateClosed w'] backend_step_def)
  then show ?thesis using assms by (auto simp: nfback_probe_def probe_fail_def Let_def)
qed

lemma failed_probe_bugs_witness:
  "nfback_probe (demo_xapi 40\<lparr>xa_printf := (\<lambda>_. - 12)\<rparr>) no_bus = Some (Inl KernelBug)"
proof -
  let ?w = "no_bus\<lparr>backend := backend_zero, bound := True\<rparr>"
  have "write_features (demo_xapi 40\<lparr>xa_printf := (\<lambda>_. - 12)\<rparr>) 0 ?w =
      Some (- 12, xemit (Fatal (- 12)) (xemit AbortTransaction ?w))"
    by (simp add: write_features.simps demo_xapi_def)
  from failed_probe_bugs [OF _ this] show ?thesis by (simp add: demo_xapi_def)
qed

text \<open>
  C36: removing the device whose interface was created last leaves the receive path with a dangling
  pointer: \<open>FIXME_vif\<close> is never reset, and the next buffer the card fills makes \<open>xenvif_connected\<close>
  read the freed interface.
\<close>

theorem removed_interface_still_used:
  assumes "xb_reach w" "FIXME_vif w = be_vif (backend w)" "be_vif (backend w) \<noteq> 0"
  shows "\<exists>w'. nfback_remove api w = Inr w' \<and> xenvif_connected w' = Inl (UseAfterFree (be_vif (backend w)))"
proof -
  obtain w' where "nfback_remove api w = Inr w'" "FIXME_vif w' = FIXME_vif w" "vifs w' (be_vif (backend w)) = None"
    using remove_ok [of w api] reach_ok [OF assms(1)] assms(3) by blast
  then show ?thesis using assms(2,3) by (intro exI [of _ w']) (simp add: xenvif_connected_def get_vif_def)
qed

lemma removed_interface_still_used_witness:
  "\<exists>w'. nfback_remove (demo_xapi 40) demo_bus = Inr w' \<and> xenvif_connected w' = Inl (UseAfterFree 0x9000)"
  using removed_interface_still_used [OF demo_reach, of "demo_xapi 40"] by (simp add: demo_bus_def)

text \<open>
  C37: connecting, closing and removing are balanced. With a front end that has published its rings, the
  back end comes to \<open>Connected\<close> with the thread running, and, if the guest's ring page is in order, with
  the ring in the state the data path starts from. Closing gives back the rings, the event channels and
  the thread that connecting has acquired, but not the watch of the hotplug status (in whose place a
  watch from an earlier connection was given up): that is given back when the device is removed,
  which also frees the interface, so that nothing acquired is left.
\<close>

theorem connect_then_close:
  assumes "be_state (backend w) = XenbusStateInitWait" "be_vif (backend w) \<noteq> 0" "vif_of w = Some v"
    and "tx_irq v = 0" "rx_last_slots v \<in> {0, 1}" "front_published api w te re a b"
    and "\<forall>h c. xa_bind api h c = irq c" "0 < irq te" "0 < irq re" "xa_kthread api = 0"
    and "of_int (irq te) \<noteq> (0 :: u32)" "te \<noteq> re \<longrightarrow> of_int (irq te) \<noteq> (of_int (irq re) :: u32)" "bound w"
  shows "\<exists>w1 v1 w2 w3. set_backend_state api XenbusStateConnected w = Inr w1 \<and>
    be_state (backend w1) = XenbusStateConnected \<and> vif_of w1 = Some v1 \<and> task v1 \<and>
    (page_ok api b \<longrightarrow> xring_ok v1) \<and>
    set_backend_state api' XenbusStateClosing w1 = Inr w2 \<and> be_state (backend w2) = XenbusStateClosing \<and>
    (let irqs = map (\<lambda>c. of_int (irq c)) (if te = re then [te] else [te, re]) in
     resources w2 = resources w @ [MapRing a, MapRing b] @ map BindIrq irqs @ [ThreadStart] @
       (if have_hotplug_status_watch (backend w) then [UnwatchHotplug] else []) @
       (if xa_watch api = 0 then [WatchHotplug] else []) @
       [ThreadStop] @ map UnbindIrq irqs @ [UnmapRing a, UnmapRing b]) \<and>
    nfback_remove api'' w2 = Inr w3 \<and> \<not> bound w3 \<and> vifs w3 (be_vif (backend w)) = None \<and>
    resources w3 = resources w2 @ (if xa_watch api = 0 then [UnwatchHotplug] else [])"
proof -
  let ?p = "be_vif (backend w)" and ?v0 = "rx_back_ring_init api b (v\<lparr>tx_sring := a\<rparr>)"
  let ?v1 = "?v0\<lparr>tx_irq := of_int (irq te), rx_irq := of_int (irq re), task := True\<rparr>"
  note m = map_rings_published [OF assms(6), of v]
  obtain w' where c: "xenvif_connect api te re v w = Inr (0, ?v1, w')" "only_log w w'"
    "resources w' = resources w @ [MapRing a, MapRing b] @
      map (\<lambda>c. BindIrq (of_int (irq c))) (if te = re then [te] else [te, re]) @ [ThreadStart]"
    using assms(4,7-12) m
    by (cases "te = re") (auto simp: xenvif_connect_def bind_evtchn_def connect_thread_def Let_def)
  have r: "connect_rings api w = Inr (0, set_vif ?p ?v1 w')"
    using connect_rings_published [OF assms(6,3,2) c(1)] by (simp add: Let_def)
  let ?w1 = "set_vif ?p ?v1 w'"
  have cw: "backend ?w1 = backend w" "bound ?w1 = bound w" using c(2) by (simp_all add: only_log_def)
  obtain w3 where w3: "connect api w = Inr w3" "vifs w3 = vifs ?w1" "be_vif (backend w3) = ?p"
    "resources w3 = resources ?w1 @ (if have_hotplug_status_watch (backend w) then [UnwatchHotplug] else []) @
      (if xa_watch api = 0 then [WatchHotplug] else [])"
    "have_hotplug_status_watch (backend w3) = (xa_watch api = 0)" "bound w3" "be_state (backend w3) = be_state (backend w)"
    using cw assms(13) by (simp add: connect_def r unregister_hotplug_status_watch_def Let_def del: set_vif_fields)
  let ?w4 = "backend_switch_state XenbusStateConnected w3"
  have s1: "set_backend_state api XenbusStateConnected w = Inr ?w4"
    using assms(1,2) w3(1)
    by (simp add: set_backend_state.simps [of api XenbusStateConnected] backend_step_def backend_connect_def)
  have v4: "vif_of ?w4 = Some ?v1" "get_vif (be_vif (backend ?w4)) ?w4 = Inr ?v1"
    using w3(2,3) assms(2) by (simp_all add: vif_of_def get_vif_def)
  obtain v5 w5 where d: "xenvif_disconnect ?v1 ?w4 = (v5, w5)" by fastforce
  have r5: "resources w5 = resources ?w4 @ [ThreadStop] @
      map (\<lambda>c. UnbindIrq (of_int (irq c))) (if te = re then [te] else [te, re]) @ [UnmapRing a, UnmapRing b]"
    using d assms(6,11,12) by (cases "te = re")
      (auto simp: xenvif_disconnect_def Let_def resources_unmap front_published_def)
  let ?w6 = "backend_switch_state XenbusStateClosing (set_vif (be_vif (backend ?w4)) v5 w5)"
  have s2: "set_backend_state api' XenbusStateClosing ?w4 = Inr ?w6"
    using v4(2) w3(3) assms(2) d
    by (simp add: set_backend_state.simps [of api' XenbusStateClosing] backend_step_def backend_disconnect_def)
  have ok: "xring_ok ?v1" if "page_ok api b"
    using ring_init_ok [OF that, of "v\<lparr>tx_sring := a\<rparr>"] assms(5) by (simp add: xring_ok_def filling_def)
  have w5: "backend w5 = backend ?w4" "bound w5" using disconnect_ok(2) [where v = ?v1 and w = ?w4] d w3(6) by (simp_all add: only_log_def)
  have b6: "be_vif (backend ?w6) = ?p" "vifs ?w6 ?p = Some v5" "bound ?w6"
    "have_hotplug_status_watch (backend ?w6) = (xa_watch api = 0)" "be_state (backend ?w6) = XenbusStateClosing"
    using w5 w3(3,5) by (simp_all add: switch_watch)
  obtain w7 where w7: "nfback_remove api'' ?w6 = Inr w7" "\<not> bound w7" "vifs w7 ?p = None"
    "resources w7 = resources ?w6 @ (if xa_watch api = 0 then [UnwatchHotplug] else [])"
    using remove_closing [OF b6(5,3) _ b6(2) b6(1), of api''] assms(2) b6(4) by auto
  let ?irqs = "map (\<lambda>c. of_int (irq c)) (if te = re then [te] else [te, re])"
  have "resources ?w6 = resources w @ [MapRing a, MapRing b] @ map BindIrq ?irqs @ [ThreadStart] @
      (if have_hotplug_status_watch (backend w) then [UnwatchHotplug] else []) @
      (if xa_watch api = 0 then [WatchHotplug] else []) @
      [ThreadStop] @ map UnbindIrq ?irqs @ [UnmapRing a, UnmapRing b]"
    using r5 w3(4) c(3) by simp
  then show ?thesis using s1 s2 v4(1) ok w7 unfolding Let_def
    by (intro exI [of _ ?w4] exI [of _ ?v1] exI [of _ ?w6] exI [of _ w7]) simp
qed

lemma connect_then_close_witness:
  "\<exists>w1 v1 w2 w3. set_backend_state (demo_xapi 40) XenbusStateConnected demo_bus = Inr w1 \<and>
    vif_of w1 = Some v1 \<and> xring_ok v1 \<and>
    set_backend_state (demo_xapi 40) XenbusStateClosing w1 = Inr w2 \<and>
    resources w2 = [MapRing 0x700000, MapRing 0x701000, BindIrq 40, ThreadStart, WatchHotplug, ThreadStop, UnbindIrq 40,
      UnmapRing 0x700000, UnmapRing 0x701000] \<and>
    nfback_remove (demo_xapi 40) w2 = Inr w3 \<and> resources w3 = resources w2 @ [UnwatchHotplug]"
proof -
  have p: "page_ok (demo_xapi 40) 0x701000"
    by (simp add: page_ok_def demo_xapi_def XEN_NETIF_RX_RING_SIZE_def)
  have z: "resources demo_bus = []" by (simp add: demo_bus_def resources_def)
  show ?thesis
    using connect_then_close [OF _ _ demo_vif_of _ _ demo_published [of 40], of "\<lambda>_. 40" "demo_xapi 40" "demo_xapi 40"] p z
    by (auto simp: demo_bus_def vif_zero_def demo_xapi_def)
qed

text \<open>
  C38: a connection that fails half-way is reported as made, and undone twice. If binding the event
  channel fails, the error path unmaps the rings but leaves their addresses in the interface; the
  state machine goes on to \<open>Connected\<close> all the same; and closing unmaps both rings again.
\<close>

theorem failed_connect_unmaps_twice:
  assumes "be_state (backend w) = XenbusStateInitWait" "be_vif (backend w) \<noteq> 0" "vif_of w = Some v"
    and "tx_irq v = 0" "\<not> task v" "front_published api w te re a b" "\<forall>h c. xa_bind api h c < 0"
  shows "\<exists>w1 v1 w2. set_backend_state api XenbusStateConnected w = Inr w1 \<and>
    be_state (backend w1) = XenbusStateConnected \<and> vif_of w1 = Some v1 \<and> \<not> task v1 \<and>
    set_backend_state api' XenbusStateClosing w1 = Inr w2 \<and>
    resources w2 = resources w @ [MapRing a, MapRing b, UnmapRing a, UnmapRing b, UnmapRing a, UnmapRing b]"
proof -
  let ?p = "be_vif (backend w)" and ?v1 = "rx_back_ring_init api b (v\<lparr>tx_sring := a\<rparr>)"
  note m = map_rings_published [OF assms(6), of v]
  have ab: "a \<noteq> 0" "b \<noteq> 0" using assms(6) by (simp_all add: front_published_def)
  obtain err w' where c: "xenvif_connect api te re v w = Inr (err, ?v1, w')" "only_log w w'" "err \<noteq> 0"
    "resources w' = resources w @ [MapRing a, MapRing b, UnmapRing a, UnmapRing b]"
    using assms(4,7) m ab
    by (cases "te = re") (auto simp: xenvif_connect_def bind_evtchn_def err_unmap_def resources_unmap Let_def
        dest: order.strict_implies_not_eq)
  let ?w1 = "xemit (Fatal err) (set_vif ?p ?v1 w')"
  have r: "connect_rings api w = Inr (err, ?w1)"
    using connect_rings_published [OF assms(6,3,2) c(1)] c(3) by (simp add: Let_def)
  let ?w4 = "backend_switch_state XenbusStateConnected ?w1"
  have s1: "set_backend_state api XenbusStateConnected w = Inr ?w4"
    using assms(1,2) r c(3)
    by (simp add: set_backend_state.simps [of api XenbusStateConnected] backend_step_def backend_connect_def connect_def)
  have p: "be_vif (backend ?w4) = ?p" using c(2) by (simp add: only_log_def)
  have v4: "vif_of ?w4 = Some ?v1" "get_vif (be_vif (backend ?w4)) ?w4 = Inr ?v1"
    using p assms(2) by (simp_all add: vif_of_def get_vif_def)
  obtain v5 w5 where d: "xenvif_disconnect ?v1 ?w4 = (v5, w5)" by fastforce
  have r5: "resources w5 = resources ?w4 @ [UnmapRing a, UnmapRing b]"
    using d assms(4,5) ab by (auto simp: xenvif_disconnect_def Let_def resources_unmap)
  let ?w6 = "backend_switch_state XenbusStateClosing (set_vif (be_vif (backend ?w4)) v5 w5)"
  have s2: "set_backend_state api' XenbusStateClosing ?w4 = Inr ?w6"
    using v4(2) p assms(2) d
    by (simp add: set_backend_state.simps [of api' XenbusStateClosing] backend_step_def backend_disconnect_def)
  show ?thesis using s1 s2 v4(1) c(4) r5 assms(5)
    by (intro exI [of _ ?w4] exI [of _ ?v1] exI [of _ ?w6]) simp
qed

lemma failed_connect_unmaps_twice_witness:
  "\<exists>w1 w2. set_backend_state (demo_xapi (- 12)) XenbusStateConnected demo_bus = Inr w1 \<and>
    be_state (backend w1) = XenbusStateConnected \<and>
    set_backend_state (demo_xapi (- 12)) XenbusStateClosing w1 = Inr w2 \<and>
    resources w2 = [MapRing 0x700000, MapRing 0x701000, UnmapRing 0x700000, UnmapRing 0x701000,
      UnmapRing 0x700000, UnmapRing 0x701000]"
proof -
  have z: "resources demo_bus = []" by (simp add: demo_bus_def resources_def)
  show ?thesis
    using failed_connect_unmaps_twice [OF _ _ demo_vif_of _ _ demo_published [of "- 12"], of "demo_xapi (- 12)"] z
    by (auto simp: demo_bus_def vif_zero_def demo_xapi_def)
qed

end
