(* ===== verification/My_Driver.thy ===== *)
theory My_Driver
  imports Nf10_Main Lbuf_App
begin

text \<open>
  The prototype driver \<open>sw/my_driver/my_driver.c\<close>, built as its header says with \<open>MY_DEBUG\<close>: two huge
  pages that the card fills in turn, an interrupt handler that queues work, the work that delivers
  the packets of a page, and probing and removing the card.
\<close>

section \<open>State\<close>

text \<open>What the driver holds of the system: the resources of the PCI layer and its own.\<close>

datatype my_res = Pci pci_res | HostData | WorkQueue | HugePage nat | HugePageDma nat

text \<open>
  \<open>struct my_driver_host_data\<close>, with the statistics of the interface, the PHY, the history of kernel
  calls and register writes, and the ledger.
\<close>

record my_data =
  huge_page_index :: u32
  huge_page1_dma_addr :: u64
  huge_page2_dma_addr :: u64
  huge_page_kern_address1 :: u64
  huge_page_kern_address2 :: u64
  total_numb_of_huge_pages_processed :: u32
  my_rx_packets :: u64
  my_phy :: mdio
  my_hist :: history
  my_ledger :: "my_res pev list"

definition mymit :: "kev \<Rightarrow> my_data \<Rightarrow> my_data" where
  "mymit e s = s\<lparr>my_hist := my_hist s @ [e]\<rparr>"

definition my_acquire :: "my_res \<Rightarrow> my_data \<Rightarrow> my_data" where
  "my_acquire r s = s\<lparr>my_ledger := my_ledger s @ [Acquire r]\<rparr>"

definition my_release :: "my_res \<Rightarrow> my_data \<Rightarrow> my_data" where
  "my_release r s = s\<lparr>my_ledger := my_ledger s @ [Release r]\<rparr>"

text \<open>Registers of BAR 2, by byte offset: where a page's address and its ownership are written.\<close>

definition my_addr_off :: "nat \<Rightarrow> nat" where "my_addr_off page = 8 * (7 + page)"

definition my_own_off :: "nat \<Rightarrow> nat" where "my_own_off page = 4 * (23 + page)"

definition MY_RX_READY :: u32 where "MY_RX_READY = 0xcacabeef"

section \<open>The work\<close>

text \<open>
  One packet, whose payload begins at \<open>dw_index\<close>: the length field is not checked. \<open>alloc\<close> is whether
  \<open>netdev_alloc_skb\<close> succeeds; \<open>GroReceive\<close> stands for \<open>netif_receive_skb\<close>.
\<close>

definition my_deliver_one ::
  "(history \<Rightarrow> u32 \<Rightarrow> bool) \<Rightarrow> lbuf \<Rightarrow> u32 \<Rightarrow> u32 \<Rightarrow> my_data \<Rightarrow> fault + my_data" where
  "my_deliver_one alloc b dw_index pkt_len s =
     (let ok = alloc (my_hist s) (pkt_len - 4);
          s1 = mymit (AllocSkb (unat (pkt_len - 4)) ok) s
      in if \<not> ok then Inr s1
         else rbind (lbuf_copy b (4 * unat dw_index) (unat (pkt_len - 4))) (\<lambda>frame.
           Inr ((mymit (GroReceive frame) s1)\<lparr>my_rx_packets := my_rx_packets s1 + 1\<rparr>)))"

text \<open>The indices are \<open>int\<close>s: the comparison at the end is signed.\<close>

lemma my_next_measure:
  "unat (i + 1) < 524288 \<Longrightarrow> unat (i + 1) < unat (my_next_dw_index i n + 1)"
  using app_next_measure [of i n] by (simp add: my_next_dw_index_def app_next_dword_idx_def)

function my_rx_walk ::
  "(history \<Rightarrow> u32 \<Rightarrow> bool) \<Rightarrow> lbuf \<Rightarrow> u32 \<Rightarrow> u32 \<Rightarrow> my_data \<Rightarrow> fault + my_data" where
  "my_rx_walk alloc b dw_index dw_max_index s =
     rbind (lbuf_read b (unat (dw_index + 1))) (\<lambda>pkt_len.
       rbind (my_deliver_one alloc b (dw_index + 2) pkt_len s) (\<lambda>s1.
         let next_idx = my_next_dw_index dw_index pkt_len
         in if sint next_idx < sint dw_max_index then my_rx_walk alloc b next_idx dw_max_index s1
            else Inr s1))"
  by pat_completeness auto
termination
  by (relation "measure (\<lambda>(alloc, b, i, m, s). 2 ^ 32 - unat (i + 1))")
    (use my_next_measure unat_lt_pow in
      \<open>auto simp: lbuf_read_def split: if_splits intro!: diff_less_mono2\<close>)

declare my_rx_walk.simps [simp del]

text \<open>
  The work: \<open>pages\<close> is what the two huge pages hold. The page is chosen by \<open>huge_page_index\<close>, walked
  unless its header is invalid, and given back to the card.
\<close>

definition rx_wq_function ::
  "(history \<Rightarrow> u32 \<Rightarrow> bool) \<Rightarrow> (nat \<Rightarrow> lbuf) \<Rightarrow> my_data \<Rightarrow> fault + my_data" where
  "rx_wq_function alloc pages s =
     (let current_hp = (if huge_page_index s = 0 then 1 else 2);
          dma = (if current_hp = 1 then huge_page1_dma_addr s else huge_page2_dma_addr s);
          s1 = mymit (SyncForCpu dma) (s\<lparr>huge_page_index := if current_hp = 1 then 1 else 0\<rparr>);
          b = pages current_hp;
          numb_of_qwords = b 0;
          dw_max_index = push_bit 1 numb_of_qwords + 32
      in rbind (if numb_of_qwords = 0 \<or> 524288 < sint dw_max_index then Inr s1
                else my_rx_walk alloc b 32 dw_max_index s1) (\<lambda>s2.
           Inr (mymit (Writel (my_own_off current_hp) MY_RX_READY)
             (mymit (SyncForDevice dma)
               (s2\<lparr>total_numb_of_huge_pages_processed := total_numb_of_huge_pages_processed s2 + 1\<rparr>)))))"

text \<open>
  The interrupt handler tries to queue the work until that succeeds; \<open>queued n\<close> is the answer of the
  \<open>n\<close>-th attempt, which is no while the work is still pending. The result is the attempt that
  succeeded.
\<close>

partial_function (option) card_interrupt_handler :: "(nat \<Rightarrow> bool) \<Rightarrow> nat \<Rightarrow> nat option" where
  "card_interrupt_handler queued n = (if queued n then Some n else card_interrupt_handler queued (n + 1))"

text \<open>While the work stays pending, the handler does not return.\<close>

lemma my_handler_answered:
  assumes run: "card_interrupt_handler queued n = Some m"
  shows "n \<le> m \<and> queued m"
  by (rule card_interrupt_handler.raw_induct [where P = "\<lambda>queued n m. n \<le> m \<and> queued m", OF _ run])
    (fastforce split: if_splits)

lemma my_handler_spins: "\<forall>m \<ge> n. \<not> queued m \<Longrightarrow> card_interrupt_handler queued n = None"
  using my_handler_answered [of queued n] by (cases "card_interrupt_handler queued n") auto

lemma my_handler_returns:
  assumes "queued m" "n \<le> m" shows "\<exists>r. card_interrupt_handler queued n = Some r \<and> n \<le> r \<and> r \<le> m \<and> queued r"
  using assms(2)
proof (induction n rule: inc_induct)
  case base
  then show ?case using assms(1) by (subst card_interrupt_handler.simps) auto
next
  case (step n)
  then show ?case by (subst card_interrupt_handler.simps) auto
qed

section \<open>Probe and remove\<close>

record my_env =
  me_kzalloc :: bool
  me_alloc_workqueue :: bool
  me_enable_device :: int
  me_set_dma_mask :: int
  me_set_consistent_dma_mask :: int
  me_request_regions :: int
  me_iomap_bar2 :: bool
  me_iomap_bar0 :: bool
  me_enable_msi :: int
  me_request_mdio_irq :: int
  me_card :: mdio_card
  me_request_irq :: int
  me_page1 :: u64
  me_page2 :: u64
  me_map :: "u64 \<Rightarrow> u64"
  me_alloc_etherdev :: bool
  me_register_netdev :: int

definition my_linux_network_interface :: "my_env \<Rightarrow> my_data \<Rightarrow> int \<times> my_data" where
  "my_linux_network_interface env s =
     (if \<not> me_alloc_etherdev env then (- 1, s)
      else let s1 = my_acquire (Pci NetDev) s
           in if me_register_netdev env \<noteq> 0 then (me_register_netdev env, s1)
              else (0, my_acquire (Pci NetdevReg) s1))"

text \<open>The labels, each falling through to the next.\<close>

definition err_01 :: "my_data \<Rightarrow> my_data" where
  "err_01 = my_release HostData"

definition err_02 :: "my_data \<Rightarrow> my_data" where
  "err_02 s = err_01 (my_release WorkQueue s)"

definition err_03 :: "my_data \<Rightarrow> my_data" where
  "err_03 s = err_02 (my_release (Pci PciDevice) s)"

definition err_04 :: "my_data \<Rightarrow> my_data" where
  "err_04 s = err_03 (my_release (Pci DrvData) s)"

definition err_05 :: "my_data \<Rightarrow> my_data" where
  "err_05 s = err_04 (my_release (Pci PciRegions) s)"

definition err_06 :: "my_data \<Rightarrow> my_data" where
  "err_06 s = err_05 (my_release (Pci Bar2) s)"

definition err_07 :: "my_data \<Rightarrow> my_data" where
  "err_07 s = err_06 (my_release (Pci Bar0) (my_release (Pci BusMaster) s))"

definition err_08 :: "my_data \<Rightarrow> my_data" where
  "err_08 s = err_07 (my_release (Pci Msi) s)"

definition err_09 :: "my_data \<Rightarrow> my_data" where
  "err_09 s = err_08 (my_release (Pci IrqLine) s)"

definition err_10 :: "my_data \<Rightarrow> my_data" where
  "err_10 s = err_09 (my_release (HugePage 1) s)"

definition err_11 :: "my_data \<Rightarrow> my_data" where
  "err_11 s = err_10 (my_release (HugePage 2) (my_release (HugePageDma 1) (my_release (HugePageDma 2) s)))"

text \<open>
  The part of \<open>my_pcie_probe\<close> after the PHY has been configured. \<open>ret\<close> is the result of the last call
  that returned one, which the failing allocations of pages leave as it is.
\<close>

definition my_probe_pages :: "my_env \<Rightarrow> my_data \<Rightarrow> int \<times> my_data" where
  "my_probe_pages env s =
     (let ret = me_request_irq env
      in if ret \<noteq> 0 then (ret, err_08 s)
      else let s1 = my_acquire (Pci IrqLine) s
      in if me_page1 env = 0 then (ret, err_09 s1)
      else let s2 = my_acquire (HugePage 1) s1
      in if me_page2 env = 0 then (ret, err_10 s2)
      else let s3 = my_acquire (HugePageDma 2) (my_acquire (HugePageDma 1) (my_acquire (HugePage 2) s2));
               s4 = s3\<lparr>huge_page_kern_address1 := me_page1 env, huge_page_kern_address2 := me_page2 env,
                       huge_page1_dma_addr := me_map env (me_page1 env),
                       huge_page2_dma_addr := me_map env (me_page2 env)\<rparr>;
               (ret, s5) = my_linux_network_interface env s4
      in if ret \<noteq> 0 then (ret, err_11 s5)
      else (ret, mymit (Writel (my_own_off 2) MY_RX_READY) (mymit (Writel (my_own_off 1) MY_RX_READY)
                  (mymit (Writeq (my_addr_off 2) (huge_page2_dma_addr s5))
                    (mymit (Writeq (my_addr_off 1) (huge_page1_dma_addr s5)) s5)))))"

definition my_pcie_probe :: "my_env \<Rightarrow> my_data \<Rightarrow> (int \<times> my_data) option" where
  "my_pcie_probe env s =
     (let ret = - ENODEV
      in if \<not> me_kzalloc env then Some (ret, s)
      else let s1 = my_acquire HostData (s\<lparr>huge_page_index := 0, total_numb_of_huge_pages_processed := 0\<rparr>)
      in if \<not> me_alloc_workqueue env then Some (ret, err_01 s1)
      else let s2 = my_acquire WorkQueue s1; ret = me_enable_device env
      in if ret \<noteq> 0 then Some (ret, err_02 s2)
      else let s3 = my_acquire (Pci PciDevice) s2; ret = me_set_dma_mask env
      in if ret \<noteq> 0 then Some (ret, err_03 s3)
      else let ret = me_set_consistent_dma_mask env
      in if ret \<noteq> 0 then Some (ret, err_03 s3)
      else let s4 = my_acquire (Pci DrvData) s3; ret = me_request_regions env
      in if ret \<noteq> 0 then Some (ret, err_04 s4)
      else let s5 = my_acquire (Pci PciRegions) s4
      in if \<not> me_iomap_bar2 env then Some (ret, err_05 s5)
      else let s6 = my_acquire (Pci Bar2) s5
      in if \<not> me_iomap_bar0 env then Some (ret, err_06 s6)
      else let s7 = my_acquire (Pci BusMaster) (my_acquire (Pci Bar0) s6); ret = me_enable_msi env
      in if ret \<noteq> 0 then Some (ret, err_07 s7)
      else let s8 = my_acquire (Pci Msi) s7; ret = me_request_mdio_irq env
      in if ret \<noteq> 0 then Some (ret, err_08 s8)
      else let s9 = my_acquire (Pci IrqLine) s8
      in map_option (\<lambda>(ret, p). my_probe_pages env (my_release (Pci IrqLine) (s9\<lparr>my_phy := p\<rparr>)))
           (my_configure_ael2005_phy_chips (me_card env) (my_phy s9)))"

definition my_pcie_remove :: "my_data \<Rightarrow> my_data" where
  "my_pcie_remove s =
     (if Pci DrvData \<notin> held (my_ledger s) then s
      else fold my_release
        [Pci IrqLine, WorkQueue, HugePageDma 2, HugePageDma 1, HugePage 2, HugePage 1, Pci NetdevReg,
         Pci NetDev, Pci Msi, Pci BusMaster, Pci Bar0, Pci Bar2, Pci PciRegions, Pci DrvData,
         Pci PciDevice, HostData] s)"

section \<open>Delivery as the inverse of the encoder\<close>

text \<open>What the work adds to the history for a packet, and the frames of a page: no length is too long.\<close>

definition my_frame :: "pkt \<Rightarrow> u8 list" where
  "my_frame p = take (length (snd p) - 4) (snd p)"

definition my_events :: "pkt \<Rightarrow> kev list" where
  "my_events p = [AllocSkb (length (snd p) - 4) True, GroReceive (my_frame p)]"

definition page_fits :: "pkt list \<Rightarrow> bool" where
  "page_fits ps \<longleftrightarrow> ps \<noteq> [] \<and> 32 + length (enc_body ps) \<le> 524288 \<and> (\<forall>p \<in> set ps. 4 \<le> length (snd p))"

definition my_walked :: "pkt list \<Rightarrow> my_data \<Rightarrow> my_data" where
  "my_walked ps s = s\<lparr>my_hist := my_hist s @ concat (map my_events ps),
     my_rx_packets := my_rx_packets s + of_nat (length ps)\<rparr>"

lemma my_deliver_one_enc:
  assumes alloc: "\<forall>h n. alloc h n" and b: "holds_at b (unat i) (enc_pkt p)"
    and fits: "unat i + pkt_dwords (length (snd p)) \<le> 524288" and l4: "4 \<le> length (snd p)"
  shows "my_deliver_one alloc b (i + 2) (of_nat (length (snd p))) s = Inr (my_walked [p] s)"
proof -
  let ?l = "length (snd p)"
  have l: "?l \<le> 8 * ((?l + 7) div 8)" by simp
  then have "?l < 4294967296" using fits by (simp add: pkt_dwords_def)
  then have u: "unat (of_nat ?l :: u32) = ?l" by (rule unat_of_nat_u32)
  have "(4 :: u32) \<le> of_nat ?l" using l4 by (simp add: word_le_nat_alt u)
  then have d: "unat (of_nat ?l - 4 :: u32) = ?l - 4" by (simp add: unat_sub u)
  have i2: "unat (i + 2) = unat i + 2" using fits by (subst unat_add_no_wrap) (simp_all add: pkt_dwords_def)
  have "4 * (unat i + 2) + (?l - 4) \<le> LBUF_SIZE" using fits l by (simp add: pkt_dwords_def)
  then have "lbuf_copy b (4 * unat (i + 2)) (unat (of_nat ?l - 4 :: u32)) = Inr (my_frame p)"
    unfolding i2 d my_frame_def by (intro lbuf_copy_enc_pkt [OF b]) simp_all
  then show ?thesis using alloc d
    by (simp add: my_deliver_one_def Let_def mymit_def my_walked_def my_events_def)
qed

lemma my_rx_walk_enc:
  assumes alloc: "\<forall>h n. alloc h n"
  shows "holds_at b (unat i) (enc_body ps) \<Longrightarrow> unat i + length (enc_body ps) = unat nr \<Longrightarrow>
    unat nr \<le> 524288 \<Longrightarrow> ps \<noteq> [] \<Longrightarrow> \<forall>p \<in> set ps. 4 \<le> length (snd p) \<Longrightarrow>
    my_rx_walk alloc b i nr s = Inr (my_walked ps s)"
proof (induction ps arbitrary: i s)
  case Nil
  then show ?case by simp
next
  case (Cons p ps)
  let ?l = "length (snd p)" and ?j = "my_next_dw_index i (of_nat (length (snd p)))"
  note first = my_step.enc_first [OF Cons.prems(1-3)]
  have len: "lbuf_read b (unat (i + 1)) = Inr (of_nat ?l)" using first(1,2) by (simp add: lbuf_read_def)
  have one: "my_deliver_one alloc b (i + 2) (of_nat ?l) s = Inr (my_walked [p] s)"
    using my_deliver_one_enc [OF alloc first(4,3)] Cons.prems(5) by simp
  have step: "my_rx_walk alloc b i nr s =
      (if ps = [] then Inr (my_walked [p] s) else my_rx_walk alloc b ?j nr (my_walked [p] s))"
    using len one first(8) by (simp add: my_rx_walk.simps [of alloc b i] Let_def)
  show ?case
  proof (cases "ps = []")
    case True
    then show ?thesis using step by simp
  next
    case False
    have "my_rx_walk alloc b ?j nr (my_walked [p] s) = Inr (my_walked ps (my_walked [p] s))"
      using Cons.IH [OF first(6,5)] Cons.prems(3,5) False by simp
    then show ?thesis using step False by (simp add: my_walked_def add.assoc)
  qed
qed

text \<open>The events of the history that give a page back to the card.\<close>

fun ownership_of :: "kev \<Rightarrow> nat list" where
  "ownership_of (Writel off v) = (if v = MY_RX_READY then [off] else [])"
| "ownership_of _ = []"

definition given_back :: "history \<Rightarrow> nat list" where
  "given_back h = concat (map ownership_of h)"

lemma given_back_append [simp]: "given_back (h @ es) = given_back h @ concat (map ownership_of es)"
  by (simp add: given_back_def)

lemma my_events_given: "concat (map ownership_of (concat (map my_events ps))) = []"
  by (induction ps) (auto simp: my_events_def)

lemma my_events_delivered: "concat (map frame_of (concat (map my_events ps))) = map my_frame ps"
  by (induction ps) (auto simp: my_events_def)

definition page_of :: "u32 \<Rightarrow> nat" where "page_of idx = (if idx = 0 then 1 else 2)"

definition next_idx :: "u32 \<Rightarrow> u32" where "next_idx idx = (if idx = 0 then 1 else 0)"

lemma rx_wq_function_enc:
  assumes alloc: "\<forall>h n. alloc h n" and b: "pages (page_of (huge_page_index s)) = enc_lbuf ps"
    and ps: "page_fits ps"
  shows "\<exists>s'. rx_wq_function alloc pages s = Inr s' \<and> huge_page_index s' = next_idx (huge_page_index s) \<and>
    delivered (my_hist s') = delivered (my_hist s) @ map my_frame ps \<and>
    given_back (my_hist s') = given_back (my_hist s) @ [my_own_off (page_of (huge_page_index s))] \<and>
    my_rx_packets s' = my_rx_packets s + of_nat (length ps)"
proof -
  let ?b = "enc_lbuf ps" and ?pg = "page_of (huge_page_index s)"
  let ?dma = "if ?pg = 1 then huge_page1_dma_addr s else huge_page2_dma_addr s"
  let ?s1 = "mymit (SyncForCpu ?dma) (s\<lparr>huge_page_index := next_idx (huge_page_index s)\<rparr>)"
  let ?nr = "push_bit 1 (?b 0) + 32 :: u32"
  have fits: "32 + length (enc_body ps) \<le> LBUF_SIZE div 4" using ps by (simp add: page_fits_def)
  have nr: "unat ?nr = 32 + length (enc_body ps)"
    using enc_lbuf_nr_dwords [OF fits] by (simp add: LBUF_NR_DWORDS_def NR_RESERVED_DWORDS_def)
  have "sint (524288 :: u32) < sint ?nr \<longleftrightarrow> unat (524288 :: u32) < unat ?nr"
    using nr fits by (intro sint_less_iff_unat) simp_all
  then have ok: "\<not> 524288 < sint ?nr" using nr fits by simp
  have nz: "?b 0 \<noteq> 0"
  proof
    assume "?b 0 = 0"
    then have "unat ?nr = 32" by simp
    then show False using nr enc_body_pos [of ps] ps by (simp add: page_fits_def)
  qed
  have "my_rx_walk alloc ?b 32 ?nr ?s1 = Inr (my_walked ps ?s1)"
    using enc_lbuf_body [of ps] nr fits ps
    by (intro my_rx_walk_enc [OF alloc]) (simp_all add: page_fits_def)
  then have "rx_wq_function alloc pages s = Inr (mymit (Writel (my_own_off ?pg) MY_RX_READY)
      (mymit (SyncForDevice ?dma) ((my_walked ps ?s1)\<lparr>total_numb_of_huge_pages_processed :=
        total_numb_of_huge_pages_processed (my_walked ps ?s1) + 1\<rparr>)))"
    using b nz ok by (cases "huge_page_index s = 0") (simp_all add: rx_wq_function_def Let_def page_of_def next_idx_def)
  then show ?thesis
    by (simp add: mymit_def my_walked_def my_events_given my_events_delivered hist_simps delivered_def)
qed

section \<open>Runs of the work\<close>

text \<open>The card fills the pages in turn: the pages as they are at each run of the work.\<close>

fun my_rx_run :: "(history \<Rightarrow> u32 \<Rightarrow> bool) \<Rightarrow> (nat \<Rightarrow> lbuf) list \<Rightarrow> my_data \<Rightarrow> fault + my_data" where
  "my_rx_run alloc [] s = Inr s"
| "my_rx_run alloc (pages # rest) s = rbind (rx_wq_function alloc pages s) (my_rx_run alloc rest)"

fun filled :: "u32 \<Rightarrow> (nat \<Rightarrow> lbuf) list \<Rightarrow> pkt list list \<Rightarrow> bool" where
  "filled idx [] [] = True"
| "filled idx (pages # rest) (ps # pss) \<longleftrightarrow>
     pages (page_of idx) = enc_lbuf ps \<and> page_fits ps \<and> filled (next_idx idx) rest pss"
| "filled idx _ _ = False"

fun in_turn :: "u32 \<Rightarrow> nat \<Rightarrow> nat list" where
  "in_turn idx 0 = []"
| "in_turn idx (Suc n) = my_own_off (page_of idx) # in_turn (next_idx idx) n"

lemma my_rx_run_enc:
  assumes alloc: "\<forall>h n. alloc h n"
  shows "filled (huge_page_index s) runs pss \<Longrightarrow>
    \<exists>s'. my_rx_run alloc runs s = Inr s' \<and>
      delivered (my_hist s') = delivered (my_hist s) @ map my_frame (concat pss) \<and>
      given_back (my_hist s') = given_back (my_hist s) @ in_turn (huge_page_index s) (length runs) \<and>
      my_rx_packets s' = my_rx_packets s + of_nat (length (concat pss))"
proof (induction runs arbitrary: s pss)
  case Nil
  then show ?case by (cases pss) simp_all
next
  case (Cons pages rest)
  then obtain ps qss where pss: "pss = ps # qss" "pages (page_of (huge_page_index s)) = enc_lbuf ps" "page_fits ps"
    "filled (next_idx (huge_page_index s)) rest qss"
    by (cases pss) auto
  obtain s1 where s1: "rx_wq_function alloc pages s = Inr s1" "huge_page_index s1 = next_idx (huge_page_index s)"
    "delivered (my_hist s1) = delivered (my_hist s) @ map my_frame ps"
    "given_back (my_hist s1) = given_back (my_hist s) @ [my_own_off (page_of (huge_page_index s))]"
    "my_rx_packets s1 = my_rx_packets s + of_nat (length ps)"
    using rx_wq_function_enc [where pages = pages and s = s, OF alloc pss(2,3)] by blast
  obtain s' where "my_rx_run alloc rest s1 = Inr s'"
    "delivered (my_hist s') = delivered (my_hist s1) @ map my_frame (concat qss)"
    "given_back (my_hist s') = given_back (my_hist s1) @ in_turn (huge_page_index s1) (length rest)"
    "my_rx_packets s' = my_rx_packets s1 + of_nat (length (concat qss))"
    using Cons.IH [of s1 qss] pss(4) s1(2) by auto
  then show ?case using s1 by (simp add: pss(1) add.assoc)
qed

section \<open>The ledger of the probe\<close>

lemma my_ledger_simps [simp]:
  "my_ledger (my_acquire r s) = my_ledger s @ [Acquire r]"
  "my_ledger (my_release r s) = my_ledger s @ [Release r]"
  "my_ledger (mymit e s) = my_ledger s"
  "my_phy (my_acquire r s) = my_phy s"
  by (simp_all add: my_acquire_def my_release_def mymit_def)

lemmas my_err_labels = err_01_def err_02_def err_03_def err_04_def err_05_def err_06_def err_07_def
  err_08_def err_09_def err_10_def err_11_def

definition released_by :: "(my_data \<Rightarrow> my_data) \<Rightarrow> my_res list \<Rightarrow> bool" where
  "released_by f rs \<longleftrightarrow> (\<forall>s. my_ledger (f s) = my_ledger s @ map Release rs) \<and> distinct rs"

lemma err_labels_release:
  "released_by err_01 [HostData]"
  "released_by err_02 [WorkQueue, HostData]"
  "released_by err_03 [Pci PciDevice, WorkQueue, HostData]"
  "released_by err_04 [Pci DrvData, Pci PciDevice, WorkQueue, HostData]"
  "released_by err_05 [Pci PciRegions, Pci DrvData, Pci PciDevice, WorkQueue, HostData]"
  "released_by err_06 [Pci Bar2, Pci PciRegions, Pci DrvData, Pci PciDevice, WorkQueue, HostData]"
  "released_by err_07 [Pci BusMaster, Pci Bar0, Pci Bar2, Pci PciRegions, Pci DrvData, Pci PciDevice,
     WorkQueue, HostData]"
  "released_by err_08 [Pci Msi, Pci BusMaster, Pci Bar0, Pci Bar2, Pci PciRegions, Pci DrvData,
     Pci PciDevice, WorkQueue, HostData]"
  "released_by err_09 [Pci IrqLine, Pci Msi, Pci BusMaster, Pci Bar0, Pci Bar2, Pci PciRegions, Pci DrvData,
     Pci PciDevice, WorkQueue, HostData]"
  "released_by err_10 [HugePage 1, Pci IrqLine, Pci Msi, Pci BusMaster, Pci Bar0, Pci Bar2, Pci PciRegions,
     Pci DrvData, Pci PciDevice, WorkQueue, HostData]"
  "released_by err_11 [HugePageDma 2, HugePageDma 1, HugePage 2, HugePage 1, Pci IrqLine, Pci Msi,
     Pci BusMaster, Pci Bar0, Pci Bar2, Pci PciRegions, Pci DrvData, Pci PciDevice, WorkQueue, HostData]"
  by (simp_all add: released_by_def my_err_labels)

text \<open>\<open>my_holds rs s\<close>: the resources held are \<open>rs\<close>, the last acquired first, and none is stray.\<close>

definition my_holds :: "my_res list \<Rightarrow> my_data \<Rightarrow> bool" where
  "my_holds rs s \<longleftrightarrow> held (my_ledger s) = set rs \<and> stray (my_ledger s) = []"

lemma my_holds_acquire: "my_holds rs s \<Longrightarrow> r \<notin> set rs \<Longrightarrow> my_holds (r # rs) (my_acquire r s)"
  by (simp add: my_holds_def held_append stray_append)

lemma my_holds_release: "my_holds (r # rs) s \<Longrightarrow> r \<notin> set rs \<Longrightarrow> my_holds rs (my_release r s)"
  by (simp add: my_holds_def held_append stray_append)

lemma my_holds_cong: "my_ledger s' = my_ledger s \<Longrightarrow> my_holds rs s' = my_holds rs s"
  by (simp add: my_holds_def)

lemma released_holds:
  assumes "released_by f rs" "my_holds (rs @ ts) s" "set rs \<inter> set ts = {}"
  shows "my_holds ts (f s)"
  using assms ledger_release_all [of rs "my_ledger s"] by (auto simp: released_by_def my_holds_def)

lemmas err_labels_holds = err_labels_release [THEN released_holds]

text \<open>Everything a probed card holds, the last acquired first; \<open>err_11\<close> releases all but the interface.\<close>

definition my_all :: "my_res list" where
  "my_all = [HugePageDma 2, HugePageDma 1, HugePage 2, HugePage 1, Pci IrqLine, Pci Msi,
     Pci BusMaster, Pci Bar0, Pci Bar2, Pci PciRegions, Pci DrvData, Pci PciDevice, WorkQueue, HostData]"

definition my_outcome :: "my_env \<Rightarrow> int \<times> my_data \<Rightarrow> bool" where
  "my_outcome env r \<longleftrightarrow>
     fst r = 0 \<and> my_holds (Pci NetdevReg # Pci NetDev # my_all) (snd r) \<or>
     my_holds [] (snd r) \<or>
     my_holds [Pci NetDev] (snd r) \<and> fst r = me_register_netdev env \<and> fst r \<noteq> 0"

lemma my_outcome_failed: "my_holds [] s \<Longrightarrow> my_outcome env (ret, s)"
  by (simp add: my_outcome_def)

text \<open>The part after the PHY.\<close>

lemma my_probe_pages_outcome:
  assumes "my_holds (drop 5 my_all) s"
  shows "my_outcome env (my_probe_pages env s)"
proof -
  have h0: "my_holds [Pci Msi, Pci BusMaster, Pci Bar0, Pci Bar2, Pci PciRegions, Pci DrvData, Pci PciDevice,
    WorkQueue, HostData] s" using assms by (simp add: my_all_def)
  have h1: "my_holds (drop 4 my_all) (my_acquire (Pci IrqLine) s)"
    using my_holds_acquire [OF h0, of "Pci IrqLine"] by (simp add: my_all_def)
  let ?s2 = "my_acquire (HugePage 1) (my_acquire (Pci IrqLine) s)"
  have h2: "my_holds (drop 3 my_all) ?s2" using my_holds_acquire [OF h1, of "HugePage 1"] by (simp add: my_all_def)
  let ?s3 = "my_acquire (HugePageDma 2) (my_acquire (HugePageDma 1) (my_acquire (HugePage 2) ?s2))"
  have h3: "my_holds my_all ?s3"
    using my_holds_acquire [OF my_holds_acquire [OF my_holds_acquire [OF h2, of "HugePage 2"], of "HugePageDma 1"],
      of "HugePageDma 2"] by (simp add: my_all_def)
  let ?s4 = "?s3\<lparr>huge_page_kern_address1 := me_page1 env, huge_page_kern_address2 := me_page2 env,
    huge_page1_dma_addr := me_map env (me_page1 env), huge_page2_dma_addr := me_map env (me_page2 env)\<rparr>"
  have h4: "my_holds my_all ?s4" using h3 by (subst my_holds_cong [where s = ?s3]) simp_all
  have h5: "my_holds (Pci NetDev # my_all) (my_acquire (Pci NetDev) ?s4)"
    using my_holds_acquire [OF h4, of "Pci NetDev"] by (simp add: my_all_def)
  have h6: "my_holds (Pci NetdevReg # Pci NetDev # my_all) (my_acquire (Pci NetdevReg) (my_acquire (Pci NetDev) ?s4))"
    using my_holds_acquire [OF h5, of "Pci NetdevReg"] by (simp add: my_all_def)
  have e8: "my_holds [] (err_08 s)" using err_labels_holds(8) [of "[]" s] h0 by simp
  have e9: "my_holds [] (err_09 (my_acquire (Pci IrqLine) s))"
    using err_labels_holds(9) [of "[]"] h1 by (simp add: my_all_def)
  have e10: "my_holds [] (err_10 ?s2)" using err_labels_holds(10) [of "[]"] h2 by (simp add: my_all_def)
  have e11: "my_holds [] (err_11 ?s4)" using err_labels_holds(11) [of "[]"] h4 by (simp add: my_all_def)
  have "my_holds (my_all @ [Pci NetDev]) (my_acquire (Pci NetDev) ?s4)"
    using h5 by (simp add: my_holds_def Un_commute)
  then have l11: "my_holds [Pci NetDev] (err_11 (my_acquire (Pci NetDev) ?s4))"
    using err_labels_holds(11) [of "[Pci NetDev]"] by (simp add: my_all_def)
  have m: "my_holds rs (mymit e s) = my_holds rs s" for rs e s by (rule my_holds_cong) simp
  show ?thesis
    using e8 e9 e10 e11 l11 h6
    by (simp add: my_probe_pages_def my_linux_network_interface_def my_outcome_def Let_def m)
qed

lemma my_probe_outcome:
  assumes "my_ledger s = []" "my_pcie_probe env s = Some r"
  shows "my_outcome env r"
proof -
  let ?s0 = "s\<lparr>huge_page_index := 0, total_numb_of_huge_pages_processed := 0\<rparr>"
  have s: "my_holds [] s" using assms(1) by (simp add: my_holds_def)
  have h0: "my_holds [] ?s0" using s by (subst my_holds_cong [where s = s]) simp_all
  let ?s1 = "my_acquire HostData ?s0"
  note h1 = my_holds_acquire [OF h0, of HostData, simplified]
  let ?s2 = "my_acquire WorkQueue ?s1"
  note h2 = my_holds_acquire [OF h1, of WorkQueue, simplified]
  let ?s3 = "my_acquire (Pci PciDevice) ?s2"
  note h3 = my_holds_acquire [OF h2, of "Pci PciDevice", simplified]
  let ?s4 = "my_acquire (Pci DrvData) ?s3"
  note h4 = my_holds_acquire [OF h3, of "Pci DrvData", simplified]
  let ?s5 = "my_acquire (Pci PciRegions) ?s4"
  note h5 = my_holds_acquire [OF h4, of "Pci PciRegions", simplified]
  let ?s6 = "my_acquire (Pci Bar2) ?s5"
  note h6 = my_holds_acquire [OF h5, of "Pci Bar2", simplified]
  note h6b = my_holds_acquire [OF h6, of "Pci Bar0", simplified]
  let ?s7 = "my_acquire (Pci BusMaster) (my_acquire (Pci Bar0) ?s6)"
  note h7 = my_holds_acquire [OF h6b, of "Pci BusMaster", simplified]
  let ?s8 = "my_acquire (Pci Msi) ?s7"
  note h8 = my_holds_acquire [OF h7, of "Pci Msi", simplified]
  let ?s9 = "my_acquire (Pci IrqLine) ?s8"
  note h9 = my_holds_acquire [OF h8, of "Pci IrqLine", simplified]
  have e: "my_holds [] (err_01 ?s1)" "my_holds [] (err_02 ?s2)" "my_holds [] (err_03 ?s3)" "my_holds [] (err_04 ?s4)"
    "my_holds [] (err_05 ?s5)" "my_holds [] (err_06 ?s6)" "my_holds [] (err_07 ?s7)" "my_holds [] (err_08 ?s8)"
    using err_labels_holds(1-8) [of "[]"] h1 h2 h3 h4 h5 h6 h7 h8 by simp_all
  have p: "my_holds (drop 5 my_all) (my_release (Pci IrqLine) (?s9\<lparr>my_phy := p\<rparr>))" for p
  proof -
    have "my_holds [Pci IrqLine, Pci Msi, Pci BusMaster, Pci Bar0, Pci Bar2, Pci PciRegions, Pci DrvData, Pci PciDevice,
      WorkQueue, HostData] (?s9\<lparr>my_phy := p\<rparr>)" using h9 by (subst my_holds_cong [where s = ?s9]) simp_all
    from my_holds_release [OF this] show ?thesis by (simp add: my_all_def)
  qed
  note o = e [THEN my_outcome_failed] my_outcome_failed [OF s] my_probe_pages_outcome [OF p]
  show ?thesis using assms(2) o unfolding my_pcie_probe_def Let_def
    by (auto split: if_splits)
qed

lemma fold_my_release: "my_ledger (fold my_release rs s) = my_ledger s @ map Release rs"
  by (induction rs arbitrary: s) auto

lemma my_remove_releases:
  assumes "my_holds (Pci NetdevReg # Pci NetDev # my_all) s"
  shows "my_holds [] (my_pcie_remove s)"
proof -
  let ?rs = "[Pci IrqLine, WorkQueue, HugePageDma 2, HugePageDma 1, HugePage 2, HugePage 1, Pci NetdevReg,
    Pci NetDev, Pci Msi, Pci BusMaster, Pci Bar0, Pci Bar2, Pci PciRegions, Pci DrvData, Pci PciDevice, HostData]"
  have "set ?rs = held (my_ledger s)" "Pci DrvData \<in> held (my_ledger s)"
    using assms by (auto simp: my_holds_def my_all_def)
  moreover have "distinct ?rs" by simp
  ultimately show ?thesis
    using ledger_release_all [of ?rs "my_ledger s"] assms
    by (simp add: my_holds_def my_pcie_remove_def fold_my_release [of ?rs, simplified])
qed

section \<open>A concrete card\<close>

definition demo_my_data :: my_data where
  "demo_my_data = \<lparr>huge_page_index = 0, huge_page1_dma_addr = 0xA00000, huge_page2_dma_addr = 0xC00000,
     huge_page_kern_address1 = 0x200000, huge_page_kern_address2 = 0x400000,
     total_numb_of_huge_pages_processed = 0, my_rx_packets = 0, my_phy = mdio_init, my_hist = [], my_ledger = []\<rparr>"

text \<open>Mapping BAR 2 fails, everything before it succeeds.\<close>

definition no_bar2 :: my_env where
  "no_bar2 = \<lparr>me_kzalloc = True, me_alloc_workqueue = True, me_enable_device = 0, me_set_dma_mask = 0,
     me_set_consistent_dma_mask = 0, me_request_regions = 0, me_iomap_bar2 = False, me_iomap_bar0 = True,
     me_enable_msi = 0, me_request_mdio_irq = 0, me_card = (\<lambda>_ _. True), me_request_irq = 0, me_page1 = 0x200000,
     me_page2 = 0x400000, me_map = (\<lambda>a. a + 0x800000), me_alloc_etherdev = True, me_register_netdev = 0\<rparr>"

section \<open>Properties\<close>

text \<open>
  C39: the prototype's work inverts the format. If the card fills the two huge pages in turn,
  beginning with the one \<open>huge_page_index\<close> selects, each with packets of at least four bytes, then the
  runs of the work give the stack every packet of every page without its check sequence, in order,
  count them, and give each page back to the card after its run.
\<close>

theorem my_work_delivers_pages:
  assumes "\<forall>h n. alloc h n" "filled (huge_page_index s) runs pss"
  shows "\<exists>s'. my_rx_run alloc runs s = Inr s' \<and>
    delivered (my_hist s') = delivered (my_hist s) @ map my_frame (concat pss) \<and>
    given_back (my_hist s') = given_back (my_hist s) @ in_turn (huge_page_index s) (length runs) \<and>
    my_rx_packets s' = my_rx_packets s + of_nat (length (concat pss))"
  by (rule my_rx_run_enc [OF assms])

lemma my_work_delivers_pages_witness:
  "\<exists>s'. my_rx_run (\<lambda>_ _. True) [\<lambda>_. enc_lbuf demo_pkts, \<lambda>_. enc_lbuf demo_pkts] demo_my_data = Inr s' \<and>
    length (delivered (my_hist s')) = 6 \<and> given_back (my_hist s') = [96, 100] \<and> my_rx_packets s' = 6"
proof -
  have f: "page_fits demo_pkts" using demo_pkts_size by (simp add: page_fits_def demo_pkts_def)
  have "filled (huge_page_index demo_my_data) [\<lambda>_. enc_lbuf demo_pkts, \<lambda>_. enc_lbuf demo_pkts] [demo_pkts, demo_pkts]"
    using f by simp
  from my_work_delivers_pages [OF _ this, of "\<lambda>_ _. True"] show ?thesis
    by (auto simp: demo_my_data_def demo_pkts_def delivered_def given_back_def my_own_off_def page_of_def
        next_idx_def numeral_2_eq_2)
qed

text \<open>
  C40: a probe of the prototype takes or leaves everything, but for one leak: nothing is released
  that was not acquired; either it returns 0 and holds all its resources, or it holds nothing, or, where
  registering the interface fails, it fails and keeps the interface's memory. After a probe that
  returns 0, removing the card leaves nothing held.
\<close>

theorem my_probe_ledger:
  assumes "my_ledger s = []" "my_pcie_probe env s = Some (ret, s')"
  shows "stray (my_ledger s') = [] \<and>
    (ret = 0 \<and> held (my_ledger s') = set my_all \<union> {Pci NetDev, Pci NetdevReg} \<or>
     held (my_ledger s') = {} \<or>
     held (my_ledger s') = {Pci NetDev} \<and> ret = me_register_netdev env \<and> ret \<noteq> 0) \<and>
    (ret = 0 \<longrightarrow> held (my_ledger (my_pcie_remove s')) = {} \<and> stray (my_ledger (my_pcie_remove s')) = [])"
proof -
  have o: "my_outcome env (ret, s')" by (rule my_probe_outcome [OF assms])
  have "my_holds [] (my_pcie_remove s')" if "ret = 0"
  proof (cases "my_holds [] s'")
    case True
    then have "Pci DrvData \<notin> held (my_ledger s')" by (simp add: my_holds_def)
    then have "my_pcie_remove s' = s'" by (simp add: my_pcie_remove_def)
    then show ?thesis using True by simp
  next
    case False
    then show ?thesis using o that my_remove_releases by (auto simp: my_outcome_def)
  qed
  then show ?thesis using o by (auto simp: my_outcome_def my_holds_def)
qed

lemma my_probe_ledger_witness:
  "\<exists>ret s'. my_pcie_probe no_bar2 demo_my_data = Some (ret, s') \<and> stray (my_ledger s') = []"
proof -
  obtain ret s' where r: "my_pcie_probe no_bar2 demo_my_data = Some (ret, s')"
    by (simp add: my_pcie_probe_def no_bar2_def Let_def)
  have "stray (my_ledger s') = []" using my_probe_ledger [OF _ r] by (simp add: demo_my_data_def)
  then show ?thesis using r by blast
qed

text \<open>
  A probe that fails can report success. \<open>ret\<close> still holds the result of the call before
  when a BAR cannot be mapped, so the probe returns 0 although it has released everything.
\<close>

theorem my_probe_claims_success:
  assumes "my_ledger s = []" "me_kzalloc env" "me_alloc_workqueue env" "me_enable_device env = 0"
    and "me_set_dma_mask env = 0" "me_set_consistent_dma_mask env = 0" "me_request_regions env = 0"
    and "\<not> me_iomap_bar2 env \<or> \<not> me_iomap_bar0 env"
  shows "\<exists>s'. my_pcie_probe env s = Some (0, s') \<and> held (my_ledger s') = {}"
proof -
  obtain s' where p: "my_pcie_probe env s = Some (0, s')"
    using assms(2-8) by (cases "me_iomap_bar2 env") (simp_all add: my_pcie_probe_def Let_def)
  have "Pci NetdevReg \<notin> held (my_ledger s')"
  proof -
    have "Acquire (Pci NetdevReg) \<notin> set (my_ledger s')"
      using p assms by (cases "me_iomap_bar2 env") (auto simp: my_pcie_probe_def Let_def my_err_labels)
    then show ?thesis by (rule not_acquired_not_held)
  qed
  then have "held (my_ledger s') = {}"
    using my_probe_outcome [OF assms(1) p] by (auto simp: my_outcome_def my_holds_def)
  then show ?thesis using p by blast
qed

lemma my_probe_claims_success_witness:
  "\<exists>s'. my_pcie_probe no_bar2 demo_my_data = Some (0, s') \<and> held (my_ledger s') = {}"
  by (rule my_probe_claims_success) (simp_all add: no_bar2_def demo_my_data_def)

end
