(* ===== verification/Spec2Isabelle.thy ===== *)
theory Spec2Isabelle
  imports Lbuf_App Nf10_Main Skbpool Xenbus My_Driver
begin

text \<open>
  \<^bold>\<open>A verification library for the host side of an in-house RDMA network card.\<close>

  \<^bold>\<open>The program.\<close> The card (Verilog, under \<open>hw/\<close>) moves Ethernet packets to and from the host
  through large buffers of 2 MB. On the host, \<open>sw/driver\<close> is a Linux network driver for it,
  \<open>sw/apps/lbuf_rx.c\<close> a program that reads the receive buffers directly, and \<open>sw/my_driver\<close> an earlier
  stand-alone driver. This library models the C code.

  The driver has a frame (\<open>nf10_main.c\<close>: probing, the interface, the interrupt and its poll) over a table
  of operations of a DMA engine (\<open>struct nf10_hw_ops\<close>), which the large-buffer engine (\<open>nf10_lbuf.c\<close>)
  fills in. The engine has a ring of \<open>NR_LBUF\<close> descriptors for each direction. A poll takes a filled buffer
  off the RX ring, puts a fresh one in its place and passes the filled one on: to a user process that
  has mapped the buffers (\<open>nf10_user.c\<close>), to a Xen guest (\<open>xen_nfback.c\<close>), or packet by packet to the
  network stack, where the build with \<open>CONFIG_SKBPOOL\<close> takes its socket buffers from a pool
  (\<open>skbpool.c\<close>). Transmission puts a socket buffer into the TX ring; the card's completion words and
  the last address it reports say when its memory can be released.

  \<^bold>\<open>Theories and sources.\<close>
  \<^item> \<open>Prelude\<close>: integer types, faults, \<open>rbind\<close>, error numbers, lemmas on words and lists.
  \<^item> \<open>Kernel\<close>: the kernel's services as parameters (record \<open>kapi\<close>), the history of calls and register
    writes, and what a history says: live memory, live DMA mappings, delivered frames.
  \<^item> \<open>Ledger\<close>: acquisitions and releases of probe and remove functions.
  \<^item> \<open>Fifo\<close>: the queue interfaces (locales \<open>fifo\<close>, \<open>bounded_fifo\<close>) and the arithmetic of rings.
  \<^item> \<open>Lbuf_Format\<close>: \<open>nf10_lbuf_api.h\<close>, the steps of the three parsers (locale \<open>pkt_stepper\<close>, interpreted by
    each of them), and an encoder of packet lists as the specification of the format.
  \<^item> \<open>Lbuf_Ring\<close>, \<open>Lbuf_Buffers\<close>, \<open>Lbuf_Queue\<close>, \<open>Lbuf_Tx\<close>, \<open>Lbuf_Rx\<close>: \<open>nf10_lbuf.c\<close> and \<open>nf10_lbuf.h\<close>. The
    record \<open>nic\<close> is \<open>struct large_buffer\<close> with the statics beside it, the memory of the buffers, the fields
    of the adapter the engine uses, and the history.
  \<^item> \<open>Nf10_User\<close>, \<open>Lbuf_App\<close>: \<open>nf10_user.c\<close> over the engine's operations for user processes (locale
    \<open>user_ops_contract\<close>, interpreted by the engine), and \<open>apps/lbuf_rx.c\<close> with its composition with them.
  \<^item> \<open>Ael2005_Tables\<close>, \<open>Mdio\<close>: \<open>ael2005_conf.h\<close>, \<open>ael2005_conf.c\<close> and their copies in \<open>sw/my_driver\<close>.
  \<^item> \<open>Nf10_Main\<close>: \<open>nf10_main.c\<close>, \<open>nf10.h\<close>, \<open>nf10_ethtool.c\<close>, and \<open>nf10_init_fops\<close> and \<open>nf10_remove_fops\<close> of
    \<open>nf10_user.c\<close>; locale \<open>hw_engine\<close>, interpreted by the large-buffer engine.
  \<^item> \<open>Skbpool\<close>: \<open>skbpool.c\<close>, \<open>skbpool.h\<close>, and the parts of \<open>nf10_lbuf.c\<close> under \<open>CONFIG_SKBPOOL\<close>, over a heap of
    linked entries.
  \<^item> \<open>Xenvif\<close>, \<open>Xenbus\<close>: \<open>xen_nfback.c\<close>, its data path (the shared ring and the thread) and its control path
    (state machine, connecting, probing, removing).
  \<^item> \<open>My_Driver\<close>: \<open>my_driver.c\<close>, built with \<open>MY_DEBUG\<close> as its header says.

  An operation of the code is a function from the state it works on to its result and the new state.
  One that can touch memory it does not own, or stop the kernel, returns a sum whose left side is the
  fault; error numbers are the code's negative integers. Integers have the width they have in C.
  An access to freed memory is a fault. The one exception is the test with which \<open>clean_tx_pending_gc\<close>
  ends its loop: it reads an entry that \<open>free_pdesc\<close> has just freed, and the driver lives by what that
  read gives. Its result is the parameter \<open>k_freed_gc\<close>, which may be a trap (then it is a fault, too) or
  any value; what holds only where the allocator leaves freed entries alone has the premise \<open>slab_keeps\<close>.
\<close>

text \<open>
  \<^bold>\<open>What is not the program's is a parameter.\<close> Every answer of the outside world is an argument of the
  definition that depends on it, so a theorem holds for all of its behaviours but those its premises name:
  \<^item> \<open>kapi\<close>, \<open>pci_env\<close>, \<open>my_env\<close>, \<open>pool_api\<close>, \<open>xenbus_api\<close>: results of kernel and Xen services. The premises
    on them (\<open>kernel_ok\<close> and its like) say what is documented: a fresh allocation is not live already,
    a new mapping does not have an address that is in use. \<open>slab_keeps\<close> (a freed entry reads as it was) is
    no documented law but the setting the driver was written for; it stands only where a text says so.
  \<^item> \<open>device\<close>: what the card writes to the completion buffer while interrupts are handled; \<open>mdio_card\<close>:
    after how many sleeps the card has answered a command.
  \<^item> \<open>xen_front\<close>: what the guest puts on the shared ring between any two looks at it; it need not keep
    its protocol.
  \<^item> the content of a buffer: a function from dword index to dword, whatever the card wrote.

  \<^bold>\<open>What the lemmas show.\<close>
  \<^item> Format: the three parsers advance alike; delivery of an encoded buffer gives the frames, in order;
    no content of a buffer makes delivery leave it unless a packet that is named reaches behind its end.
  \<^item> Rings: both are bounded queues; allocating the buffers arms the ring or undoes itself; freeing after
    initialising restores memory and mappings; a poll keeps the ring full, armed and owning its buffers.
  \<^item> Transmit: every outcome of a transmission, with what is mapped and what the card is told; what
    completion moves and what collection releases, whatever the freed entries read as; when the
    interrupt's loop returns; an invariant over all orders of up, transmit, card writes, interrupt and
    down, where the interface is brought up only with an empty TX ring (with a descriptor left over from
    before, \<open>init_buffers\<close> makes a ring that looks full, \<open>leftover_descriptor_blocks_tx\<close>).
  \<^item> Frame: probing holds everything or nothing; removing releases all but the transmissions still in the
    TX ring, which nothing collects; up and down are inverse, the poll keeps the contract of NAPI, an
    interrupt delivers.
  \<^item> PHY: a configuration that succeeds has written the tables, one that fails a prefix; when it returns.
  \<^item> Pool: the consumer chain and the pool are one queue; the worker ends and refills.
  \<^item> Xen: the thread copies the pages in order and releases every buffer once; the state machine walks
    shortest paths of its graph; closing gives back what connecting has acquired but the hotplug watch,
    which removing gives back. A device unregistered by \<open>frontend_changed\<close> is removed on the spot.
  \<^item> Prototype: runs of its work deliver every page; its probe's ledger.
  The properties that show where the code fails a purpose of its own say what happens, under premises
  that make it happen.

  \<^bold>\<open>Loops.\<close> Loops over data are functions with a termination proof: parsers by the distance of the
  next length dword to the end of the 32-bit range (every read is inside the buffer, so a step cannot
  wrap), loops over a ring or a list by what is left of it. A loop that waits for the card, the guest or
  the Xen store is a \<open>partial_function (option)\<close>, whose value is \<open>None\<close> when it does not return; where such a
  loop returns is a property of its own. No definition has fuel.
\<close>

text \<open>
  \<^bold>\<open>Not modelled.\<close>
  \<^item> The hardware under \<open>hw/\<close>, the shell scripts, build files and documents.
  \<^item> Log output, \<open>CONFIG_PROFILE\<close> counters, and the metadata of a socket buffer beside its bytes
    (protocol, checksum flag, GRO state); \<open>nfback_uevent\<close>, which only formats environment variables;
    the callbacks that only print (\<open>my_net_device_open\<close>, \<open>my_pcie_error\<close> and their like).
  \<^item> Locks and true parallelism. An operation under a lock, or in the one context the kernel gives it, is
    one step; interleavings are sequences of steps (\<open>tx_reach\<close>, \<open>xb_reach\<close>, the wake-ups of the
    thread, the states of the card between two looks).
  \<^item> \<open>nf10_probe\<close> and \<open>nf10_remove\<close> with \<open>CONFIG_XEN_NF_BACKEND\<close>, where \<open>nf10_probe\<close> also calls
    \<open>xen_nfback_init\<close> and only warns when that fails.
  \<^item> The table \<open>twinax_edc\<close> is written down but not used, as in the code; the dump of the first
    hundred dwords by \<open>rx_wq_function\<close> and the \<open>flush_workqueue\<close> of \<open>my_pcie_remove\<close> have no counterpart.
  \<^item> On the shared ring of Xen, requests and responses are separate sequences, so a response that
    overwrites a request the guest has not seen answered does not arise in the model.
\<close>

end
